(* ===== verification/Mux_Prelude.thy ===== *)
theory Mux_Prelude
  imports Main "HOL-Library.Word"
begin

text \<open>
  Shared vocabulary of the development: machine integers at their C width, byte regions
  and the stores into them, the outcomes of the allocator, the big-endian loads and stores
  of \<^verbatim>\<open>src/libmux/src/frame.c\<close> (mirrored in \<^verbatim>\<open>session.c\<close>), and the list and word
  lemmas every component uses. The collections \<open>codec_simps\<close> and \<open>region_simps\<close> are
  filled by the component theories and unfolded by name in their proofs.
\<close>

unbundle bit_operations_syntax

section \<open>Types\<close>

type_synonym u8 = "8 word"
type_synonym u16 = "16 word"
type_synonym u32 = "32 word"
type_synonym u64 = "64 word"

text \<open>
  A C pointer to bytes together with the length of what it points at is a byte list; a
  pointer that the code tests against \<open>NULL\<close> is an option, \<open>None\<close> being \<open>NULL\<close>.
\<close>

type_synonym bytes = "u8 list"

named_theorems codec_simps
named_theorems region_simps

section \<open>Regions of memory\<close>

text \<open>
  \<open>mem_write buf off bs\<close> is the region \<open>buf\<close> after the bytes \<open>bs\<close> were stored from
  offset \<open>off\<close> on (\<^verbatim>\<open>memcpy\<close>, or byte-wise stores). The result is as long as \<open>buf\<close>
  exactly when the store stays inside it, so a length lemma is a bounds lemma.
\<close>

definition mem_write :: "'a list \<Rightarrow> nat \<Rightarrow> 'a list \<Rightarrow> 'a list" where
  "mem_write buf off bs = take off buf @ bs @ drop (off + length bs) buf"

lemma length_mem_write [simp]:
  "off + length bs \<le> length buf \<Longrightarrow> length (mem_write buf off bs) = length buf"
  by (simp add: mem_write_def)

lemma take_mem_write_before [region_simps]:
  "n \<le> off \<Longrightarrow> off \<le> length buf \<Longrightarrow> take n (mem_write buf off bs) = take n buf"
  by (simp add: mem_write_def min_def)

lemma take_mem_write_through [region_simps]:
  "off \<le> length buf \<Longrightarrow> take (off + length bs) (mem_write buf off bs) = take off buf @ bs"
  by (simp add: mem_write_def)

lemma drop_mem_write_after [region_simps]:
  "off + length bs \<le> n \<Longrightarrow> off \<le> length buf \<Longrightarrow> drop n (mem_write buf off bs) = drop n buf"
  by (simp add: mem_write_def)

lemma mem_write_Nil [simp]: "mem_write buf off [] = buf"
  by (simp add: mem_write_def)

section \<open>The allocator\<close>

text \<open>
  \<^verbatim>\<open>malloc\<close>, \<^verbatim>\<open>calloc\<close> and \<^verbatim>\<open>realloc\<close> may fail at any call. The outcomes of the
  calls still to come are a list of booleans, consumed front first; when it is exhausted
  every further call succeeds. Every finite pattern of failures is such a list, and \<open>[]\<close>
  is the allocator that never fails.
\<close>

type_synonym heap = "bool list"

fun alloc :: "heap \<Rightarrow> bool \<times> heap" where
  "alloc [] = (True, [])"
| "alloc (ok # rest) = (ok, rest)"

text \<open>
  The doubling loop \<^verbatim>\<open>while (ncap < want) ncap *= 2\<close> that every growable container of
  the repository runs. Its start value is never 0 in the code (64, 4096 or the old
  capacity), and from 0 the C loop would not end; the model stops there.
\<close>

function grow_cap :: "nat \<Rightarrow> nat \<Rightarrow> nat" where
  "grow_cap ncap want = (if ncap = 0 \<or> want \<le> ncap then ncap else grow_cap (ncap * 2) want)"
  by pat_completeness auto
termination
  by (relation "measure (\<lambda>(ncap, want). want - ncap)") auto

declare grow_cap.simps [simp del]

lemma grow_cap_ge: "0 < ncap \<Longrightarrow> want \<le> grow_cap ncap want"
proof (induction ncap want rule: grow_cap.induct)
  case (1 ncap want)
  then show ?case by (cases "want \<le> ncap") (auto simp: grow_cap.simps [of ncap want])
qed

lemma grow_cap_mono: "ncap \<le> grow_cap ncap want"
proof (induction ncap want rule: grow_cap.induct)
  case (1 ncap want)
  then show ?case
    by (cases "ncap = 0 \<or> want \<le> ncap") (simp_all add: grow_cap.simps [of ncap want])
qed

lemma grow_cap_double: "ncap < want \<Longrightarrow> 0 < ncap \<Longrightarrow> grow_cap ncap want < 2 * want"
proof (induction ncap want rule: grow_cap.induct)
  case (1 ncap want)
  show ?case
  proof (cases "ncap * 2 < want")
    case True
    with 1 show ?thesis by (simp add: grow_cap.simps [of ncap want])
  next
    case False
    with 1 show ?thesis
      by (simp add: grow_cap.simps [of ncap want] grow_cap.simps [of "ncap * 2" want])
  qed
qed

lemma grow_cap_pow2: "\<exists>k. ncap = 2 ^ k \<Longrightarrow> \<exists>k. grow_cap ncap want = 2 ^ k"
proof (induction ncap want rule: grow_cap.induct)
  case (1 ncap want)
  show ?case
  proof (cases "ncap = 0 \<or> want \<le> ncap")
    case True
    with 1 show ?thesis by (simp add: grow_cap.simps [of ncap want])
  next
    case False
    from 1 obtain k where "ncap = 2 ^ k" by blast
    then have "\<exists>k. ncap * 2 = 2 ^ k" by (metis power_Suc2)
    with 1 False show ?thesis by (simp add: grow_cap.simps [of ncap want])
  qed
qed

lemma grow_cap_le_pow2:
  assumes "ncap = 2 ^ j" "want \<le> 2 ^ k" "j \<le> k"
  shows "grow_cap ncap want \<le> 2 ^ k"
  using assms
proof (induction ncap want arbitrary: j rule: grow_cap.induct)
  case (1 ncap want)
  show ?case
  proof (cases "ncap = 0 \<or> want \<le> ncap")
    case True
    have "(2::nat) ^ j \<le> 2 ^ k" using 1 by simp
    with 1 True show ?thesis by (auto simp: grow_cap.simps [of "2 ^ j" want])
  next
    case False
    with 1 have "(2::nat) ^ j < 2 ^ k" by linarith
    then have "Suc j \<le> k" by simp
    moreover have "ncap * 2 = 2 ^ Suc j" using 1 by simp
    ultimately have "grow_cap (ncap * 2) want \<le> 2 ^ k"
      using 1 False by blast
    with False show ?thesis by (simp add: grow_cap.simps [of ncap want])
  qed
qed

text \<open>
  A capacity that starts as 0 or a power of two no smaller than the initial one stays so.
\<close>

lemma grow_cap_pow2_ge:
  assumes "c = 0 \<or> (\<exists>k \<ge> b. c = 2 ^ k)" "s = 2 ^ b"
  shows "\<exists>k \<ge> b. grow_cap (if c \<noteq> 0 then c else s) want = (2 ^ k :: nat)"
proof -
  have "\<exists>j \<ge> b. (if c \<noteq> 0 then c else s) = (2 ^ j :: nat)"
    using assms by (cases "c = 0") auto
  then obtain j where j: "b \<le> j" "(if c \<noteq> 0 then c else s) = (2 ^ j :: nat)" by blast
  obtain k where k: "grow_cap (if c \<noteq> 0 then c else s) want = 2 ^ k"
    using grow_cap_pow2 [of "if c \<noteq> 0 then c else s" want] j(2) by blast
  have "(2::nat) ^ j \<le> 2 ^ k"
    using grow_cap_mono [of "2 ^ j" want] j k by simp
  then have "b \<le> k" using power_le_imp_le_exp [of "2::nat" j k] j by simp
  with k show ?thesis by blast
qed

section \<open>Rings\<close>

text \<open>Two positions less than a full round apart are different cells of a ring.\<close>

lemma ring_slot_inj_le:
  assumes "(h + i) mod n = (h + j) mod n" "i < n" "j \<le> i"
  shows "i = (j :: nat)"
proof -
  have "n dvd i - j"
    using assms mod_eq_dvd_iff_nat [of "h + j" "h + i" n] by simp
  then show ?thesis using assms nat_dvd_not_less [of "i - j" n] by fastforce
qed

lemma ring_slot_inj:
  assumes "(h + i) mod n = (h + j) mod n" "i < n" "j < n"
  shows "i = (j :: nat)"
  using ring_slot_inj_le [of h i n j] ring_slot_inj_le [of h j n i] assms by linarith

section \<open>Counting cells\<close>

abbreviation cnt :: "('a \<Rightarrow> bool) \<Rightarrow> 'a list \<Rightarrow> nat" where
  "cnt P xs \<equiv> length (filter P xs)"

lemma cnt_update:
  "i < length xs \<Longrightarrow> cnt P (xs[i := e]) + of_bool (P (xs ! i)) = cnt P xs + of_bool (P e)"
proof (induction xs arbitrary: i)
  case (Cons x xs)
  then show ?case by (cases i) auto
qed simp

lemma cnt_update_same [simp]:
  "i < length xs \<Longrightarrow> P e = P (xs ! i) \<Longrightarrow> cnt P (xs[i := e]) = cnt P xs"
  using cnt_update [of i xs P e] by simp

lemma cnt_pos: "i < length xs \<Longrightarrow> P (xs ! i) \<Longrightarrow> 0 < cnt P xs"
  by (auto simp: filter_empty_conv)

lemma cnt_less: "cnt P xs < length xs \<Longrightarrow> \<exists>i < length xs. \<not> P (xs ! i)"
  by (metis filter_True in_set_conv_nth less_irrefl)

lemma cnt_disj:
  "\<forall>x \<in> set xs. \<not> (P x \<and> Q x) \<Longrightarrow> cnt (\<lambda>x. P x \<or> Q x) xs = cnt P xs + cnt Q xs"
  by (induction xs) auto

section \<open>Masks\<close>

lemma and_mask_mod:
  assumes "n = (2 :: nat) ^ k"
  shows "i AND (n - Suc 0) = i mod n"
proof -
  have "n - Suc 0 = mask k" using assms by (simp add: mask_eq_exp_minus_1)
  then show ?thesis using take_bit_eq_mask [of k i] assms by (simp add: take_bit_eq_mod)
qed

section \<open>Big-endian loads and stores\<close>

definition be_put16 :: "u16 \<Rightarrow> bytes" where
  "be_put16 v = [ucast (drop_bit 8 v), ucast v]"

definition be_put32 :: "u32 \<Rightarrow> bytes" where
  "be_put32 v = [ucast (drop_bit 24 v), ucast (drop_bit 16 v), ucast (drop_bit 8 v), ucast v]"

definition be_get16 :: "bytes \<Rightarrow> u16" where
  "be_get16 p = push_bit 8 (ucast (p ! 0)) OR ucast (p ! 1)"

definition be_get32 :: "bytes \<Rightarrow> u32" where
  "be_get32 p = push_bit 24 (ucast (p ! 0)) OR push_bit 16 (ucast (p ! 1)) OR
     push_bit 8 (ucast (p ! 2)) OR ucast (p ! 3)"

lemma length_be_put [simp]: "length (be_put16 v) = 2" "length (be_put32 w) = 4"
  by (simp_all add: be_put16_def be_put32_def)

lemma be_get16_put16 [simp]: "be_get16 (be_put16 v @ rest) = v"
  unfolding be_get16_def be_put16_def
  by (rule bit_word_eqI) (auto simp: bit_simps)

lemma be_get32_put32 [simp]: "be_get32 (be_put32 v @ rest) = v"
proof (rule bit_word_eqI)
  fix n assume "n < LENGTH(32)"
  then consider "n < 8" | "8 \<le> n" "n < 16" | "16 \<le> n" "n < 24" | "24 \<le> n" "n < 32"
    by fastforce
  then show "bit (be_get32 (be_put32 v @ rest)) n \<longleftrightarrow> bit v n"
    by cases (auto simp: be_get32_def be_put32_def bit_simps)
qed

lemma u8_bit_ge [simp]: "8 \<le> n \<Longrightarrow> \<not> bit (b :: u8) n"
  by (auto dest: bit_imp_le_length)

lemma be_put16_get16: "be_put16 (be_get16 (a # b # rest)) = [a, b]"
  unfolding be_get16_def be_put16_def
  by (auto intro!: bit_word_eqI simp: bit_simps)

lemma be_put32_get32: "be_put32 (be_get32 (a # b # c # d # rest)) = [a, b, c, d]"
  unfolding be_get32_def be_put32_def
  by (auto intro!: bit_word_eqI simp: bit_simps)

section \<open>Self-delimiting encodings\<close>

text \<open>
  The interface between a codec and its clients. \<open>enc\<close> writes a message, \<open>dec\<close> reads one
  from the front of a buffer and says how many bytes it took. \<open>parse_all\<close> is the drain
  loop of a client: it reads messages until \<open>dec\<close> gives none, and leaves the rest.
\<close>

function parse_all :: "('b list \<Rightarrow> 'e + 'm \<times> nat) \<Rightarrow> 'b list \<Rightarrow> 'm list \<times> 'b list" where
  "parse_all dec b =
     (case dec b of
        Inl _ \<Rightarrow> ([], b)
      | Inr (m, n) \<Rightarrow>
          if n = 0 \<or> b = [] then ([], b)
          else (let (ms, rest) = parse_all dec (drop n b) in (m # ms, rest)))"
  by pat_completeness auto
termination
  by (relation "measure (\<lambda>(dec, b). length b)") auto

declare parse_all.simps [simp del]

locale wire_codec =
  fixes enc :: "'m \<Rightarrow> 'b list"
    and dec :: "'b list \<Rightarrow> 'e + 'm \<times> nat"
    and valid :: "'m \<Rightarrow> bool"
  assumes dec_enc: "valid m \<Longrightarrow> dec (enc m @ rest) = Inr (m, length (enc m))"
    and dec_sound: "dec b = Inr (m, n) \<Longrightarrow> valid m \<and> n = length (enc m) \<and> take n b = enc m"
    and enc_nonempty: "valid m \<Longrightarrow> enc m \<noteq> []"
begin

lemma dec_take: "dec b = Inr (m, n) \<Longrightarrow> b = enc m @ drop n b"
proof -
  assume "dec b = Inr (m, n)"
  then have "enc m = take n b" using dec_sound by simp
  then show "b = enc m @ drop n b" by simp
qed

lemma dec_extend: "dec b = Inr (m, n) \<Longrightarrow> dec (b @ c) = Inr (m, n)"
proof -
  assume mn: "dec b = Inr (m, n)"
  obtain b' where "b = enc m @ b'" using dec_take [OF mn] by blast
  then show "dec (b @ c) = Inr (m, n)" using dec_sound [OF mn] by (simp add: dec_enc)
qed

lemma enc_prefix_free:
  assumes "valid m" "valid m'" "enc m @ r = enc m' @ r'"
  shows "m = m' \<and> r = r'"
proof -
  have "dec (enc m @ r) = dec (enc m' @ r')" using assms(3) by simp
  then have "m = m'" using dec_enc [OF assms(1)] dec_enc [OF assms(2)] by simp
  with assms(3) show ?thesis by simp
qed

lemma parse_all_step:
  "valid m \<Longrightarrow> parse_all dec (enc m @ b) = (case parse_all dec b of (ms, r) \<Rightarrow> (m # ms, r))"
  by (subst parse_all.simps) (auto simp: dec_enc enc_nonempty split: prod.splits)

lemma parse_all_stop: "dec b = Inl e \<Longrightarrow> parse_all dec b = ([], b)"
  by (subst parse_all.simps) simp

lemma parse_all_concat:
  assumes "\<forall>m \<in> set ms. valid m"
  shows "parse_all dec (concat (map enc ms) @ b) =
    (case parse_all dec b of (ms', r) \<Rightarrow> (ms @ ms', r))"
  using assms by (induction ms) (auto simp: parse_all_step split: prod.splits)

lemma parse_all_sound:
  "parse_all dec b = (ms, r) \<Longrightarrow> (\<forall>m \<in> set ms. valid m) \<and> b = concat (map enc ms) @ r"
proof (induction "length b" arbitrary: b ms r rule: less_induct)
  case less
  show ?case
  proof (cases "dec b")
    case (Inl e)
    with less.prems show ?thesis by (simp add: parse_all_stop)
  next
    case (Inr mn)
    then obtain m n where mn: "dec b = Inr (m, n)" by (cases mn) auto
    then have v: "valid m" using dec_sound by blast
    obtain b' where b: "b = enc m @ b'" using dec_take [OF mn] by blast
    obtain ms' r' where rest: "parse_all dec b' = (ms', r')" by fastforce
    with less.prems have ms: "ms = m # ms'" "r = r'"
      by (simp_all add: b parse_all_step [OF v])
    have "length b' < length b" using enc_nonempty [OF v] by (simp add: b)
    from less.hyps [OF this rest] ms v b show ?thesis by simp
  qed
qed

lemma parse_all_chunks:
  assumes "parse_all dec a = (ms, r)"
  shows "parse_all dec (a @ b) = (case parse_all dec (r @ b) of (ms', r') \<Rightarrow> (ms @ ms', r'))"
  using parse_all_sound [OF assms] parse_all_concat [of ms "r @ b"] by simp

lemma concat_enc_inj:
  assumes "\<forall>m \<in> set ms. valid m" "\<forall>m \<in> set ms'. valid m"
    and "concat (map enc ms) = concat (map enc ms')"
  shows "ms = ms'"
  using assms
proof (induction ms arbitrary: ms')
  case Nil
  then show ?case by (cases ms') (simp_all add: enc_nonempty)
next
  case (Cons m ms)
  note prems = Cons.prems and IH = Cons.IH
  have v: "valid m" and vs: "\<forall>m \<in> set ms. valid m" using prems(1) by simp_all
  show ?case
  proof (cases ms')
    case Nil
    with prems(3) enc_nonempty [OF v] show ?thesis by simp
  next
    case (Cons m' ms'')
    have v': "valid m'" and vs': "\<forall>m \<in> set ms''. valid m"
      using Cons prems(2) by simp_all
    have "enc m @ concat (map enc ms) = enc m' @ concat (map enc ms'')"
      using Cons prems(3) by simp
    from enc_prefix_free [OF v v' this] IH [OF vs vs'] Cons show ?thesis by simp
  qed
qed

end

end
