(* ===== verification/Mux_Fifo.thy ===== *)
theory Mux_Fifo
  imports Mux_Prelude
begin

text \<open>
  The interface of the repository's growable queues: the output buffer and the event ring of
  \<^verbatim>\<open>session.c\<close> provide it (theories \<open>Mux_Outbuf\<close> and \<open>Mux_Evq\<close>), and so do the byte
  buffers of the daemons. A queue has a content, a \<open>push\<close> that may fail for want of memory
  or room, and a \<open>pop\<close> that drops a number of items from the front.
\<close>

datatype 'x fifo_op = Push 'x | Pop nat

text \<open>
  A run of operations, with the items accepted so far and the items handed out so far. A
  failed push accepts nothing.
\<close>

fun fifo_run ::
    "('q \<Rightarrow> 'x \<Rightarrow> heap \<Rightarrow> bool \<times> 'q \<times> heap) \<Rightarrow> ('q \<Rightarrow> nat \<Rightarrow> 'q) \<Rightarrow> ('q \<Rightarrow> 'b list) \<Rightarrow>
     ('x \<Rightarrow> 'b list) \<Rightarrow> 'x fifo_op list \<Rightarrow> 'q \<times> heap \<times> 'b list \<times> 'b list \<Rightarrow>
     'q \<times> heap \<times> 'b list \<times> 'b list" where
  "fifo_run push pop content item [] st = st"
| "fifo_run push pop content item (Push x # ops) (q, h, inn, outt) =
     (case push q x h of (ok, q', h') \<Rightarrow>
        fifo_run push pop content item ops (q', h', (if ok then inn @ item x else inn), outt))"
| "fifo_run push pop content item (Pop n # ops) (q, h, inn, outt) =
     fifo_run push pop content item ops (pop q n, h, inn, outt @ take n (content q))"

locale fifo =
  fixes inv :: "'q \<Rightarrow> bool"
    and content :: "'q \<Rightarrow> 'b list"
    and item :: "'x \<Rightarrow> 'b list"
    and push :: "'q \<Rightarrow> 'x \<Rightarrow> heap \<Rightarrow> bool \<times> 'q \<times> heap"
    and pop :: "'q \<Rightarrow> nat \<Rightarrow> 'q"
  assumes inv_push: "inv q \<Longrightarrow> push q x h = (ok, q', h') \<Longrightarrow> inv q'"
    and content_push: "inv q \<Longrightarrow> push q x h = (ok, q', h') \<Longrightarrow>
      content q' = (if ok then content q @ item x else content q)"
    and inv_pop: "inv q \<Longrightarrow> inv (pop q n)"
    and content_pop: "inv q \<Longrightarrow> content (pop q n) = drop n (content q)"
begin

lemma run_conserves:
  assumes "inv q" "inn = outt @ content q"
    and "fifo_run push pop content item ops (q, h, inn, outt) = (q', h', inn', outt')"
  shows "inv q' \<and> inn' = outt' @ content q'"
  using assms
proof (induction ops arbitrary: q h inn outt)
  case Nil
  then show ?case by auto
next
  case (Cons op ops)
  show ?case
  proof (cases op)
    case (Push x)
    obtain ok q1 h1 where p: "push q x h = (ok, q1, h1)" by (cases "push q x h") auto
    show ?thesis
      using Cons.prems Push p inv_push [OF Cons.prems(1) p] content_push [OF Cons.prems(1) p]
      by (intro Cons.IH [of q1 "if ok then inn @ item x else inn" outt h1]) auto
  next
    case (Pop n)
    show ?thesis
      using Cons.prems Pop inv_pop content_pop
      by (intro Cons.IH [of "pop q n" inn "outt @ take n (content q)" h]) auto
  qed
qed

text \<open>A bound that every push and every pop keeps holds after any run.\<close>

lemma run_keeps:
  assumes "inv q" "P q" "\<And>q x h ok q' h'. inv q \<Longrightarrow> P q \<Longrightarrow> push q x h = (ok, q', h') \<Longrightarrow> P q'"
    and "\<And>q n. inv q \<Longrightarrow> P q \<Longrightarrow> P (pop q n)"
    and "fifo_run push pop content item ops (q, h, inn, outt) = (q', h', inn', outt')"
  shows "P q'"
  using assms(1,2,5)
proof (induction ops arbitrary: q h inn outt)
  case (Cons op ops)
  show ?case
  proof (cases op)
    case (Push x)
    obtain ok q1 h1 where p: "push q x h = (ok, q1, h1)" by (cases "push q x h") auto
    show ?thesis
      using Cons.prems Push p inv_push [OF Cons.prems(1) p] assms(3) [OF Cons.prems(1,2) p]
      by (intro Cons.IH [of q1 h1 "if ok then inn @ item x else inn" outt]) auto
  next
    case (Pop n)
    then show ?thesis using Cons.prems inv_pop assms(4) by (intro Cons.IH) auto
  qed
qed simp

end

end
