(* ===== verification/Mux_Frame.thy ===== *)
theory Mux_Frame
  imports Mux_Prelude
begin

text \<open>
  The framing codec of \<^verbatim>\<open>src/libmux/src/frame.c\<close>: wire constants and error codes
  (\<^verbatim>\<open>mux.h\<close>), \<open>mux_parse\<close>, \<open>mux_craft_header\<close>, \<open>mux_craft\<close> and the TLV helpers
  \<open>mux_tlv_put\<close> and \<open>mux_tlv_next\<close>. An output parameter is part of the result: a
  function that stores into \<open>[dst, dst + cap)\<close> returns the stored-into region beside its
  return value. A negative return code is an \<open>Inl\<close>.
\<close>

unbundle bit_operations_syntax

section \<open>Constants\<close>

definition MUX_VERSION :: u8 where "MUX_VERSION = 0x01"
definition MUX_HEADER_SIZE :: nat where "MUX_HEADER_SIZE = 12"
definition MUX_MAX_PAYLOAD :: u32 where "MUX_MAX_PAYLOAD = 16 * 1024 * 1024"
definition MUX_SID_CONTROL :: u32 where "MUX_SID_CONTROL = 0"

definition MUX_T_DATA :: u8 where "MUX_T_DATA = 0x00"
definition MUX_T_WINDOW_UPDATE :: u8 where "MUX_T_WINDOW_UPDATE = 0x01"
definition MUX_T_PING :: u8 where "MUX_T_PING = 0x02"
definition MUX_T_GOAWAY :: u8 where "MUX_T_GOAWAY = 0x03"
definition MUX_T_HELLO :: u8 where "MUX_T_HELLO = 0x10"
definition MUX_T_HELLO_ACK :: u8 where "MUX_T_HELLO_ACK = 0x11"
definition MUX_T_CAPACITY :: u8 where "MUX_T_CAPACITY = 0x12"

definition MUX_F_SYN :: u16 where "MUX_F_SYN = 0x0001"
definition MUX_F_ACK :: u16 where "MUX_F_ACK = 0x0002"
definition MUX_F_FIN :: u16 where "MUX_F_FIN = 0x0004"
definition MUX_F_RST :: u16 where "MUX_F_RST = 0x0008"

definition MUX_TLV_PEER_ID :: u16 where "MUX_TLV_PEER_ID = 0x0001"
definition MUX_TLV_WEIGHT :: u16 where "MUX_TLV_WEIGHT = 0x0002"
definition MUX_TLV_MAX_STREAMS :: u16 where "MUX_TLV_MAX_STREAMS = 0x0003"
definition MUX_TLV_AUTH :: u16 where "MUX_TLV_AUTH = 0x0004"
definition MUX_TLV_INIT_WINDOW :: u16 where "MUX_TLV_INIT_WINDOW = 0x0005"
definition MUX_TLV_HEARTBEAT_MS :: u16 where "MUX_TLV_HEARTBEAT_MS = 0x0006"
definition MUX_TLV_SESSION_WINDOW :: u16 where "MUX_TLV_SESSION_WINDOW = 0x0007"
definition MUX_TLV_NONCE :: u16 where "MUX_TLV_NONCE = 0x0008"

definition MUX_CODE_NO_ERROR :: u32 where "MUX_CODE_NO_ERROR = 0"
definition MUX_CODE_PROTOCOL :: u32 where "MUX_CODE_PROTOCOL = 1"
definition MUX_CODE_FLOW_CONTROL :: u32 where "MUX_CODE_FLOW_CONTROL = 2"
definition MUX_CODE_STREAM_LIMIT :: u32 where "MUX_CODE_STREAM_LIMIT = 3"
definition MUX_CODE_INTERNAL :: u32 where "MUX_CODE_INTERNAL = 4"
definition MUX_CODE_REFUSED :: u32 where "MUX_CODE_REFUSED = 5"

lemmas mux_type_defs = MUX_T_DATA_def MUX_T_WINDOW_UPDATE_def MUX_T_PING_def MUX_T_GOAWAY_def
  MUX_T_HELLO_def MUX_T_HELLO_ACK_def MUX_T_CAPACITY_def

lemmas mux_flag_defs = MUX_F_SYN_def MUX_F_ACK_def MUX_F_FIN_def MUX_F_RST_def

lemmas mux_tlv_defs = MUX_TLV_PEER_ID_def MUX_TLV_WEIGHT_def MUX_TLV_MAX_STREAMS_def
  MUX_TLV_AUTH_def MUX_TLV_INIT_WINDOW_def MUX_TLV_HEARTBEAT_MS_def MUX_TLV_SESSION_WINDOW_def
  MUX_TLV_NONCE_def

lemmas mux_code_defs = MUX_CODE_NO_ERROR_def MUX_CODE_PROTOCOL_def MUX_CODE_FLOW_CONTROL_def
  MUX_CODE_STREAM_LIMIT_def MUX_CODE_INTERNAL_def MUX_CODE_REFUSED_def

text \<open>The negative return codes; \<open>MUX_OK\<close> is the \<open>Inr\<close> side of a result.\<close>

datatype mux_err =
  MUX_ERR_SHORT | MUX_ERR_PROTO | MUX_ERR_NOSPACE | MUX_ERR_PARAM
| MUX_ERR_STATE | MUX_ERR_NOMEM | MUX_ERR_NOSTREAM

fun mux_err_code :: "mux_err \<Rightarrow> int" where
  "mux_err_code MUX_ERR_SHORT = -1"
| "mux_err_code MUX_ERR_PROTO = -2"
| "mux_err_code MUX_ERR_NOSPACE = -3"
| "mux_err_code MUX_ERR_PARAM = -4"
| "mux_err_code MUX_ERR_STATE = -5"
| "mux_err_code MUX_ERR_NOMEM = -6"
| "mux_err_code MUX_ERR_NOSTREAM = -7"

section \<open>Frames\<close>

text \<open>
  A decoded frame. The payload view is \<open>None\<close> exactly when the C pointer is \<open>NULL\<close>.
\<close>

record mux_frame =
  fr_ver :: u8
  fr_type :: u8
  fr_flags :: u16
  fr_sid :: u32
  fr_len :: u32
  fr_payload :: "bytes option"

definition mux_parse :: "bytes option \<Rightarrow> mux_err + mux_frame \<times> nat" where
  "mux_parse bufp =
     (case bufp of
        None \<Rightarrow> Inl MUX_ERR_PARAM
      | Some buf \<Rightarrow>
          if length buf < MUX_HEADER_SIZE then Inl MUX_ERR_SHORT
          else
            let ver = buf ! 0; type = buf ! 1; flags = be_get16 (drop 2 buf);
                sid = be_get32 (drop 4 buf); plen = be_get32 (drop 8 buf)
            in if ver \<noteq> MUX_VERSION then Inl MUX_ERR_PROTO
               else if plen > MUX_MAX_PAYLOAD then Inl MUX_ERR_PROTO
               else
                 let need = MUX_HEADER_SIZE + unat plen
                 in if length buf < need then Inl MUX_ERR_SHORT
                    else Inr (\<lparr>fr_ver = ver, fr_type = type, fr_flags = flags, fr_sid = sid,
                               fr_len = plen,
                               fr_payload = (if plen > 0
                                             then Some (take (unat plen) (drop MUX_HEADER_SIZE buf))
                                             else None)\<rparr>, need))"

text \<open>
  The destination is the region \<open>[dst, dst + cap)\<close>; on success the result is the number of
  bytes stored and the region after the stores.
\<close>

definition craft_header_bytes :: "u8 \<Rightarrow> u16 \<Rightarrow> u32 \<Rightarrow> u32 \<Rightarrow> bytes" where
  "craft_header_bytes type flags sid payload_len =
     [MUX_VERSION, type] @ be_put16 flags @ be_put32 sid @ be_put32 payload_len"

definition mux_craft_header ::
    "bytes option \<Rightarrow> nat \<Rightarrow> u8 \<Rightarrow> u16 \<Rightarrow> u32 \<Rightarrow> u32 \<Rightarrow> mux_err + nat \<times> bytes" where
  "mux_craft_header dstp cap type flags sid payload_len =
     (case dstp of
        None \<Rightarrow> Inl MUX_ERR_PARAM
      | Some dst \<Rightarrow>
          if payload_len > MUX_MAX_PAYLOAD then Inl MUX_ERR_PROTO
          else if cap < MUX_HEADER_SIZE then Inl MUX_ERR_NOSPACE
          else Inr (MUX_HEADER_SIZE,
                    mem_write dst 0 (craft_header_bytes type flags sid payload_len)))"

definition mux_craft ::
    "bytes option \<Rightarrow> nat \<Rightarrow> u8 \<Rightarrow> u16 \<Rightarrow> u32 \<Rightarrow> bytes option \<Rightarrow> u32 \<Rightarrow> mux_err + nat \<times> bytes" where
  "mux_craft dstp cap type flags sid payload plen =
     (case dstp of
        None \<Rightarrow> Inl MUX_ERR_PARAM
      | Some dst \<Rightarrow>
          if plen > 0 \<and> payload = None then Inl MUX_ERR_PARAM
          else if plen > MUX_MAX_PAYLOAD then Inl MUX_ERR_PROTO
          else
            let total = MUX_HEADER_SIZE + unat plen
            in if cap < total then Inl MUX_ERR_NOSPACE
               else
                 let dst1 = (case mux_craft_header (Some dst) cap type flags sid plen of
                               Inl _ \<Rightarrow> dst | Inr (_, d) \<Rightarrow> d);
                     dst2 = (if plen > 0
                             then mem_write dst1 MUX_HEADER_SIZE (take (unat plen) (the payload))
                             else dst1)
                 in Inr (total, dst2))"

section \<open>TLVs\<close>

definition mux_tlv_put ::
    "bytes option \<Rightarrow> nat \<Rightarrow> nat \<Rightarrow> u16 \<Rightarrow> bytes option \<Rightarrow> u16 \<Rightarrow> mux_err + nat \<times> bytes" where
  "mux_tlv_put bufp cap off t val vlen =
     (case bufp of
        None \<Rightarrow> Inl MUX_ERR_PARAM
      | Some buf \<Rightarrow>
          if vlen > 0 \<and> val = None then Inl MUX_ERR_PARAM
          else if off > cap then Inl MUX_ERR_NOSPACE
          else
            let avail = cap - off
            in if avail < 4 + unat vlen then Inl MUX_ERR_NOSPACE
               else
                 let b1 = mem_write buf off (be_put16 t);
                     b2 = mem_write b1 (off + 2) (be_put16 vlen);
                     b3 = (if vlen > 0
                           then mem_write b2 (off + 4) (take (unat vlen) (the val)) else b2)
                 in Inr (off + 4 + unat vlen, b3))"

text \<open>
  \<open>Inr None\<close> is the return value 0 (clean end), \<open>Inr (Some (t, val, cursor))\<close> the
  return value 1; the value length \<open>*vlen\<close> is the length of \<open>val\<close>.
\<close>

definition mux_tlv_next ::
    "bytes option \<Rightarrow> nat \<Rightarrow> mux_err + (u16 \<times> bytes \<times> nat) option" where
  "mux_tlv_next bufp cursor =
     (case bufp of
        None \<Rightarrow> Inl MUX_ERR_PARAM
      | Some buf \<Rightarrow>
          let len = length buf; c = cursor
          in if c = len then Inr None
             else if c > len \<or> len - c < 4 then Inl MUX_ERR_PROTO
             else
               let ty = be_get16 (drop c buf); vl = be_get16 (drop (c + 2) buf)
               in if len - c - 4 < unat vl then Inl MUX_ERR_PROTO
                  else Inr (Some (ty, take (unat vl) (drop (c + 4) buf), c + 4 + unat vl)))"

section \<open>What the codec promises\<close>

text \<open>
  The wire form of a frame, and the frames that have one: version 1, a payload within the
  cap, the payload view \<open>NULL\<close> exactly when the length is 0.
\<close>

definition payload_bytes :: "mux_frame \<Rightarrow> bytes" where
  "payload_bytes f = (case fr_payload f of None \<Rightarrow> [] | Some p \<Rightarrow> p)"

definition frame_wf :: "mux_frame \<Rightarrow> bool" where
  "frame_wf f \<longleftrightarrow> fr_ver f = MUX_VERSION \<and> fr_len f \<le> MUX_MAX_PAYLOAD \<and>
     length (payload_bytes f) = unat (fr_len f) \<and> (fr_payload f = None \<longleftrightarrow> fr_len f = 0)"

definition frame_wire :: "mux_frame \<Rightarrow> bytes" where
  "frame_wire f = craft_header_bytes (fr_type f) (fr_flags f) (fr_sid f) (fr_len f) @ payload_bytes f"

lemma length_craft_header_bytes [simp]: "length (craft_header_bytes ty fl sid n) = 12"
  by (simp add: craft_header_bytes_def)

lemma craft_header_parts [simp]:
  "(craft_header_bytes ty fl sid n @ r) ! 0 = MUX_VERSION"
  "(craft_header_bytes ty fl sid n @ r) ! Suc 0 = ty"
  "be_get16 (drop 2 (craft_header_bytes ty fl sid n) @ r) = fl"
  "be_get32 (drop 4 (craft_header_bytes ty fl sid n) @ r) = sid"
  "be_get32 (drop 8 (craft_header_bytes ty fl sid n) @ r) = n"
  by (simp_all add: craft_header_bytes_def)

lemma header_split:
  assumes "12 \<le> length (b :: bytes)"
  shows "b = craft_header_bytes (b ! 1) (be_get16 (drop 2 b)) (be_get32 (drop 4 b))
              (be_get32 (drop 8 b)) @ drop 12 b \<longleftrightarrow> b ! 0 = MUX_VERSION"
proof -
  obtain b0 b1 b2 b3 b4 b5 b6 b7 b8 b9 b10 b11 r where
    b: "b = [b0, b1, b2, b3, b4, b5, b6, b7, b8, b9, b10, b11] @ r"
    using assms by (auto simp: Suc_le_length_iff numeral_eq_Suc)
  show ?thesis
    by (simp add: b craft_header_bytes_def be_put16_get16 be_put32_get32)
qed

lemma mux_parse_frame_wire:
  "frame_wf f \<Longrightarrow> mux_parse (Some (frame_wire f @ rest)) = Inr (f, length (frame_wire f))"
  by (cases f)
    (auto simp: mux_parse_def frame_wf_def frame_wire_def payload_bytes_def MUX_HEADER_SIZE_def
      Let_def word_gt_0 split: option.splits)

lemma mux_parse_sound:
  assumes "mux_parse (Some b) = Inr (f, n)"
  shows "frame_wf f \<and> n = length (frame_wire f) \<and> take n b = frame_wire f"
proof -
  let ?plen = "be_get32 (drop 8 b)"
  from assms have len: "12 + unat ?plen \<le> length b" and v: "b ! 0 = MUX_VERSION"
    and cap: "?plen \<le> MUX_MAX_PAYLOAD" and n: "n = 12 + unat ?plen"
    and f: "f = \<lparr>fr_ver = MUX_VERSION, fr_type = b ! 1, fr_flags = be_get16 (drop 2 b),
      fr_sid = be_get32 (drop 4 b), fr_len = ?plen,
      fr_payload = (if ?plen > 0 then Some (take (unat ?plen) (drop 12 b)) else None)\<rparr>"
    by (auto simp: mux_parse_def MUX_HEADER_SIZE_def Let_def not_less split: if_splits)
  have wf: "frame_wf f"
    using len cap by (auto simp: frame_wf_def f payload_bytes_def word_gt_0)
  have pl: "payload_bytes f = take (unat ?plen) (drop 12 b)"
    by (auto simp: f payload_bytes_def word_gt_0)
  have "b = craft_header_bytes (b ! 1) (be_get16 (drop 2 b)) (be_get32 (drop 4 b)) ?plen @ drop 12 b"
    using header_split [of b] len v by simp
  then have hd: "take 12 b =
      craft_header_bytes (b ! 1) (be_get16 (drop 2 b)) (be_get32 (drop 4 b)) ?plen"
    by (metis append_eq_conv_conj length_craft_header_bytes)
  have "take n b = take 12 b @ take (unat ?plen) (drop 12 b)"
    by (simp add: n take_add)
  then have "take n b = frame_wire f"
    unfolding frame_wire_def pl hd by (simp add: f)
  moreover have "n = length (frame_wire f)"
    using len pl by (simp add: frame_wire_def n)
  ultimately show ?thesis using wf by simp
qed

lemma mux_parse_le: "mux_parse (Some b) = Inr (f, n) \<Longrightarrow> n \<le> length b"
  by (auto simp: mux_parse_def Let_def split: if_splits)

interpretation fc: wire_codec frame_wire "\<lambda>b. mux_parse (Some b)" frame_wf
proof (standard, goal_cases)
  case (1 m rest)
  then show ?case by (rule mux_parse_frame_wire)
next
  case (2 b m n)
  then show ?case by (rule mux_parse_sound)
next
  case (3 m)
  then show ?case by (simp add: frame_wire_def craft_header_bytes_def)
qed

section \<open>Crafting\<close>

text \<open>The payload pointer a caller passes: \<open>NULL\<close> for no bytes.\<close>

definition ptr :: "bytes \<Rightarrow> bytes option" where
  "ptr p = (if p = [] then None else Some p)"

definition frame_of :: "u8 \<Rightarrow> u16 \<Rightarrow> u32 \<Rightarrow> bytes \<Rightarrow> mux_frame" where
  "frame_of ty fl sid p = \<lparr>fr_ver = MUX_VERSION, fr_type = ty, fr_flags = fl, fr_sid = sid,
     fr_len = of_nat (length p), fr_payload = ptr p\<rparr>"

lemma payload_bytes_frame_of [simp]: "payload_bytes (frame_of ty fl sid p) = p"
  by (simp add: payload_bytes_def frame_of_def ptr_def)

lemma frame_of_sel [simp]:
  "fr_type (frame_of ty fl sid p) = ty" "fr_flags (frame_of ty fl sid p) = fl"
  "fr_sid (frame_of ty fl sid p) = sid" "fr_len (frame_of ty fl sid p) = of_nat (length p)"
  "fr_payload (frame_of ty fl sid p) = ptr p"
  by (simp_all add: frame_of_def)

lemma unat_len_u32 [simp]: "n < 4294967296 \<Longrightarrow> unat (of_nat n :: u32) = n"
  by (simp add: unat_of_nat)

lemma len_le_max_payload:
  "n < 4294967296 \<Longrightarrow> (of_nat n :: u32) \<le> MUX_MAX_PAYLOAD \<longleftrightarrow> n \<le> 16777216"
  by (simp add: word_le_nat_alt MUX_MAX_PAYLOAD_def)

lemma len_zero_u32:
  assumes "n < 4294967296" shows "(of_nat n :: u32) = 0 \<longleftrightarrow> n = 0"
  using unat_0_iff [of "of_nat n :: u32"] unat_len_u32 [OF assms] by simp

lemma frame_wf_frame_of:
  assumes "length p \<le> 16777216" shows "frame_wf (frame_of ty fl sid p)"
proof -
  have l: "length p < 4294967296" using assms by simp
  show ?thesis
    unfolding frame_wf_def payload_bytes_frame_of frame_of_sel
    using assms l by (simp add: len_le_max_payload len_zero_u32 ptr_def) (simp add: frame_of_def)
qed

lemma mem_write_0_append:
  "mem_write (mem_write dst 0 h) (length h) p = mem_write dst 0 (h @ p)"
  by (simp add: mem_write_def add.commute)

lemma mux_craft_eq:
  assumes "length p < 4294967296"
  shows "mux_craft (Some dst) cap ty fl sid (ptr p) (of_nat (length p)) =
    (if 16777216 < length p then Inl MUX_ERR_PROTO
     else if cap < 12 + length p then Inl MUX_ERR_NOSPACE
     else Inr (12 + length p, mem_write dst 0 (frame_wire (frame_of ty fl sid p))))"
proof (cases "p = []")
  case True
  then show ?thesis
    by (simp add: mux_craft_def mux_craft_header_def frame_wire_def Let_def ptr_def
        MUX_HEADER_SIZE_def)
next
  case False
  with assms have pos: "(of_nat (length p) :: u32) > 0"
    by (simp add: word_gt_0 len_zero_u32)
  have max: "(MUX_MAX_PAYLOAD < of_nat (length p)) = (16777216 < length p)"
    using len_le_max_payload [OF assms] by (simp add: not_le [symmetric])
  show ?thesis
    using False pos max assms mem_write_0_append [of dst "craft_header_bytes ty fl sid (of_nat (length p))" p]
    by (simp add: mux_craft_def mux_craft_header_def frame_wire_def Let_def ptr_def
        MUX_HEADER_SIZE_def)
qed

section \<open>TLV laws\<close>

type_synonym tlv = "u16 \<times> bytes"

definition tlv_wire :: "tlv \<Rightarrow> bytes" where
  "tlv_wire tv = be_put16 (fst tv) @ be_put16 (of_nat (length (snd tv))) @ snd tv"

definition tlv_wf :: "tlv \<Rightarrow> bool" where
  "tlv_wf tv \<longleftrightarrow> length (snd tv) < 65536"

lemma unat_len_u16 [simp]: "n < 65536 \<Longrightarrow> unat (of_nat n :: u16) = n"
  by (simp add: unat_of_nat)

lemma len_zero_u16:
  assumes "n < 65536" shows "(of_nat n :: u16) = 0 \<longleftrightarrow> n = 0"
  using unat_0_iff [of "of_nat n :: u16"] unat_len_u16 [OF assms] by simp

lemma length_tlv_wire [simp]: "length (tlv_wire tv) = 4 + length (snd tv)"
  by (simp add: tlv_wire_def)

lemma mem_write_append:
  "off + length a \<le> length buf \<Longrightarrow>
   mem_write (mem_write buf off a) (off + length a) b = mem_write buf off (a @ b)"
  by (simp add: mem_write_def ac_simps)

lemma mux_tlv_put_eq:
  assumes "length v < 65536" "cap \<le> length buf"
  shows "mux_tlv_put (Some buf) cap off t (ptr v) (of_nat (length v)) =
    (if cap < off + 4 + length v then Inl MUX_ERR_NOSPACE
     else Inr (off + 4 + length v, mem_write buf off (tlv_wire (t, v))))"
proof (cases "off \<le> cap \<and> 4 + length v \<le> cap - off")
  case True
  then have in_range: "off + 4 + length v \<le> length buf" using assms by linarith
  let ?h = "be_put16 t @ be_put16 (of_nat (length v))"
  have "mem_write (mem_write buf off (be_put16 t)) (off + 2) (be_put16 (of_nat (length v)))
      = mem_write buf off ?h"
    using mem_write_append [of off "be_put16 t" buf] in_range by simp
  moreover have "mem_write (mem_write buf off ?h) (off + 4) v = mem_write buf off (tlv_wire (t, v))"
    using mem_write_append [of off ?h buf v] in_range by (simp add: tlv_wire_def)
  ultimately show ?thesis
    using True assms
    by (auto simp: mux_tlv_put_def Let_def ptr_def word_gt_0 len_zero_u16 tlv_wire_def)
next
  case False
  then show ?thesis
    using assms by (auto simp: mux_tlv_put_def Let_def ptr_def word_gt_0 len_zero_u16)
qed

text \<open>One step of the iterator, read as a decoder of the bytes at the cursor.\<close>

definition tlv_dec :: "bytes \<Rightarrow> mux_err option + tlv \<times> nat" where
  "tlv_dec b = (case mux_tlv_next (Some b) 0 of
       Inl e \<Rightarrow> Inl (Some e)
     | Inr None \<Rightarrow> Inl None
     | Inr (Some (t, v, c)) \<Rightarrow> Inr ((t, v), c))"

lemma mux_tlv_next_dec:
  assumes "cursor \<le> length b"
  shows "mux_tlv_next (Some b) cursor =
    (case tlv_dec (drop cursor b) of
       Inl None \<Rightarrow> Inr None
     | Inl (Some e) \<Rightarrow> Inl e
     | Inr ((t, v), n) \<Rightarrow> Inr (Some (t, v, cursor + n)))"
  using assms by (auto simp: tlv_dec_def mux_tlv_next_def Let_def add.commute add.left_commute)

lemma tlv_dec_wire:
  assumes "tlv_wf tv" shows "tlv_dec (tlv_wire tv @ rest) = Inr (tv, length (tlv_wire tv))"
  using assms
  by (cases tv) (auto simp: tlv_dec_def mux_tlv_next_def Let_def tlv_wire_def tlv_wf_def)

lemma tlv_dec_sound:
  assumes "tlv_dec b = Inr (tv, n)"
  shows "tlv_wf tv \<and> n = length (tlv_wire tv) \<and> take n b = tlv_wire tv"
proof -
  have "4 \<le> length b" using assms
    by (auto simp: tlv_dec_def mux_tlv_next_def Let_def split: if_splits)
  then obtain b0 b1 b2 b3 r where b: "b = [b0, b1, b2, b3] @ r"
    by (auto simp: Suc_le_length_iff numeral_eq_Suc)
  let ?vl = "be_get16 (b2 # b3 # r)"
  from assms have le: "unat ?vl \<le> length r"
    and tv: "tv = (be_get16 b, take (unat ?vl) r)" and n: "n = 4 + unat ?vl"
    by (auto simp: b tlv_dec_def mux_tlv_next_def Let_def split: if_splits)
  have "unat ?vl < 65536" using unsigned_less [of ?vl] by simp
  moreover have "be_put16 (be_get16 b) = [b0, b1]" by (simp add: b be_put16_get16)
  moreover have "be_put16 ?vl = [b2, b3]" by (rule be_put16_get16)
  moreover have "take n b = [b0, b1, b2, b3] @ take (unat ?vl) r"
    unfolding b n by (subst take_append) simp
  ultimately show ?thesis
    using le by (simp add: tv n tlv_wf_def tlv_wire_def min_absorb2)
qed

interpretation tc: wire_codec tlv_wire tlv_dec tlv_wf
proof (standard, goal_cases)
  case (1 m rest)
  then show ?case by (rule tlv_dec_wire)
next
  case (2 b m n)
  then show ?case by (rule tlv_dec_sound)
next
  case (3 m)
  then show ?case by (simp add: tlv_wire_def be_put16_def)
qed

text \<open>
  A chain of \<open>mux_tlv_put\<close> calls, each starting at the offset the one before returned
  (the \<^verbatim>\<open>TLV_U32\<close> and \<^verbatim>\<open>TLV_BLOB\<close> macros of \<open>send_hello\<close>), and the \<^verbatim>\<open>for (;;)\<close>
  loop of \<open>on_hello\<close> that iterates with \<open>mux_tlv_next\<close>: the body's state is updated TLV
  by TLV, and the flag says whether the loop reached the clean end.
\<close>

fun tlv_puts :: "bytes \<Rightarrow> nat \<Rightarrow> nat \<Rightarrow> tlv list \<Rightarrow> mux_err + nat \<times> bytes" where
  "tlv_puts buf cap off [] = Inr (off, buf)"
| "tlv_puts buf cap off ((t, v) # tvs) =
     (case mux_tlv_put (Some buf) cap off t (ptr v) (of_nat (length v)) of
        Inl e \<Rightarrow> Inl e
      | Inr (off', buf') \<Rightarrow> tlv_puts buf' cap off' tvs)"

lemma mux_tlv_next_progress:
  assumes "mux_tlv_next (Some b) cursor = Inr (Some (t, v, c))"
  shows "c = cursor + 4 + length v \<and> c \<le> length b \<and> v = take (length v) (drop (cursor + 4) b)"
  using assms by (auto simp: mux_tlv_next_def Let_def min_def split: if_splits)

function tlv_fold ::
    "('s \<Rightarrow> u16 \<Rightarrow> bytes \<Rightarrow> 's) \<Rightarrow> bytes option \<Rightarrow> nat \<Rightarrow> 's \<Rightarrow> bool \<times> 's" where
  "tlv_fold body bufp cursor acc =
     (case mux_tlv_next bufp cursor of
        Inl _ \<Rightarrow> (False, acc)
      | Inr None \<Rightarrow> (True, acc)
      | Inr (Some (t, v, cursor')) \<Rightarrow> tlv_fold body bufp cursor' (body acc t v))"
  by pat_completeness auto
termination
proof (relation "measure (\<lambda>(body, bufp, cursor, acc). length (the bufp) - cursor)", goal_cases)
  case 1
  show ?case by simp
next
  case (2 body bufp cursor acc a t3 t tc v c)
  then obtain b where "bufp = Some b" by (cases bufp) (auto simp: mux_tlv_next_def)
  with 2 mux_tlv_next_progress [of b cursor t v c] show ?case by auto
qed

declare tlv_fold.simps [simp del]

lemma tlv_fold_inv:
  assumes "\<And>acc t v. P acc \<Longrightarrow> P (body acc t v)" "P acc"
  shows "P (snd (tlv_fold body bufp cursor acc))"
  using assms
proof (induction body bufp cursor acc rule: tlv_fold.induct)
  case (1 body bufp cursor acc)
  show ?case
  proof (cases "\<exists>t v c. mux_tlv_next bufp cursor = Inr (Some (t, v, c))")
    case True
    then obtain t v c where n: "mux_tlv_next bufp cursor = Inr (Some (t, v, c))" by blast
    have "P (snd (tlv_fold body bufp c (body acc t v)))"
      using "1.IH" [OF n] "1.prems" by force
    then show ?thesis by (subst tlv_fold.simps) (simp add: n)
  next
    case False
    then show ?thesis
      using "1.prems" by (subst tlv_fold.simps) (auto split: sum.splits option.splits)
  qed
qed

lemma tlv_fold_wire:
  assumes "\<forall>tv \<in> set tvs. tlv_wf tv"
  shows "tlv_fold body (Some (pre @ concat (map tlv_wire tvs))) (length pre) acc =
    (True, foldl (\<lambda>s (t, v). body s t v) acc tvs)"
  using assms
proof (induction tvs arbitrary: pre acc)
  case Nil
  then show ?case by (simp add: tlv_fold.simps mux_tlv_next_def)
next
  case (Cons tv tvs)
  obtain t v where tv: "tv = (t, v)" by fastforce
  have "mux_tlv_next (Some (pre @ concat (map tlv_wire (tv # tvs)))) (length pre) =
      Inr (Some (t, v, length pre + length (tlv_wire tv)))"
    using Cons.prems by (simp add: mux_tlv_next_dec tc.dec_enc tv)
  moreover have "tlv_fold body (Some ((pre @ tlv_wire tv) @ concat (map tlv_wire tvs)))
      (length (pre @ tlv_wire tv)) (body acc t v) =
      (True, foldl (\<lambda>s (t, v). body s t v) (body acc t v) tvs)"
    using Cons.prems by (intro Cons.IH) simp
  ultimately show ?case by (subst tlv_fold.simps) (simp add: tv)
qed

lemma tlv_puts_eq:
  assumes "\<forall>tv \<in> set tvs. tlv_wf tv" "cap \<le> length buf" "off \<le> cap"
  shows "tlv_puts buf cap off tvs =
    (if cap < off + length (concat (map tlv_wire tvs)) then Inl MUX_ERR_NOSPACE
     else Inr (off + length (concat (map tlv_wire tvs)),
               mem_write buf off (concat (map tlv_wire tvs))))"
  using assms
proof (induction tvs arbitrary: buf off)
  case Nil
  then show ?case by simp
next
  case (Cons tv tvs)
  obtain t v where tv: "tv = (t, v)" by fastforce
  have v: "length v < 65536" using Cons.prems(1) by (simp add: tv tlv_wf_def)
  show ?case
  proof (cases "cap < off + 4 + length v")
    case True
    then show ?thesis using v Cons.prems(2) by (simp add: tv mux_tlv_put_eq)
  next
    case False
    let ?b = "mem_write buf off (tlv_wire (t, v))"
    have fits: "off + length (tlv_wire (t, v)) \<le> length buf" using False Cons.prems(2) by simp
    have "tlv_puts ?b cap (off + 4 + length v) tvs =
      (if cap < off + 4 + length v + length (concat (map tlv_wire tvs)) then Inl MUX_ERR_NOSPACE
       else Inr (off + 4 + length v + length (concat (map tlv_wire tvs)),
                 mem_write ?b (off + 4 + length v) (concat (map tlv_wire tvs))))"
      using Cons.prems False fits by (intro Cons.IH) simp_all
    moreover have "mem_write ?b (off + 4 + length v) (concat (map tlv_wire tvs)) =
        mem_write buf off (concat (map tlv_wire (tv # tvs)))"
      using mem_write_append [OF fits, of "concat (map tlv_wire tvs)"] by (simp add: tv add.assoc)
    ultimately show ?thesis
      using v False Cons.prems(2) by (simp add: tv mux_tlv_put_eq add.assoc)
  qed
qed

section \<open>Properties of the codec\<close>

lemma take_frame_wire_drop:
  assumes "mux_craft (Some dst) cap ty fl sid (ptr p) (of_nat (length p)) = Inr (n, dst')"
    and "length p < 4294967296" "cap \<le> length dst"
  shows "n = 12 + length p \<and> length p \<le> 16777216 \<and> n \<le> cap \<and>
    dst' = frame_wire (frame_of ty fl sid p) @ drop n dst"
  using assms
  by (auto simp: mux_craft_eq mem_write_def frame_wire_def split: if_splits)

text \<open>
  C18. Round trip: whenever \<open>mux_craft\<close> is given room for the frame, it succeeds, stores
  exactly the header and the payload, leaves every byte after them alone, and
  \<open>mux_parse\<close> on the region reads back the very frame and its length.
\<close>

theorem mux_craft_parse_roundtrip:
  assumes "length p \<le> 16777216" and "12 + length p \<le> cap" and "cap \<le> length dst"
  shows "\<exists>dst'. mux_craft (Some dst) cap ty fl sid (ptr p) (of_nat (length p)) =
      Inr (12 + length p, dst')
    \<and> mux_parse (Some dst') = Inr (frame_of ty fl sid p, 12 + length p)
    \<and> length dst' = length dst \<and> drop (12 + length p) dst' = drop (12 + length p) dst"
proof -
  let ?f = "frame_of ty fl sid p" and ?n = "12 + length p"
  let ?d = "mem_write dst 0 (frame_wire ?f)"
  have len: "length (frame_wire ?f) = ?n" by (simp add: frame_wire_def)
  have craft: "mux_craft (Some dst) cap ty fl sid (ptr p) (of_nat (length p)) = Inr (?n, ?d)"
    using assms by (simp add: mux_craft_eq)
  have d: "?d = frame_wire ?f @ drop ?n dst" by (simp add: mem_write_def len)
  have "mux_parse (Some ?d) = Inr (?f, ?n)"
    unfolding d using mux_parse_frame_wire [OF frame_wf_frame_of [OF assms(1)]] len by simp
  moreover have "length ?d = length dst" "drop ?n ?d = drop ?n dst"
    using assms len by (simp_all add: d)
  ultimately show ?thesis using craft by blast
qed

theorem mux_craft_parse_roundtrip_witness:
  "mux_parse (Some (frame_wire (frame_of MUX_T_PING 0 0 [1, 2, 3, 4, 5, 6, 7, 8]))) =
     Inr (frame_of MUX_T_PING 0 0 [1, 2, 3, 4, 5, 6, 7, 8], 20)"
proof -
  let ?p = "[1, 2, 3, 4, 5, 6, 7, 8] :: bytes"
  obtain dst' where
    "mux_craft (Some (replicate 20 0)) 20 MUX_T_PING 0 0 (ptr ?p) (of_nat (length ?p)) = Inr (20, dst')"
    and parse: "mux_parse (Some dst') = Inr (frame_of MUX_T_PING 0 0 ?p, 20)"
    using mux_craft_parse_roundtrip [of ?p 20 "replicate 20 0" MUX_T_PING 0 0] by auto
  then have "dst' = frame_wire (frame_of MUX_T_PING 0 0 ?p)"
    using take_frame_wire_drop [of "replicate 20 0" 20 MUX_T_PING 0 0 ?p 20 dst'] by simp
  with parse show ?thesis by simp
qed

text \<open>
  C1. The encoding is canonical: what \<open>mux_parse\<close> accepts is exactly what \<open>mux_craft\<close>
  writes for the frame it returns, so no two byte strings decode to the same frame, and the
  payload cap and the version hold of everything accepted.
\<close>

theorem mux_parse_canonical:
  assumes "mux_parse (Some b) = Inr (f, n)"
  shows "n \<le> length b \<and> fr_ver f = MUX_VERSION \<and> unat (fr_len f) \<le> 16777216 \<and>
    mux_craft (Some (replicate n 0)) n (fr_type f) (fr_flags f) (fr_sid f) (fr_payload f) (fr_len f)
      = Inr (n, take n b)"
proof -
  from mux_parse_sound [OF assms] have wf: "frame_wf f" and n: "n = length (frame_wire f)"
    and tk: "take n b = frame_wire f" by auto
  let ?p = "payload_bytes f"
  have max: "unat (fr_len f) \<le> 16777216"
    using wf by (simp add: frame_wf_def word_le_nat_alt MUX_MAX_PAYLOAD_def)
  have pl: "fr_payload f = ptr ?p" "fr_len f = of_nat (length ?p)"
    using wf by (auto simp: frame_wf_def payload_bytes_def ptr_def unat_0_iff split: option.splits)
  have fo: "f = frame_of (fr_type f) (fr_flags f) (fr_sid f) ?p"
    using wf pl by (simp add: frame_of_def frame_wf_def)
  have n12: "n = 12 + length ?p" by (simp add: n frame_wire_def)
  have "mux_craft (Some (replicate n 0)) n (fr_type f) (fr_flags f) (fr_sid f) (ptr ?p)
      (of_nat (length ?p)) = Inr (n, mem_write (replicate n 0) 0 (frame_wire f))"
    using wf max by (subst mux_craft_eq) (auto simp: frame_wf_def n12 simp flip: fo)
  moreover have "mem_write (replicate n 0) 0 (frame_wire f) = take n b"
    by (simp add: mem_write_def tk n [symmetric])
  moreover have "n \<le> length b" using assms by (rule mux_parse_le)
  ultimately show ?thesis using pl wf max by (simp add: frame_wf_def)
qed

theorem mux_parse_canonical_witness:
  "mux_craft (Some (replicate 16 0)) 16 MUX_T_CAPACITY 0 0 (Some [0, 0, 0, 7]) 4 =
     Inr (16, [1, 0x12, 0, 0, 0, 0, 0, 0, 0, 0, 0, 4, 0, 0, 0, 7])"
proof -
  let ?b = "[1, 0x12, 0, 0, 0, 0, 0, 0, 0, 0, 0, 4, 0, 0, 0, 7, 99] :: bytes"
  let ?f = "\<lparr>fr_ver = 1, fr_type = 0x12, fr_flags = 0, fr_sid = 0, fr_len = 4,
    fr_payload = Some [0, 0, 0, 7]\<rparr>"
  have "mux_parse (Some ?b) = Inr (?f, 16)"
    by (simp add: mux_parse_def MUX_HEADER_SIZE_def MUX_VERSION_def MUX_MAX_PAYLOAD_def
        be_get16_def be_get32_def Let_def)
  from mux_parse_canonical [OF this] show ?thesis by (simp add: MUX_T_CAPACITY_def)
qed

lemma mux_parse_header_append:
  assumes "12 \<le> length a"
  shows "(a @ b) ! 0 = a ! 0" "(a @ b) ! 1 = a ! 1"
    "be_get32 (drop 8 (a @ b)) = be_get32 (drop 8 a)"
  using assms by (auto simp: nth_append be_get32_def)

lemma mux_parse_proto_append:
  assumes "mux_parse (Some a) = Inl MUX_ERR_PROTO"
  shows "mux_parse (Some (a @ b)) = Inl MUX_ERR_PROTO"
proof -
  from assms have "12 \<le> length a"
    and "a ! 0 \<noteq> MUX_VERSION \<or> be_get32 (drop 8 a) > MUX_MAX_PAYLOAD"
    by (auto simp: mux_parse_def MUX_HEADER_SIZE_def Let_def split: if_splits)
  then show ?thesis
    using mux_parse_header_append [of a b]
    by (simp add: mux_parse_def MUX_HEADER_SIZE_def Let_def)
qed

lemma mux_parse_err:
  "mux_parse (Some a) = Inl e \<Longrightarrow> e = MUX_ERR_SHORT \<or> e = MUX_ERR_PROTO"
  by (auto simp: mux_parse_def Let_def split: if_splits)

text \<open>
  C20. Incremental feeding: a verdict other than "short" is final, whatever bytes arrive
  later, and while a frame of \<open>n\<close> bytes is only partly there the parser answers
  \<open>MUX_ERR_SHORT\<close> and never a protocol error or a wrong frame.
\<close>

theorem mux_parse_incremental:
  "(mux_parse (Some a) \<noteq> Inl MUX_ERR_SHORT \<longrightarrow> mux_parse (Some (a @ b)) = mux_parse (Some a)) \<and>
   (\<forall>f n. mux_parse (Some (a @ b)) = Inr (f, n) \<longrightarrow>
      mux_parse (Some a) = (if length a < n then Inl MUX_ERR_SHORT else Inr (f, n)))"
proof (intro conjI impI allI)
  assume "mux_parse (Some a) \<noteq> Inl MUX_ERR_SHORT"
  then show "mux_parse (Some (a @ b)) = mux_parse (Some a)"
    using mux_parse_err [of a] mux_parse_proto_append [of a b] fc.dec_extend [of a]
    by (cases "mux_parse (Some a)") auto
next
  fix f n assume ab: "mux_parse (Some (a @ b)) = Inr (f, n)"
  show "mux_parse (Some a) = (if length a < n then Inl MUX_ERR_SHORT else Inr (f, n))"
  proof (cases "mux_parse (Some a)")
    case (Inl e)
    with ab mux_parse_err [OF Inl] mux_parse_proto_append [of a b]
    have e: "e = MUX_ERR_SHORT" by auto
    have "length a < n"
    proof (rule ccontr)
      assume "\<not> length a < n"
      then have "a = frame_wire f @ drop n a"
        using mux_parse_sound [OF ab] by (metis append_take_drop_id leI le_add_diff_inverse
          length_append take_append take_eq_Nil append_Nil2 diff_is_0_eq)
      with Inl mux_parse_frame_wire [of f "drop n a"] mux_parse_sound [OF ab] show False by simp
    qed
    with Inl e show ?thesis by simp
  next
    case (Inr fn)
    then obtain f' n' where a: "mux_parse (Some a) = Inr (f', n')" by (cases fn) auto
    with ab fc.dec_extend [OF a, of b] have "f' = f" "n' = n" by auto
    moreover have "n \<le> length a" using mux_parse_le [OF a] calculation by simp
    ultimately show ?thesis using a by simp
  qed
qed

theorem mux_parse_incremental_witness:
  "mux_parse (Some [1, 2, 0, 0, 0]) = Inl MUX_ERR_SHORT"
proof -
  let ?a = "[1, 2, 0, 0, 0] :: bytes" and ?b = "[0, 0, 0, 0, 0, 0, 0, 77] :: bytes"
  let ?f = "\<lparr>fr_ver = 1, fr_type = 2, fr_flags = 0, fr_sid = 0, fr_len = 0, fr_payload = None\<rparr>"
  have "mux_parse (Some (?a @ ?b)) = Inr (?f, 12)"
    by (simp add: mux_parse_def MUX_HEADER_SIZE_def MUX_VERSION_def MUX_MAX_PAYLOAD_def
        be_get16_def be_get32_def Let_def)
  with mux_parse_incremental [of ?a ?b] show ?thesis by simp
qed

text \<open>
  Every branch of \<open>mux_craft\<close>: a \<open>NULL\<close> destination, or a missing payload with a
  positive length, is \<open>MUX_ERR_PARAM\<close>; a payload over 16 MiB is \<open>MUX_ERR_PROTO\<close>, before
  the capacity is looked at; too little room is \<open>MUX_ERR_NOSPACE\<close>; otherwise the frame is
  stored at the front of the region.
\<close>

theorem mux_craft_branches:
  assumes "length p < 4294967296"
  shows "mux_craft None cap ty fl sid q n = Inl MUX_ERR_PARAM
    \<and> (n > 0 \<longrightarrow> mux_craft (Some dst) cap ty fl sid None n = Inl MUX_ERR_PARAM)
    \<and> mux_craft (Some dst) cap ty fl sid (ptr p) (of_nat (length p)) =
       (if 16777216 < length p then Inl MUX_ERR_PROTO
        else if cap < 12 + length p then Inl MUX_ERR_NOSPACE
        else Inr (12 + length p,
                  craft_header_bytes ty fl sid (of_nat (length p)) @ p @ drop (12 + length p) dst))"
  using mux_craft_eq [OF assms, of dst cap ty fl sid]
  by (simp add: mem_write_def frame_wire_def) (simp add: mux_craft_def)

theorem mux_craft_branches_witness:
  "mux_craft (Some (replicate 15 0)) 15 MUX_T_DATA 0 3 (Some [9, 9, 9, 9]) 4 = Inl MUX_ERR_NOSPACE"
  using mux_craft_branches [of "[9, 9, 9, 9]" 15 MUX_T_DATA 0 3 None 0 "replicate 15 0"]
  by (simp add: ptr_def)

text \<open>
  Draining: if a buffer holds well-formed frames back to back and then a tail that is no
  frame yet, the parse loop gives exactly those frames and that tail; and cutting the stream
  at any point, draining the first part and carrying its tail over, gives the same frames.
\<close>

theorem frame_drain_chunking:
  assumes "\<forall>f \<in> set fs. frame_wf f" and "mux_parse (Some tail) = Inl e"
    and "a @ b = concat (map frame_wire fs) @ tail"
  shows "parse_all (\<lambda>x. mux_parse (Some x)) (a @ b) = (fs, tail) \<and>
    (case parse_all (\<lambda>x. mux_parse (Some x)) a of (fs1, r) \<Rightarrow>
       (case parse_all (\<lambda>x. mux_parse (Some x)) (r @ b) of (fs2, r') \<Rightarrow>
          fs1 @ fs2 = fs \<and> r' = tail))"
proof -
  have all: "parse_all (\<lambda>x. mux_parse (Some x)) (a @ b) = (fs, tail)"
    using fc.parse_all_concat [OF assms(1), of tail] fc.parse_all_stop [OF assms(2)] assms(3) by simp
  obtain fs1 r where one: "parse_all (\<lambda>x. mux_parse (Some x)) a = (fs1, r)" by fastforce
  show ?thesis
    using all one fc.parse_all_chunks [OF one, of b] by (auto split: prod.splits)
qed

theorem frame_drain_chunking_witness:
  "parse_all (\<lambda>x. mux_parse (Some x))
     (frame_wire (frame_of 2 0 0 [1, 2]) @ frame_wire (frame_of 0 1 5 []) @ [1, 0, 0])
   = ([frame_of 2 0 0 [1, 2], frame_of 0 1 5 []], [1, 0, 0])"
proof -
  let ?fs = "[frame_of 2 0 0 [1, 2], frame_of 0 1 5 []]"
  have "\<forall>f \<in> set ?fs. frame_wf f" by (simp add: frame_wf_frame_of)
  moreover have "mux_parse (Some [1, 0, 0]) = Inl MUX_ERR_SHORT"
    by (simp add: mux_parse_def MUX_HEADER_SIZE_def)
  ultimately show ?thesis
    using frame_drain_chunking [of ?fs "[1, 0, 0]" MUX_ERR_SHORT "concat (map frame_wire ?fs)" "[1, 0, 0]"]
    by simp
qed



end
