(* ===== verification/Mux_Outbuf.thy ===== *)
theory Mux_Outbuf
  imports Mux_Fifo Mux_Frame
begin

text \<open>
  The output buffer of a session (\<open>outbuf\<close>, \<open>ob_reserve\<close> and the store of \<open>emit\<close> in
  \<^verbatim>\<open>src/libmux/src/session.c\<close>, and the arithmetic of \<open>mux_send_buf\<close>, \<open>mux_out_pending\<close>
  and \<open>mux_send_advance\<close>). The allocation is the list \<open>ob_buf\<close>, whose length is the C
  field \<open>cap\<close>; bytes of it that were never written are 0 in the model and indeterminate in
  C, and no operation reads them: what is observable is \<open>ob_pending\<close>.
\<close>

record outbuf =
  ob_buf :: bytes
  ob_len :: nat
  ob_spos :: nat

abbreviation ob_cap :: "outbuf \<Rightarrow> nat" where
  "ob_cap ob \<equiv> length (ob_buf ob)"

definition outbuf_zero :: outbuf where
  "outbuf_zero = \<lparr>ob_buf = [], ob_len = 0, ob_spos = 0\<rparr>"

text \<open>\<open>ob_reserve\<close>: compaction of the sent prefix, then growth by doubling.\<close>

definition ob_compact :: "outbuf \<Rightarrow> outbuf" where
  "ob_compact ob =
     ob\<lparr>ob_buf := mem_write (ob_buf ob) 0 (take (ob_len ob - ob_spos ob) (drop (ob_spos ob) (ob_buf ob))),
        ob_len := ob_len ob - ob_spos ob, ob_spos := 0\<rparr>"

definition ob_grow :: "outbuf \<Rightarrow> nat \<Rightarrow> nat \<Rightarrow> heap \<Rightarrow> mux_err option \<times> outbuf \<times> heap" where
  "ob_grow ob need limit h =
     (if limit \<noteq> 0 \<and> ob_len ob + need > limit then (Some MUX_ERR_NOSPACE, ob, h)
      else
        let ncap = grow_cap (if ob_cap ob \<noteq> 0 then ob_cap ob else 4096) (ob_len ob + need);
            (ok, h') = alloc h
        in if \<not> ok then (Some MUX_ERR_NOMEM, ob, h')
           else (None, ob\<lparr>ob_buf := ob_buf ob @ replicate (ncap - ob_cap ob) 0\<rparr>, h'))"

definition ob_reserve :: "outbuf \<Rightarrow> nat \<Rightarrow> nat \<Rightarrow> heap \<Rightarrow> mux_err option \<times> outbuf \<times> heap" where
  "ob_reserve ob need limit h =
     (if ob_len ob + need \<le> ob_cap ob then (None, ob, h)
      else if ob_spos ob > 0 then
        let ob1 = ob_compact ob
        in if ob_len ob1 + need \<le> ob_cap ob1 then (None, ob1, h) else ob_grow ob1 need limit h
      else ob_grow ob need limit h)"

text \<open>The bytes not yet handed to the transport, and how far the transport advanced.\<close>

definition ob_pending :: "outbuf \<Rightarrow> bytes" where
  "ob_pending ob = take (ob_len ob - ob_spos ob) (drop (ob_spos ob) (ob_buf ob))"

definition ob_advance :: "outbuf \<Rightarrow> nat \<Rightarrow> outbuf" where
  "ob_advance ob n =
     (let avail = ob_len ob - ob_spos ob;
          n = (if n > avail then avail else n);
          spos = ob_spos ob + n
      in if spos = ob_len ob then ob\<lparr>ob_spos := 0, ob_len := 0\<rparr> else ob\<lparr>ob_spos := spos\<rparr>)"

text \<open>What \<open>emit\<close> does to the buffer after a successful reservation.\<close>

definition ob_put :: "outbuf \<Rightarrow> bytes \<Rightarrow> outbuf" where
  "ob_put ob bs = ob\<lparr>ob_buf := mem_write (ob_buf ob) (ob_len ob) bs, ob_len := ob_len ob + length bs\<rparr>"

definition ob_push :: "nat \<Rightarrow> outbuf \<Rightarrow> bytes \<Rightarrow> heap \<Rightarrow> bool \<times> outbuf \<times> heap" where
  "ob_push limit ob bs h =
     (case ob_reserve ob (length bs) limit h of
        (None, ob', h') \<Rightarrow> (True, ob_put ob' bs, h')
      | (Some _, ob', h') \<Rightarrow> (False, ob', h'))"

section \<open>Invariant and laws\<close>

definition ob_inv :: "outbuf \<Rightarrow> bool" where
  "ob_inv ob \<longleftrightarrow> ob_spos ob \<le> ob_len ob \<and> ob_len ob \<le> ob_cap ob \<and>
     (ob_cap ob = 0 \<or> (\<exists>k \<ge> 12. ob_cap ob = 2 ^ k))"

lemma length_ob_pending: "ob_inv ob \<Longrightarrow> length (ob_pending ob) = ob_len ob - ob_spos ob"
  by (auto simp: ob_inv_def ob_pending_def)

lemma ob_inv_zero [simp]: "ob_inv outbuf_zero" "ob_pending outbuf_zero = []"
  by (simp_all add: ob_inv_def ob_pending_def outbuf_zero_def)

lemma ob_compact_spec:
  assumes "ob_inv ob"
  shows "ob_inv (ob_compact ob) \<and> ob_pending (ob_compact ob) = ob_pending ob \<and>
    ob_cap (ob_compact ob) = ob_cap ob"
  using assms by (auto simp: ob_compact_def ob_inv_def ob_pending_def mem_write_def min_def)

lemma ob_grow_spec:
  assumes inv: "ob_inv ob" and res: "ob_grow ob need limit h = (r, ob', h')"
  shows "ob_inv ob' \<and> ob_pending ob' = ob_pending ob \<and> (r = None \<longrightarrow> ob_len ob' + need \<le> ob_cap ob')"
proof -
  let ?c = "if ob_cap ob \<noteq> 0 then ob_cap ob else 4096" and ?w = "ob_len ob + need"
  have ge: "?w \<le> grow_cap ?c ?w" "ob_cap ob \<le> grow_cap ?c ?w"
    using grow_cap_ge [of ?c ?w] grow_cap_mono [of ?c ?w] by (auto split: if_splits)
  define ob2 where "ob2 = ob\<lparr>ob_buf := ob_buf ob @ replicate (grow_cap ?c ?w - ob_cap ob) 0\<rparr>"
  have cap2: "ob_cap ob2 = grow_cap ?c ?w" using ge by (simp add: ob2_def)
  have pow: "\<exists>k \<ge> 12. grow_cap ?c ?w = 2 ^ k"
    using inv unfolding ob_inv_def by (intro grow_cap_pow2_ge) auto
  have two: "ob_inv ob2"
  proof -
    have "ob_spos ob2 = ob_spos ob" "ob_len ob2 = ob_len ob" by (simp_all add: ob2_def)
    moreover have "ob_len ob \<le> ob_cap ob2" using ge(2) inv unfolding cap2 ob_inv_def by linarith
    ultimately show ?thesis using inv pow unfolding ob_inv_def cap2 by simp
  qed
  moreover have "ob_pending ob2 = ob_pending ob"
    using inv by (auto simp: ob2_def ob_inv_def ob_pending_def)
  moreover have "ob_len ob2 + need \<le> ob_cap ob2" using ge(1) cap2 by (simp add: ob2_def)
  moreover have "r = None \<and> ob' = ob2 \<or> r \<noteq> None \<and> ob' = ob"
    using res unfolding ob_grow_def Let_def ob2_def by (auto split: if_splits prod.splits)
  ultimately show ?thesis using inv by auto
qed

lemma ob_reserve_spec:
  assumes inv: "ob_inv ob" and res: "ob_reserve ob need limit h = (r, ob', h')"
  shows "ob_inv ob' \<and> ob_pending ob' = ob_pending ob \<and> (r = None \<longrightarrow> ob_len ob' + need \<le> ob_cap ob')"
proof -
  note c = ob_compact_spec [OF inv]
  consider "ob_len ob + need \<le> ob_cap ob"
    | "\<not> ob_len ob + need \<le> ob_cap ob" "0 < ob_spos ob" "ob_len (ob_compact ob) + need \<le> ob_cap (ob_compact ob)"
    | "\<not> ob_len ob + need \<le> ob_cap ob" "0 < ob_spos ob" "\<not> ob_len (ob_compact ob) + need \<le> ob_cap (ob_compact ob)"
    | "\<not> ob_len ob + need \<le> ob_cap ob" "\<not> 0 < ob_spos ob"
    by blast
  then show ?thesis
  proof cases
    case 1
    then show ?thesis using inv res by (auto simp: ob_reserve_def)
  next
    case 2
    then show ?thesis using c res by (auto simp: ob_reserve_def Let_def)
  next
    case 3
    then have "ob_grow (ob_compact ob) need limit h = (r, ob', h')"
      using res by (simp add: ob_reserve_def Let_def)
    then show ?thesis using c ob_grow_spec [of "ob_compact ob"] by auto
  next
    case 4
    then have "ob_grow ob need limit h = (r, ob', h')" using res by (simp add: ob_reserve_def)
    then show ?thesis by (rule ob_grow_spec [OF inv])
  qed
qed

lemma ob_put_spec:
  assumes "ob_inv ob" "ob_len ob + length bs \<le> ob_cap ob"
  shows "ob_inv (ob_put ob bs) \<and> ob_pending (ob_put ob bs) = ob_pending ob @ bs"
proof -
  have "take (ob_len ob + length bs) (mem_write (ob_buf ob) (ob_len ob) bs) = take (ob_len ob) (ob_buf ob) @ bs"
    using assms by (intro take_mem_write_through) simp
  then have "drop (ob_spos ob) (take (ob_len ob + length bs) (mem_write (ob_buf ob) (ob_len ob) bs)) =
      drop (ob_spos ob) (take (ob_len ob) (ob_buf ob)) @ bs"
    using assms by (simp add: ob_inv_def)
  then show ?thesis
    using assms by (simp add: ob_inv_def ob_put_def ob_pending_def drop_take)
qed

lemma ob_advance_spec:
  assumes "ob_inv ob"
  shows "ob_inv (ob_advance ob n) \<and> ob_pending (ob_advance ob n) = drop n (ob_pending ob)"
  using assms
  by (auto simp: ob_advance_def Let_def ob_inv_def ob_pending_def drop_take add.commute)

lemma ob_push_spec:
  assumes inv: "ob_inv ob" and res: "ob_push limit ob bs h = (ok, ob', h')"
  shows "ob_inv ob' \<and> ob_pending ob' = (if ok then ob_pending ob @ bs else ob_pending ob)"
proof -
  obtain r ob1 h1 where r: "ob_reserve ob (length bs) limit h = (r, ob1, h1)"
    by (cases "ob_reserve ob (length bs) limit h") auto
  note s = ob_reserve_spec [OF inv r]
  show ?thesis
  proof (cases r)
    case None
    then show ?thesis using s res r ob_put_spec [of ob1 bs] by (auto simp: ob_push_def)
  next
    case (Some e)
    then show ?thesis using s res r by (auto simp: ob_push_def)
  qed
qed

interpretation ob: fifo ob_inv ob_pending "\<lambda>bs. bs" "ob_push limit" ob_advance for limit
  by unfold_locales (blast dest: ob_push_spec ob_advance_spec)+

section \<open>Conservation and size\<close>

text \<open>
  The capacity is 0, the initial 4096, or less than twice the configured ceiling.
\<close>

definition ob_bounded :: "nat \<Rightarrow> outbuf \<Rightarrow> bool" where
  "ob_bounded limit ob \<longleftrightarrow> ob_cap ob \<le> 4096 \<or> ob_cap ob < 2 * limit"

lemma ob_advance_cap [simp]: "ob_cap (ob_advance ob n) = ob_cap ob"
  by (simp add: ob_advance_def Let_def)

lemma ob_grow_bounded:
  assumes "ob_grow ob need limit h = (r, ob', h')" "limit \<noteq> 0" "ob_bounded limit ob"
  shows "ob_bounded limit ob'"
proof -
  define c where "c = (if ob_cap ob \<noteq> 0 then ob_cap ob else 4096)"
  have c: "0 < c" "ob_cap ob \<le> c" by (auto simp: c_def)
  let ?w = "ob_len ob + need"
  have g: "grow_cap c ?w = c \<or> grow_cap c ?w < 2 * ?w"
  proof (cases "?w \<le> c")
    case True
    then show ?thesis by (simp add: grow_cap.simps [of c ?w])
  next
    case False
    then have "grow_cap c ?w < 2 * ?w" using c by (intro grow_cap_double) auto
    then show ?thesis by blast
  qed
  consider "ob' = ob" | "?w \<le> limit" "ob' = ob\<lparr>ob_buf := ob_buf ob @ replicate (grow_cap c ?w - ob_cap ob) 0\<rparr>"
    using assms(1,2) unfolding ob_grow_def Let_def c_def [symmetric] by (auto split: if_splits prod.splits)
  then show ?thesis
  proof cases
    case 2
    have "ob_cap ob' = grow_cap c ?w" using 2(2) c grow_cap_mono [of c ?w] by simp
    moreover have "c \<le> 4096 \<or> c < 2 * limit" using assms(3) by (auto simp: ob_bounded_def c_def)
    ultimately show ?thesis using g 2(1) unfolding ob_bounded_def by auto
  qed (use assms(3) in simp)
qed

lemma ob_reserve_bounded:
  assumes "ob_inv ob" "ob_reserve ob need limit h = (r, ob', h')" "limit \<noteq> 0" "ob_bounded limit ob"
  shows "ob_bounded limit ob'"
proof -
  have c: "ob_bounded limit (ob_compact ob)"
    using assms(4) ob_compact_spec [OF assms(1)] by (simp add: ob_bounded_def)
  show ?thesis
    using assms c ob_grow_bounded [of ob need limit h r ob' h']
      ob_grow_bounded [of "ob_compact ob" need limit h r ob' h']
    by (auto simp: ob_reserve_def Let_def split: if_splits)
qed

lemma ob_push_bounded:
  assumes "ob_inv ob" "ob_push limit ob bs h = (ok, ob', h')" "limit \<noteq> 0" "ob_bounded limit ob"
  shows "ob_bounded limit ob'"
proof -
  obtain r ob1 h1 where r: "ob_reserve ob (length bs) limit h = (r, ob1, h1)" by (metis prod_cases3)
  have "ob_bounded limit ob1" by (rule ob_reserve_bounded [OF assms(1) r assms(3,4)])
  moreover have "ob_cap (ob_put ob1 bs) = ob_cap ob1" if "r = None"
    using ob_reserve_spec [OF assms(1) r] that by (simp add: ob_put_def)
  ultimately show ?thesis using assms(2) r by (auto simp: ob_push_def ob_bounded_def split: option.splits)
qed

text \<open>
  C16. The output buffer loses, duplicates and reorders nothing: after any sequence of frames
  appended (some refused for want of memory or room) and any amounts handed to the
  transport, what was accepted is what was handed out followed by what is pending. Its
  memory stays bounded: 4096 bytes or less than twice the configured ceiling.
\<close>

theorem out_buffer_conserves:
  assumes run: "fifo_run (ob_push limit) ob_advance ob_pending (\<lambda>bs. bs) ops (outbuf_zero, h, [], [])
      = (ob', h', accepted, sent)"
    and lim: "limit \<noteq> 0"
  shows "accepted = sent @ ob_pending ob' \<and> ob_inv ob' \<and> (ob_cap ob' \<le> 4096 \<or> ob_cap ob' < 2 * limit)"
proof -
  have "ob_bounded limit ob'"
  proof (rule ob.run_keeps [OF _ _ _ _ run, of "ob_bounded limit"])
    show "ob_bounded limit outbuf_zero" by (simp add: ob_bounded_def outbuf_zero_def)
  next
    fix q x h ok q' h' assume "ob_inv q" "ob_bounded limit q" "ob_push limit q x h = (ok, q', h')"
    then show "ob_bounded limit q'" using ob_push_bounded lim by blast
  qed (simp_all add: ob_bounded_def)
  then show ?thesis using ob.run_conserves [OF _ _ run] by (auto simp: ob_bounded_def)
qed

theorem out_buffer_conserves_witness:
  "\<exists>ob' h' accepted sent. fifo_run (ob_push 100) ob_advance ob_pending (\<lambda>bs. bs)
     [Push [1, 2, 3], Pop 2, Push (replicate 4200 9)] (outbuf_zero, [], [], []) = (ob', h', accepted, sent) \<and>
     accepted = sent @ ob_pending ob'"
proof -
  let ?r = "fifo_run (ob_push 100) ob_advance ob_pending (\<lambda>bs. bs)
     [Push [1, 2, 3], Pop 2, Push (replicate 4200 9)] (outbuf_zero, [], [], [])"
  obtain ob' h' a sent where r: "?r = (ob', h', a, sent)" by (metis prod_cases4)
  then show ?thesis using out_buffer_conserves [OF r] by simp
qed

text \<open>
  The configured ceiling is consulted only when the buffer has to grow. A buffer whose
  capacity was already allocated accepts frames past the ceiling: with a ceiling of 100, two
  frames of 60 bytes are both accepted and 120 bytes are pending.
\<close>

theorem out_ceiling_not_a_bound:
  "case ob_push 100 outbuf_zero (replicate 60 7) [] of (ok1, ob1, h1) \<Rightarrow>
     case ob_push 100 ob1 (replicate 60 8) h1 of (ok2, ob2, h2) \<Rightarrow>
       ok1 \<and> ok2 \<and> ob_len ob2 = 120 \<and> ob_pending ob2 = replicate 60 7 @ replicate 60 8"
proof -
  let ?z = "replicate 4096 0 :: bytes"
  have g: "grow_cap 4096 60 = 4096" by (simp add: grow_cap.simps)
  define ob0 where "ob0 = \<lparr>ob_buf = ?z, ob_len = 0, ob_spos = 0\<rparr>"
  define ob1 where "ob1 = ob_put ob0 (replicate 60 7)"
  have inv0: "ob_inv ob0" "ob_pending ob0 = []" "ob_cap ob0 = 4096" "ob_len ob0 = 0"
    by (auto simp: ob0_def ob_inv_def ob_pending_def intro!: exI [of _ 12])
  have p1: "ob_push 100 outbuf_zero (replicate 60 7) [] = (True, ob1, [])"
    by (simp add: ob_push_def ob_reserve_def ob_grow_def outbuf_zero_def g ob1_def ob0_def Let_def)
  have s1: "ob_inv ob1" "ob_pending ob1 = replicate 60 7"
    using ob_put_spec [OF inv0(1), of "replicate 60 7"] inv0 unfolding ob1_def by simp_all
  have c1: "ob_cap ob1 = 4096" "ob_len ob1 = 60" using inv0 by (simp_all add: ob1_def ob_put_def)
  have p2: "ob_push 100 ob1 (replicate 60 8) [] = (True, ob_put ob1 (replicate 60 8), [])"
    using c1 by (simp add: ob_push_def ob_reserve_def)
  have "ob_pending (ob_put ob1 (replicate 60 8)) = replicate 60 7 @ replicate 60 8"
    using ob_put_spec [OF s1(1), of "replicate 60 8"] c1 s1 by simp
  moreover have "ob_len (ob_put ob1 (replicate 60 8)) = 120" using c1 by (simp add: ob_put_def)
  ultimately show ?thesis unfolding p1 prod.case p2 by simp
qed

end
