(* ===== verification/Mux_Evq.thy ===== *)
theory Mux_Evq
  imports Mux_Fifo Mux_Frame
begin

text \<open>
  The event queue of a session: the growable ring \<open>evq\<close> with \<open>evq_push\<close>, and the pop
  that \<open>mux_next_event\<close> performs (\<^verbatim>\<open>src/libmux/src/session.c\<close>). A slot that was
  allocated and not yet written is \<open>None\<close>; the invariant shows that no operation reads
  one. The ring refines a first-in first-out list, as an instance of the locale \<open>fifo\<close>.
\<close>

record 'e evq =
  evq_ev :: "'e option list"
  evq_head :: nat
  evq_count :: nat

abbreviation evq_cap :: "'e evq \<Rightarrow> nat" where
  "evq_cap q \<equiv> length (evq_ev q)"

definition evq_zero :: "'e evq" where
  "evq_zero = \<lparr>evq_ev = [], evq_head = 0, evq_count = 0\<rparr>"

text \<open>The body of the growth branch: the live slots are copied to the front of a new array.\<close>

definition evq_regrow :: "'e evq \<Rightarrow> 'e evq" where
  "evq_regrow q =
     (let ncap = (if evq_cap q \<noteq> 0 then evq_cap q * 2 else 64)
      in q\<lparr>evq_ev := map (\<lambda>i. evq_ev q ! ((evq_head q + i) mod evq_cap q)) [0..<evq_count q]
                    @ replicate (ncap - evq_count q) None,
           evq_head := 0\<rparr>)"

definition evq_store :: "'e evq \<Rightarrow> 'e \<Rightarrow> 'e evq" where
  "evq_store q e =
     q\<lparr>evq_ev := (evq_ev q)[(evq_head q + evq_count q) mod evq_cap q := Some e],
       evq_count := evq_count q + 1\<rparr>"

definition evq_push :: "'e evq \<Rightarrow> 'e \<Rightarrow> heap \<Rightarrow> mux_err option \<times> 'e evq \<times> heap" where
  "evq_push q e h =
     (if evq_count q = evq_cap q then
        (case alloc h of
           (False, h') \<Rightarrow> (Some MUX_ERR_NOMEM, q, h')
         | (True, h') \<Rightarrow> (None, evq_store (evq_regrow q) e, h'))
      else (None, evq_store q e, h))"

text \<open>\<open>mux_next_event\<close>: \<open>None\<close> is the return value 0.\<close>

definition evq_next :: "'e evq \<Rightarrow> ('e option \<times> 'e evq) option" where
  "evq_next q =
     (if evq_count q = 0 then None
      else Some (evq_ev q ! evq_head q,
                 q\<lparr>evq_head := (evq_head q + 1) mod evq_cap q, evq_count := evq_count q - 1\<rparr>))"

section \<open>Invariant and abstraction\<close>

definition evq_inv :: "'e evq \<Rightarrow> bool" where
  "evq_inv q \<longleftrightarrow> evq_count q \<le> evq_cap q \<and>
     (evq_cap q = 0 \<or> evq_cap q \<ge> 64 \<and> evq_head q < evq_cap q) \<and>
     (\<forall>i < evq_count q. evq_ev q ! ((evq_head q + i) mod evq_cap q) \<noteq> None)"

definition evq_content :: "'e evq \<Rightarrow> 'e list" where
  "evq_content q = map (\<lambda>i. the (evq_ev q ! ((evq_head q + i) mod evq_cap q))) [0..<evq_count q]"

lemma evq_zero_spec [simp]: "evq_inv evq_zero" "evq_content evq_zero = []"
  by (simp_all add: evq_inv_def evq_content_def evq_zero_def)

lemma length_evq_content [simp]: "length (evq_content q) = evq_count q"
  by (simp add: evq_content_def)

lemma evq_store_spec:
  assumes inv: "evq_inv q" and room: "evq_count q < evq_cap q"
  shows "evq_inv (evq_store q e) \<and> evq_content (evq_store q e) = evq_content q @ [e]"
proof -
  let ?n = "evq_cap q" and ?h = "evq_head q" and ?c = "evq_count q"
  let ?ev = "(evq_ev q)[(?h + ?c) mod ?n := Some e]"
  have n: "0 < ?n" using room by linarith
  have at: "?ev ! ((?h + i) mod ?n) = (if i = ?c then Some e else evq_ev q ! ((?h + i) mod ?n))"
    if "i \<le> ?c" for i
  proof -
    have "(?h + ?c) mod ?n < ?n" using n by simp
    moreover have "(?h + i) mod ?n = (?h + ?c) mod ?n \<longleftrightarrow> i = ?c"
      using ring_slot_inj [of ?h i ?n ?c] that room by auto
    ultimately show ?thesis by (auto simp: nth_list_update)
  qed
  have "evq_content (evq_store q e) = evq_content q @ [e]"
    using at by (simp add: evq_content_def evq_store_def)
  moreover have "evq_inv (evq_store q e)"
    using inv room at by (auto simp: evq_inv_def evq_store_def less_Suc_eq_le)
  ultimately show ?thesis by simp
qed

lemma evq_regrow_spec:
  assumes inv: "evq_inv q" and full: "evq_count q = evq_cap q"
  shows "evq_inv (evq_regrow q) \<and> evq_content (evq_regrow q) = evq_content q \<and>
    evq_count (evq_regrow q) < evq_cap (evq_regrow q)"
proof -
  let ?n = "evq_cap (evq_regrow q)"
  have cap: "?n = (if evq_cap q \<noteq> 0 then evq_cap q * 2 else 64)"
    using full by (simp add: evq_regrow_def Let_def)
  have cnt: "evq_count (evq_regrow q) = evq_count q" "evq_head (evq_regrow q) = 0"
    by (simp_all add: evq_regrow_def Let_def)
  have lt: "evq_count q < ?n" using full cap by (auto split: if_splits)
  have at: "evq_ev (evq_regrow q) ! ((0 + i) mod ?n) = evq_ev q ! ((evq_head q + i) mod evq_cap q)"
    if "i < evq_count q" for i
  proof -
    have "i mod ?n = i" using that lt by simp
    then show ?thesis using that by (simp add: evq_regrow_def Let_def nth_append)
  qed
  have "evq_content (evq_regrow q) = evq_content q"
    unfolding evq_content_def cnt using at by (intro map_cong) auto
  moreover have "evq_inv (evq_regrow q)"
    using inv at lt cap unfolding evq_inv_def cnt by auto
  ultimately show ?thesis using lt cnt by simp
qed

lemma evq_push_spec:
  assumes inv: "evq_inv q" and res: "evq_push q e h = (r, q', h')"
  shows "evq_inv q' \<and> evq_content q' = (if r = None then evq_content q @ [e] else evq_content q)"
proof (cases "evq_count q = evq_cap q")
  case True
  then show ?thesis
    using res inv evq_regrow_spec [OF inv True] evq_store_spec [of "evq_regrow q" e]
    by (auto simp: evq_push_def split: prod.splits bool.splits)
next
  case False
  then have "evq_count q < evq_cap q" using inv by (simp add: evq_inv_def)
  then show ?thesis using res False evq_store_spec [OF inv] by (auto simp: evq_push_def)
qed

lemma evq_push_ok [simp]: "\<exists>q'. evq_push q e [] = (None, q', [])"
  by (simp add: evq_push_def)

lemma evq_next_spec:
  assumes inv: "evq_inv q"
  shows "case evq_content q of
      [] \<Rightarrow> evq_next q = None
    | e # es \<Rightarrow> \<exists>q'. evq_next q = Some (Some e, q') \<and> evq_inv q' \<and> evq_content q' = es"
proof (cases "evq_count q")
  case 0
  then show ?thesis by (simp add: evq_next_def evq_content_def)
next
  case (Suc c)
  let ?n = "evq_cap q" and ?h = "evq_head q"
  have n: "?h < ?n" "Suc c \<le> ?n" using inv Suc by (auto simp: evq_inv_def)
  have sh: "((?h + 1) mod ?n + i) mod ?n = (?h + Suc i) mod ?n" for i
    by (simp add: mod_simps)
  have first: "evq_ev q ! ?h \<noteq> None" "the (evq_ev q ! ?h) = hd (evq_content q)"
    using inv Suc n by (auto simp: evq_inv_def evq_content_def upt_conv_Cons simp del: upt_Suc)
  let ?q' = "q\<lparr>evq_head := (?h + 1) mod ?n, evq_count := evq_count q - 1\<rparr>"
  have live: "evq_ev q ! ((?h + Suc i) mod ?n) \<noteq> None" if "i < c" for i
    using inv Suc that by (auto simp: evq_inv_def)
  have "evq_inv ?q'"
    using inv Suc n live sh by (auto simp: evq_inv_def)
  moreover have "evq_content ?q' = tl (evq_content q)"
    using sh Suc
    by (simp add: evq_content_def upt_conv_Cons map_tl [symmetric] map_Suc_upt [symmetric]
        comp_def del: upt_Suc)
  moreover have "evq_next q = Some (Some (hd (evq_content q)), ?q')"
    using first Suc by (auto simp: evq_next_def)
  moreover have "evq_content q \<noteq> []"
    using Suc length_evq_content [of q] by fastforce
  ultimately show ?thesis by (cases "evq_content q") simp_all
qed

fun evq_pops :: "'e evq \<Rightarrow> nat \<Rightarrow> 'e evq" where
  "evq_pops q 0 = q"
| "evq_pops q (Suc n) = (case evq_next q of None \<Rightarrow> q | Some (_, q') \<Rightarrow> evq_pops q' n)"

lemma evq_pops_spec:
  "evq_inv q \<Longrightarrow> evq_inv (evq_pops q n) \<and> evq_content (evq_pops q n) = drop n (evq_content q)"
proof (induction q n rule: evq_pops.induct)
  case (2 q n)
  then show ?case
    using evq_next_spec [of q] by (cases "evq_content q") (auto split: option.splits)
qed simp

definition evq_push_ok_flag :: "'e evq \<Rightarrow> 'e \<Rightarrow> heap \<Rightarrow> bool \<times> 'e evq \<times> heap" where
  "evq_push_ok_flag q e h = (case evq_push q e h of (r, q', h') \<Rightarrow> (r = None, q', h'))"

lemma evq_push_flag_spec:
  assumes "evq_inv q" "evq_push_ok_flag q e h = (ok, q', h')"
  shows "evq_inv q' \<and> evq_content q' = (if ok then evq_content q @ [e] else evq_content q)"
  using assms evq_push_spec [of q e h]
  by (cases "evq_push q e h") (auto simp: evq_push_ok_flag_def)

interpretation eq: fifo evq_inv evq_content "\<lambda>e. [e]" evq_push_ok_flag evq_pops
  by unfold_locales (blast dest: evq_push_flag_spec evq_pops_spec)+



end
