(* ===== verification/Mux_Probing.thy ===== *)
theory Mux_Probing
  imports Mux_Prelude
begin

text \<open>
  Open addressing with linear probing, as the stream table of \<^verbatim>\<open>session.c\<close> and the
  sid maps of the daemons use it. A table is a list of cells; a cell may be empty, may hold
  a key, or neither (a tombstone). The locale \<open>probing\<close> holds the laws of the probe
  sequence for any such cell type; each table of the program is an interpretation of it.
\<close>

section \<open>The probe sequence\<close>

text \<open>
  The first cell satisfying \<open>stop\<close>, at or cyclically after \<open>i\<close>, among \<open>fuel\<close> cells.
\<close>

fun scan :: "('a \<Rightarrow> bool) \<Rightarrow> 'a list \<Rightarrow> nat \<Rightarrow> nat \<Rightarrow> nat option" where
  "scan stop t i 0 = None"
| "scan stop t i (Suc fuel) =
     (if stop (t ! i) then Some i else scan stop t ((i + 1) mod length t) fuel)"

lemma scan_Some:
  assumes "scan stop t (i mod length t) fuel = Some j"
  shows "\<exists>d < fuel. j = (i + d) mod length t \<and> stop (t ! j) \<and>
    (\<forall>d' < d. \<not> stop (t ! ((i + d') mod length t)))"
  using assms
proof (induction fuel arbitrary: i)
  case (Suc fuel)
  show ?case
  proof (cases "stop (t ! (i mod length t))")
    case True
    with Suc.prems show ?thesis by (intro exI [of _ 0]) auto
  next
    case False
    with Suc.prems have "scan stop t (Suc i mod length t) fuel = Some j" by (simp add: mod_Suc_eq)
    from Suc.IH [OF this] obtain d where d: "d < fuel" "j = (Suc i + d) mod length t" "stop (t ! j)"
      "\<forall>d' < d. \<not> stop (t ! ((Suc i + d') mod length t))" by blast
    have "\<not> stop (t ! ((i + d') mod length t))" if "d' < Suc d" for d'
      using that False d(4) by (cases d') auto
    with d show ?thesis by (intro exI [of _ "Suc d"]) auto
  qed
qed simp

lemma scan_complete:
  assumes "d < fuel" "stop (t ! ((i + d) mod length t))"
    "\<forall>d' < d. \<not> stop (t ! ((i + d') mod length t))"
  shows "scan stop t (i mod length t) fuel = Some ((i + d) mod length t)"
  using assms
proof (induction fuel arbitrary: i d)
  case (Suc fuel)
  show ?case
  proof (cases d)
    case 0
    with Suc.prems show ?thesis by simp
  next
    case (Suc e)
    have "\<not> stop (t ! (i mod length t))" using Suc.prems(3) Suc by force
    moreover have "scan stop t (Suc i mod length t) fuel = Some ((Suc i + e) mod length t)"
      using Suc.prems Suc by (intro Suc.IH) auto
    ultimately show ?thesis using Suc by (simp add: mod_Suc_eq)
  qed
qed simp

lemma scan_finds:
  assumes "d < fuel" "stop (t ! ((i + d) mod length t))"
  shows "\<exists>j. scan stop t (i mod length t) fuel = Some j"
proof -
  let ?Q = "\<lambda>d. stop (t ! ((i + d) mod length t))"
  define m where "m = (LEAST d. ?Q d)"
  have "?Q m" "m \<le> d" using assms LeastI [of ?Q d] Least_le [of ?Q d] by (auto simp: m_def)
  moreover have "\<forall>d' < m. \<not> ?Q d'" using not_less_Least [of _ ?Q] by (auto simp: m_def)
  ultimately show ?thesis using scan_complete [of m fuel stop t i] assms(1) by auto
qed

text \<open>A full round visits every cell.\<close>

lemma full_round:
  assumes "j < (n :: nat)"
  shows "\<exists>d < n. j = (i + d) mod n"
proof -
  let ?d = "(j + (n - i mod n)) mod n"
  have "i mod n \<le> n" using assms by (simp add: less_imp_le)
  have "(i + ?d) mod n = (i mod n + (j + (n - i mod n))) mod n" by (simp add: mod_simps)
  also have "\<dots> = (j + n) mod n" using \<open>i mod n \<le> n\<close> by (simp add: ac_simps)
  also have "\<dots> = j" using assms by simp
  finally have "j = (i + ?d) mod n" by simp
  moreover have "?d < n" using assms by simp
  ultimately show ?thesis by blast
qed

lemma scan_round:
  assumes "j < length t" "stop (t ! j)"
  shows "\<exists>k. scan stop t (i mod length t) (length t) = Some k"
  using full_round [OF assms(1), of i] assms(2) scan_finds [of _ "length t" stop t i] by blast

lemma scan_index:
  assumes "scan stop t (i mod length t) fuel = Some j" "0 < length t"
  shows "j < length t \<and> stop (t ! j)"
  using scan_Some [OF assms(1)] assms(2) by auto

lemma scan_cong:
  assumes "\<And>e. e \<in> set t \<Longrightarrow> stop e = stop' e" "i < length t"
  shows "scan stop t i fuel = scan stop' t i fuel"
  using assms(2)
proof (induction fuel arbitrary: i)
  case (Suc fuel)
  have "(i + 1) mod length t < length t" by (rule mod_less_divisor) (use Suc.prems in linarith)
  with Suc assms(1) show ?case by simp
qed simp

section \<open>Well-formed tables\<close>

definition probe_inv :: "('a \<Rightarrow> bool) \<Rightarrow> ('a \<Rightarrow> 'k option) \<Rightarrow> ('k \<Rightarrow> nat) \<Rightarrow> 'a list \<Rightarrow> bool" where
  "probe_inv emp key home t \<longleftrightarrow>
     (\<forall>i < length t. \<forall>k. key (t ! i) = Some k \<longrightarrow>
        (\<exists>d < length t. i = (home k + d) mod length t \<and>
           (\<forall>d' < d. \<not> emp (t ! ((home k + d') mod length t))))) \<and>
     (\<forall>i < length t. \<forall>j < length t. \<forall>k. key (t ! i) = Some k \<longrightarrow> key (t ! j) = Some k \<longrightarrow> i = j)"

definition table_view :: "('a \<Rightarrow> 'k option) \<Rightarrow> 'a list \<Rightarrow> 'k \<Rightarrow> 'a option" where
  "table_view key t k = find (\<lambda>e. key e = Some k) t"

lemma probe_inv_mono:
  assumes "probe_inv emp key home t" "\<And>e. emp' e \<Longrightarrow> emp e"
  shows "probe_inv emp' key home t"
  using assms unfolding probe_inv_def by blast

lemma table_view_filter:
  "(\<And>e. key e = Some k \<Longrightarrow> P e) \<Longrightarrow> table_view key (filter P t) k = table_view key t k"
  by (induction t) (auto simp: table_view_def)

text \<open>
  Rehashing: each cell goes to the first empty cell at or after its home, in a fresh table.
\<close>

definition probe_place :: "('a \<Rightarrow> bool) \<Rightarrow> ('a \<Rightarrow> nat) \<Rightarrow> 'a list \<Rightarrow> 'a \<Rightarrow> 'a list" where
  "probe_place emp h t e = (case scan emp t (h e mod length t) (length t) of
     Some j \<Rightarrow> t[j := e] | None \<Rightarrow> t)"

locale probing =
  fixes emp :: "'a \<Rightarrow> bool" and key :: "'a \<Rightarrow> 'k option" and home :: "'k \<Rightarrow> nat"
  assumes emp_key: "emp e \<Longrightarrow> key e = None"
begin

abbreviation "pinv \<equiv> probe_inv emp key home"
abbreviation "lookup t k \<equiv> scan (\<lambda>e. emp e \<or> key e = Some k) t (home k mod length t) (length t)"
abbreviation "view \<equiv> table_view key"

lemma pinv_unique:
  "pinv t \<Longrightarrow> i < length t \<Longrightarrow> j < length t \<Longrightarrow> key (t ! i) = Some k \<Longrightarrow> key (t ! j) = Some k \<Longrightarrow> i = j"
  unfolding probe_inv_def by blast

lemma pinv_path:
  "pinv t \<Longrightarrow> i < length t \<Longrightarrow> key (t ! i) = Some k \<Longrightarrow>
   \<exists>d < length t. i = (home k + d) mod length t \<and> (\<forall>d' < d. \<not> emp (t ! ((home k + d') mod length t)))"
  unfolding probe_inv_def by blast

lemma view_iff:
  assumes "pinv t" "i < length t" "key (t ! i) = Some k"
  shows "view t k = Some (t ! i)"
proof -
  obtain e where e: "view t k = Some e"
    using assms(2,3) by (fastforce simp: table_view_def find_None_iff)
  then obtain j where "j < length t" "e = t ! j" "key (t ! j) = Some k"
    by (auto simp: table_view_def find_Some_iff)
  with assms e show ?thesis using pinv_unique by blast
qed

lemma view_Some:
  assumes "view t k = Some e"
  shows "\<exists>i < length t. t ! i = e \<and> key e = Some k"
  using assms by (auto simp: table_view_def find_Some_iff)

lemma view_None: "view t k = None \<longleftrightarrow> (\<forall>i < length t. key (t ! i) \<noteq> Some k)"
  by (auto simp: table_view_def find_None_iff in_set_conv_nth)

text \<open>The keys are counted by the cells that hold one.\<close>

lemma view_card:
  assumes "pinv t" shows "card (dom (view t)) = cnt (\<lambda>e. key e \<noteq> None) t"
proof -
  let ?I = "{i. i < length t \<and> key (t ! i) \<noteq> None}"
  have "bij_betw (\<lambda>i. the (key (t ! i))) ?I (dom (view t))"
  proof (rule bij_betwI')
    fix i j assume "i \<in> ?I" "j \<in> ?I"
    then show "(the (key (t ! i)) = the (key (t ! j))) = (i = j)"
      using assms unfolding probe_inv_def by auto
  next
    fix i assume "i \<in> ?I"
    then show "the (key (t ! i)) \<in> dom (view t)" using view_iff [OF assms] by auto
  next
    fix k assume "k \<in> dom (view t)"
    then show "\<exists>i \<in> ?I. k = the (key (t ! i))" using view_Some by force
  qed
  then show ?thesis by (simp add: bij_betw_same_card length_filter_conv_card)
qed

lemma lookup_hit:
  assumes "pinv t" "i < length t" "key (t ! i) = Some k"
  shows "lookup t k = Some i"
proof -
  obtain d where d: "d < length t" "i = (home k + d) mod length t"
    "\<forall>d' < d. \<not> emp (t ! ((home k + d') mod length t))"
    using pinv_path [OF assms] by blast
  have "key (t ! ((home k + d') mod length t)) \<noteq> Some k" if "d' < d" for d'
  proof
    assume *: "key (t ! ((home k + d') mod length t)) = Some k"
    have "0 < length t" using assms(2) by linarith
    then have "(home k + d') mod length t = (home k + d) mod length t"
      using pinv_unique [OF assms(1) _ assms(2) * assms(3)] d(2) by simp
    then show False using that d(1) ring_slot_inj [of "home k" d' "length t" d] by simp
  qed
  with d show ?thesis
    using scan_complete [of d "length t" "\<lambda>e. emp e \<or> key e = Some k" t "home k"] assms(3) by auto
qed

lemma lookup_cases:
  assumes "pinv t" "0 < length t"
  shows "(case lookup t k of None \<Rightarrow> view t k = None
    | Some i \<Rightarrow> i < length t \<and> (if emp (t ! i) then view t k = None
        else key (t ! i) = Some k \<and> view t k = Some (t ! i)))"
proof (cases "view t k")
  case None
  then have n: "\<forall>i < length t. key (t ! i) \<noteq> Some k" by (simp add: view_None)
  show ?thesis
  proof (cases "lookup t k")
    case (Some i)
    then have "i < length t" "emp (t ! i) \<or> key (t ! i) = Some k"
      using scan_index [OF Some assms(2)] by auto
    then show ?thesis using n None Some by simp
  qed (simp add: None)
next
  case (Some e)
  then obtain i where i: "i < length t" "t ! i = e" "key e = Some k" using view_Some by blast
  then have "lookup t k = Some i" using lookup_hit [OF assms(1)] by blast
  with i Some emp_key [of e] show ?thesis by auto
qed

text \<open>A cell is overwritten by a tombstone, or by a cell with the same key.\<close>

lemma pinv_update:
  assumes inv: "pinv t" and i: "i < length t"
    and e: "\<not> emp e" "key e = None \<or> key e = key (t ! i)"
  shows "pinv (t[i := e])"
proof -
  have key': "key (t[i := e] ! j) = Some k \<Longrightarrow> key (t ! j) = Some k" for j k
    using e(2) i by (cases "i = j") auto
  have emp': "emp (t[i := e] ! j) \<Longrightarrow> emp (t ! j)" for j
    using e(1) i by (cases "i = j") auto
  show ?thesis
    unfolding probe_inv_def length_list_update
  proof (intro conjI allI impI)
    fix j k assume "j < length t" "key (t[i := e] ! j) = Some k"
    then show "\<exists>d < length t. j = (home k + d) mod length t \<and>
        (\<forall>d' < d. \<not> emp (t[i := e] ! ((home k + d') mod length t)))"
      using pinv_path [OF inv] key' emp' by blast
  next
    fix j j' k
    assume "j < length t" "j' < length t" "key (t[i := e] ! j) = Some k" "key (t[i := e] ! j') = Some k"
    then show "j = j'" using pinv_unique [OF inv] key' by blast
  qed
qed

text \<open>A fresh key goes to a cell without key whose probe path has no empty cell before it.\<close>

lemma pinv_insert:
  assumes inv: "pinv t" and d: "d < length t" "i = (home k + d) mod length t"
    "\<forall>d' < d. \<not> emp (t ! ((home k + d') mod length t))"
    and fresh: "\<forall>j < length t. key (t ! j) \<noteq> Some k" and old: "key (t ! i) = None"
    and e: "key e = Some k"
  shows "pinv (t[i := e])"
proof -
  let ?t = "t[i := e]"
  have i: "i < length t" unfolding d(2) by (rule mod_less_divisor) (use d(1) in linarith)
  have ne: "\<not> emp e" using e emp_key by fastforce
  have emp': "emp (?t ! j) \<Longrightarrow> emp (t ! j)" for j
    using ne i by (cases "i = j") auto
  have keys: "key (?t ! j) = Some k' \<longleftrightarrow> (if j = i then k' = k else key (t ! j) = Some k')"
    if "j < length t" for j k'
    using that i e by auto
  have "\<exists>d < length t. j = (home k' + d) mod length t \<and>
      (\<forall>d' < d. \<not> emp (?t ! ((home k' + d') mod length t)))"
    if "j < length t" "key (?t ! j) = Some k'" for j k'
  proof (cases "j = i")
    case True
    then have "k' = k" using that e i by simp
    then show ?thesis using True d emp' by blast
  next
    case False
    then have "key (t ! j) = Some k'" using that keys by simp
    then show ?thesis using pinv_path [OF inv that(1)] emp' by blast
  qed
  moreover have "j = j'"
    if "j < length t" "j' < length t" "key (?t ! j) = Some k'" "key (?t ! j') = Some k'" for j j' k'
  proof -
    have "if j = i then k' = k else key (t ! j) = Some k'" "if j' = i then k' = k else key (t ! j') = Some k'"
      using that keys by blast+
    then show ?thesis using fresh pinv_unique [OF inv that(1,2)] that(1,2) by (auto split: if_splits)
  qed
  ultimately show ?thesis unfolding probe_inv_def length_list_update by blast
qed

lemma view_update:
  assumes inv: "pinv t" "pinv (t[i := e])" and i: "i < length t"
    and old: "key (t ! i) = None \<or> key (t ! i) = Some k" and new: "key e = None \<or> key e = Some k"
  shows "view (t[i := e]) = (view t)
    (k := if key e = Some k then Some e else if key (t ! i) = Some k then None else view t k)"
proof (rule ext)
  fix k'
  show "view (t[i := e]) k' = ((view t)
      (k := if key e = Some k then Some e else if key (t ! i) = Some k then None else view t k)) k'"
  proof (cases "key e = Some k'")
    case True
    then show ?thesis using new i view_iff [OF inv(2), of i k'] by auto
  next
    case ne: False
    show ?thesis
    proof (cases "\<exists>j < length t. j \<noteq> i \<and> key (t ! j) = Some k'")
      case True
      then obtain j where j: "j < length t" "j \<noteq> i" "key (t ! j) = Some k'" by blast
      then have "view (t[i := e]) k' = Some (t ! j)" "view t k' = Some (t ! j)"
        using view_iff [OF inv(2), of j k'] view_iff [OF inv(1) j(1) j(3)] by auto
      moreover have "key (t ! i) \<noteq> Some k'" using pinv_unique [OF inv(1) j(1) i j(3)] j(2) by blast
      ultimately show ?thesis using ne by auto
    next
      case False
      then have v: "view (t[i := e]) k' = None"
        using ne i by (auto simp: view_None nth_list_update)
      show ?thesis
      proof (cases "key (t ! i) = Some k'")
        case True
        then show ?thesis using v ne old by auto
      next
        case False
        then have "view t k' = None"
          using \<open>\<not> (\<exists>j < length t. j \<noteq> i \<and> key (t ! j) = Some k')\<close> by (auto simp: view_None)
        then show ?thesis using v ne by auto
      qed
    qed
  qed
qed

lemma pinv_distinct_keys:
  assumes "pinv t" shows "distinct (map key (filter (\<lambda>e. key e \<noteq> None) t))"
proof -
  have "\<forall>i < length t. \<forall>j < length t. \<forall>k. key (t ! i) = Some k \<longrightarrow> key (t ! j) = Some k \<longrightarrow> i = j"
    using assms by (simp add: probe_inv_def)
  then show ?thesis
  proof (induction t)
    case (Cons e t)
    have "\<forall>i < length t. \<forall>j < length t. \<forall>k. key (t ! i) = Some k \<longrightarrow> key (t ! j) = Some k \<longrightarrow> i = j"
      using Cons.prems by (metis Suc_less_eq length_Cons nat.inject nth_Cons_Suc)
    moreover have "key (t ! j) \<noteq> key e" if "j < length t" "key e \<noteq> None" for j
      using Cons.prems that by (metis Suc_less_eq length_Cons not_None_eq nat.distinct(1) nth_Cons_0 nth_Cons_Suc zero_less_Suc)
    ultimately show ?case using Cons.IH by (auto simp: in_set_conv_nth)
  qed simp
qed

lemma pinv_replicate: "emp z \<Longrightarrow> pinv (replicate n z)"
  using emp_key by (auto simp: probe_inv_def)

lemma view_replicate: "emp z \<Longrightarrow> view (replicate n z) k = None"
  using emp_key by (auto simp: view_None)

lemma place_spec:
  assumes inv: "pinv t" and room: "cnt (\<lambda>e. \<not> emp e) t < length t"
    and e: "key e = Some k" and fresh: "view t k = None"
  shows "\<exists>j < length t. emp (t ! j) \<and> probe_place emp (\<lambda>e. home (the (key e))) t e = t[j := e] \<and>
    pinv (t[j := e]) \<and> view (t[j := e]) = (view t)(k \<mapsto> e)"
proof -
  obtain i where i: "i < length t" "emp (t ! i)" using cnt_less [OF room] by blast
  obtain j where j: "scan emp t (home k mod length t) (length t) = Some j"
    using scan_round [of i t emp "home k"] i by blast
  obtain d where d: "d < length t" "j = (home k + d) mod length t" "emp (t ! j)"
    "\<forall>d' < d. \<not> emp (t ! ((home k + d') mod length t))"
    using scan_Some [OF j] by blast
  have lt: "j < length t" using scan_index [OF j] i by linarith
  have inv': "pinv (t[j := e])"
    using pinv_insert [OF inv d(1,2,4) _ emp_key [OF d(3)] e] fresh by (simp add: view_None)
  moreover have "view (t[j := e]) = (view t)(k \<mapsto> e)"
    using view_update [OF inv inv' lt, of k] emp_key [OF d(3)] e by simp
  ultimately show ?thesis using j d(3) lt e by (auto simp: probe_place_def)
qed

lemma rehash_spec:
  assumes "pinv t" "cnt (\<lambda>e. \<not> emp e) t + length es \<le> length t"
    and "\<forall>e \<in> set es. key e \<noteq> None \<and> view t (the (key e)) = None" "distinct (map key es)"
  shows "\<exists>t'. foldl (probe_place emp (\<lambda>e. home (the (key e)))) t es = t' \<and> pinv t' \<and> length t' = length t \<and>
    (\<forall>k. view t' k = (case view t k of Some e \<Rightarrow> Some e | None \<Rightarrow> view es k)) \<and>
    (\<forall>P. (\<forall>e. emp e \<longrightarrow> \<not> P e) \<longrightarrow> cnt P t' = cnt P t + cnt P es) \<and>
    set t' \<subseteq> set t \<union> set es"
  using assms
proof (induction es arbitrary: t)
  case Nil
  then show ?case by (auto simp: table_view_def split: option.splits)
next
  case (Cons e es)
  let ?p = "probe_place emp (\<lambda>e. home (the (key e)))"
  obtain k where k: "key e = Some k" "view t k = None" using Cons.prems(3) by auto
  obtain j where j: "j < length t" "emp (t ! j)" "?p t e = t[j := e]" "pinv (t[j := e])"
    "view (t[j := e]) = (view t)(k \<mapsto> e)"
    using place_spec [OF Cons.prems(1) _ k] Cons.prems(2) by auto
  have ne: "\<not> emp e" using k emp_key by fastforce
  have c: "cnt P (t[j := e]) = cnt P t + of_bool (P e)" if "\<forall>e. emp e \<longrightarrow> \<not> P e" for P
    using cnt_update [OF j(1), of P e] that j(2) by simp
  have diff: "\<forall>e' \<in> set es. key e' \<noteq> Some k" using Cons.prems(4) k(1) by force
  have IH: "\<exists>t'. foldl ?p (t[j := e]) es = t' \<and> pinv t' \<and> length t' = length (t[j := e]) \<and>
    (\<forall>k. view t' k = (case view (t[j := e]) k of Some e \<Rightarrow> Some e | None \<Rightarrow> view es k)) \<and>
    (\<forall>P. (\<forall>e. emp e \<longrightarrow> \<not> P e) \<longrightarrow> cnt P t' = cnt P (t[j := e]) + cnt P es) \<and>
    set t' \<subseteq> set (t[j := e]) \<union> set es"
    using Cons.prems j(4) c [of "\<lambda>e. \<not> emp e"] ne diff j(5) by (intro Cons.IH) auto
  then obtain t' where t': "foldl ?p (t[j := e]) es = t'" "pinv t'" "length t' = length t"
    "\<forall>k. view t' k = (case view (t[j := e]) k of Some e \<Rightarrow> Some e | None \<Rightarrow> view es k)"
    "\<forall>P. (\<forall>e. emp e \<longrightarrow> \<not> P e) \<longrightarrow> cnt P t' = cnt P (t[j := e]) + cnt P es"
    "set t' \<subseteq> set (t[j := e]) \<union> set es" by auto
  have "view t' k' = (case view t k' of Some e \<Rightarrow> Some e | None \<Rightarrow> view (e # es) k')" for k'
  proof -
    have "view (e # es) k' = (if k' = k then Some e else view es k')"
      using k(1) by (simp add: table_view_def)
    then show ?thesis using t'(4) j(5) k(2) by (cases "k' = k") (simp_all split: option.splits)
  qed
  moreover have "set t' \<subseteq> set t \<union> set (e # es)"
    using t'(6) set_update_subset_insert [of t j e] by auto
  ultimately show ?case using t' c j(3) by auto
qed

end

end
