(* ===== verification/Mux_Sid_Table.thy ===== *)
theory Mux_Sid_Table
  imports Mux_Prelude
begin

text \<open>
  The contract of a table keyed by stream ids, as its clients use it: look a key up to get a
  handle, read or modify the cell behind the handle, insert a fresh cell for an absent key
  (which may fail for want of memory), remove the cell. The stream table of a session
  provides it.
\<close>

datatype ('k, 'v) tab_op = Ins 'k | Del 'k | Mod 'k "'v \<Rightarrow> 'v"

text \<open>
  A client's run against the table. An operation on a key that is in the wrong state is
  skipped, as every caller in the program does; the flags record which operations took effect.
\<close>

fun tab_run ::
    "('t \<Rightarrow> 'k \<Rightarrow> 'p option) \<Rightarrow> ('t \<Rightarrow> 'k \<Rightarrow> heap \<Rightarrow> 'p option \<times> 't \<times> heap) \<Rightarrow>
     ('t \<Rightarrow> 'p \<Rightarrow> 't) \<Rightarrow> ('t \<Rightarrow> 'p \<Rightarrow> ('v \<Rightarrow> 'v) \<Rightarrow> 't) \<Rightarrow>
     ('k, 'v) tab_op list \<Rightarrow> 't \<Rightarrow> heap \<Rightarrow> bool list \<times> 't \<times> heap" where
  "tab_run lkp ins del upd [] t h = ([], t, h)"
| "tab_run lkp ins del upd (Ins k # ops) t h =
     (case lkp t k of
        Some _ \<Rightarrow> (case tab_run lkp ins del upd ops t h of (fl, r) \<Rightarrow> (False # fl, r))
      | None \<Rightarrow> (case ins t k h of (r, t', h') \<Rightarrow>
          (case tab_run lkp ins del upd ops t' h' of (fl, x) \<Rightarrow> ((r \<noteq> None) # fl, x))))"
| "tab_run lkp ins del upd (Del k # ops) t h =
     (case lkp t k of
        None \<Rightarrow> (case tab_run lkp ins del upd ops t h of (fl, r) \<Rightarrow> (False # fl, r))
      | Some p \<Rightarrow> (case tab_run lkp ins del upd ops (del t p) h of (fl, r) \<Rightarrow> (True # fl, r)))"
| "tab_run lkp ins del upd (Mod k f # ops) t h =
     (case lkp t k of
        None \<Rightarrow> (case tab_run lkp ins del upd ops t h of (fl, r) \<Rightarrow> (False # fl, r))
      | Some p \<Rightarrow> (case tab_run lkp ins del upd ops (upd t p f) h of (fl, r) \<Rightarrow> (True # fl, r)))"

text \<open>The same run against a finite map; only the success of an insertion is not its own.\<close>

fun map_run :: "('k \<Rightarrow> 'v) \<Rightarrow> ('k, 'v) tab_op list \<Rightarrow> bool list \<Rightarrow> ('k \<Rightarrow> 'v option) \<Rightarrow> ('k \<Rightarrow> 'v option)" where
  "map_run fresh (Ins k # ops) (b # fl) m =
     map_run fresh ops fl (if m k = None \<and> b then m(k \<mapsto> fresh k) else m)"
| "map_run fresh (Del k # ops) (b # fl) m = map_run fresh ops fl (m(k := None))"
| "map_run fresh (Mod k f # ops) (b # fl) m =
     map_run fresh ops fl (case m k of None \<Rightarrow> m | Some v \<Rightarrow> m(k \<mapsto> f v))"
| "map_run fresh _ _ m = m"

definition op_ok :: "(('v \<Rightarrow> 'v) \<Rightarrow> bool) \<Rightarrow> ('k, 'v) tab_op \<Rightarrow> bool" where
  "op_ok keeps op = (case op of Mod k f \<Rightarrow> keeps f | _ \<Rightarrow> True)"

locale sid_table =
  fixes inv :: "'t \<Rightarrow> bool" and view :: "'t \<Rightarrow> 'k \<Rightarrow> 'v option"
    and designates :: "'t \<Rightarrow> 'p \<Rightarrow> 'k \<Rightarrow> 'v \<Rightarrow> bool"
    and lkp :: "'t \<Rightarrow> 'k \<Rightarrow> 'p option"
    and ins :: "'t \<Rightarrow> 'k \<Rightarrow> heap \<Rightarrow> 'p option \<times> 't \<times> heap"
    and del :: "'t \<Rightarrow> 'p \<Rightarrow> 't"
    and upd :: "'t \<Rightarrow> 'p \<Rightarrow> ('v \<Rightarrow> 'v) \<Rightarrow> 't"
    and fresh :: "'k \<Rightarrow> 'v"
    and keeps :: "('v \<Rightarrow> 'v) \<Rightarrow> bool"
  assumes lkp_None: "inv t \<Longrightarrow> lkp t k = None \<Longrightarrow> view t k = None"
    and lkp_Some: "inv t \<Longrightarrow> lkp t k = Some p \<Longrightarrow> \<exists>v. view t k = Some v \<and> designates t p k v"
    and ins_inv: "inv t \<Longrightarrow> view t k = None \<Longrightarrow> ins t k h = (r, t', h') \<Longrightarrow> inv t'"
    and ins_view: "inv t \<Longrightarrow> view t k = None \<Longrightarrow> ins t k h = (r, t', h') \<Longrightarrow>
      view t' = (if r = None then view t else (view t)(k \<mapsto> fresh k))"
    and ins_total: "inv t \<Longrightarrow> view t k = None \<Longrightarrow> ins t k [] = (r, t', h') \<Longrightarrow> r \<noteq> None \<and> h' = []"
    and del_inv: "inv t \<Longrightarrow> designates t p k v \<Longrightarrow> inv (del t p)"
    and del_view: "inv t \<Longrightarrow> designates t p k v \<Longrightarrow> view (del t p) = (view t)(k := None)"
    and upd_inv: "inv t \<Longrightarrow> designates t p k v \<Longrightarrow> keeps f \<Longrightarrow> inv (upd t p f)"
    and upd_view: "inv t \<Longrightarrow> designates t p k v \<Longrightarrow> keeps f \<Longrightarrow> view (upd t p f) = (view t)(k \<mapsto> f v)"
begin

lemma run_refines:
  assumes "inv t" "list_all (op_ok keeps) ops" "tab_run lkp ins del upd ops t h = (fl, t', h')"
  shows "inv t' \<and> view t' = map_run fresh ops fl (view t)"
  using assms
proof (induction ops arbitrary: t h fl)
  case (Cons op ops)
  note IH = Cons.IH
  have ok: "list_all (op_ok keeps) ops" using Cons.prems(2) by simp
  show ?case
  proof (cases op)
    case (Ins k)
    show ?thesis
    proof (cases "lkp t k")
      case None
      obtain r t1 h1 where i: "ins t k h = (r, t1, h1)" by (cases "ins t k h") auto
      obtain fl1 where r: "tab_run lkp ins del upd ops t1 h1 = (fl1, t', h')" "fl = (r \<noteq> None) # fl1"
        using Cons.prems(3) Ins None i by (auto split: prod.splits)
      have v: "view t k = None" using lkp_None [OF Cons.prems(1) None] .
      have "inv t' \<and> view t' = map_run fresh ops fl1 (view t1)"
        by (rule IH [OF ins_inv [OF Cons.prems(1) v i] ok r(1)])
      then show ?thesis using ins_view [OF Cons.prems(1) v i] Ins r(2) v by simp
    next
      case (Some p)
      obtain fl1 where r: "tab_run lkp ins del upd ops t h = (fl1, t', h')" "fl = False # fl1"
        using Cons.prems(3) Ins Some by (auto split: prod.splits)
      then show ?thesis using IH [OF Cons.prems(1) ok r(1)] Ins by simp
    qed
  next
    case (Del k)
    show ?thesis
    proof (cases "lkp t k")
      case None
      obtain fl1 where r: "tab_run lkp ins del upd ops t h = (fl1, t', h')" "fl = False # fl1"
        using Cons.prems(3) Del None by (auto split: prod.splits)
      then show ?thesis using IH [OF Cons.prems(1) ok r(1)] lkp_None [OF Cons.prems(1) None] Del
        by (simp add: fun_upd_idem)
    next
      case (Some p)
      obtain v where d: "designates t p k v" using lkp_Some [OF Cons.prems(1) Some] by blast
      obtain fl1 where r: "tab_run lkp ins del upd ops (del t p) h = (fl1, t', h')" "fl = True # fl1"
        using Cons.prems(3) Del Some by (auto split: prod.splits)
      then show ?thesis
        using IH [OF del_inv [OF Cons.prems(1) d] ok r(1)] del_view [OF Cons.prems(1) d] Del
        by (simp del: fun_upd_apply)
    qed
  next
    case (Mod k f)
    have f: "keeps f" using Cons.prems(2) Mod by (simp add: op_ok_def)
    show ?thesis
    proof (cases "lkp t k")
      case None
      obtain fl1 where r: "tab_run lkp ins del upd ops t h = (fl1, t', h')" "fl = False # fl1"
        using Cons.prems(3) Mod None by (auto split: prod.splits)
      then show ?thesis using IH [OF Cons.prems(1) ok r(1)] lkp_None [OF Cons.prems(1) None] Mod by simp
    next
      case (Some p)
      obtain v where d: "designates t p k v" "view t k = Some v"
        using lkp_Some [OF Cons.prems(1) Some] by blast
      obtain fl1 where r: "tab_run lkp ins del upd ops (upd t p f) h = (fl1, t', h')" "fl = True # fl1"
        using Cons.prems(3) Mod Some by (auto split: prod.splits)
      then show ?thesis
        using IH [OF upd_inv [OF Cons.prems(1) d(1) f] ok r(1)] upd_view [OF Cons.prems(1) d(1) f] d(2) Mod
        by (simp del: fun_upd_apply)
    qed
  qed
qed simp

end

end
