(* ===== verification/Mux_Stream_Table.thy ===== *)
theory Mux_Stream_Table
  imports Mux_Probing Mux_Sid_Table Mux_Frame
begin

text \<open>
  The stream table of a session (\<open>mux_stream\<close>, \<open>mix_sid\<close>, \<open>st_find\<close>, \<open>st_grow\<close>,
  \<open>st_insert\<close>, \<open>st_remove\<close> and \<open>set_blocked\<close> of \<^verbatim>\<open>src/libmux/src/session.c\<close>): open
  addressing with tombstones, and the counters the session keeps beside it. The four
  fields \<open>tab\<close>, \<open>tab_count\<close>, \<open>tab_tombs\<close> and \<open>blocked_count\<close> of \<open>mux_session\<close> are the
  record \<open>stream_tab\<close>; \<open>tab_cap\<close> is the length of \<open>tab\<close>. A \<open>mux_stream *\<close> is an index
  into \<open>tab\<close>. The invariant \<open>tab_inv\<close> makes the table a finite map from stream ids to
  streams, \<open>tab_view\<close>, and the counters exact.
\<close>

unbundle bit_operations_syntax

section \<open>Data\<close>

datatype slot = SLOT_EMPTY | SLOT_USED | SLOT_TOMB
datatype life = LIFE_OPEN | LIFE_HCL_LOCAL | LIFE_HCL_REMOTE

record mux_stream =
  st_sid :: u32
  st_slot :: slot
  st_life :: life
  st_send_blocked :: bool
  st_send_win :: int
  st_recv_win :: int
  st_recv_pending :: int

record stream_tab =
  tab :: "mux_stream list"
  tab_count :: nat
  tab_tombs :: nat
  blocked_count :: nat

abbreviation tab_cap :: "stream_tab \<Rightarrow> nat" where
  "tab_cap t \<equiv> length (tab t)"

text \<open>A cell as \<^verbatim>\<open>calloc\<close> or \<^verbatim>\<open>memset\<close> leaves it.\<close>

definition st_zero :: mux_stream where
  "st_zero = \<lparr>st_sid = 0, st_slot = SLOT_EMPTY, st_life = LIFE_OPEN, st_send_blocked = False,
     st_send_win = 0, st_recv_win = 0, st_recv_pending = 0\<rparr>"

definition stream_tab_zero :: stream_tab where
  "stream_tab_zero = \<lparr>tab = [], tab_count = 0, tab_tombs = 0, blocked_count = 0\<rparr>"

section \<open>Operations\<close>

definition mix_sid :: "u32 \<Rightarrow> u64" where
  "mix_sid sid = drop_bit 32 ((ucast sid :: u64) * 0x9e3779b97f4a7c15)"

text \<open>\<^verbatim>\<open>mix_sid(sid) & mask\<close>, an index.\<close>

definition st_home :: "u32 \<Rightarrow> nat \<Rightarrow> nat" where
  "st_home sid m = unat (mix_sid sid AND of_nat m)"

text \<open>The loop of \<open>st_find\<close>, with the number of probes still allowed.\<close>

fun st_find_loop :: "mux_stream list \<Rightarrow> u32 \<Rightarrow> nat \<Rightarrow> nat \<Rightarrow> nat option" where
  "st_find_loop tb sid i 0 = None"
| "st_find_loop tb sid i (Suc probes) =
     (let e = tb ! i; mask = length tb - 1
      in if st_slot e = SLOT_EMPTY then None
         else if st_slot e = SLOT_USED \<and> st_sid e = sid then Some i
         else st_find_loop tb sid ((i + 1) AND mask) probes)"

definition st_find :: "stream_tab \<Rightarrow> u32 \<Rightarrow> nat option" where
  "st_find t sid =
     (if tab_cap t = 0 then None
      else let mask = tab_cap t - 1
           in st_find_loop (tab t) sid (st_home sid mask) (mask + 1))"

text \<open>
  The inner \<^verbatim>\<open>while\<close> of \<open>st_grow\<close>: the first free cell. The C loop has no bound; \<open>None\<close>
  after a full round is the loop not ending, and \<open>st_grow_spec\<close> rests on it never occurring.
\<close>

fun st_free_slot :: "mux_stream list \<Rightarrow> nat \<Rightarrow> nat \<Rightarrow> nat option" where
  "st_free_slot nt j 0 = None"
| "st_free_slot nt j (Suc fuel) =
     (if st_slot (nt ! j) = SLOT_USED then st_free_slot nt ((j + 1) AND (length nt - 1)) fuel
      else Some j)"

definition st_place :: "mux_stream list \<Rightarrow> mux_stream \<Rightarrow> mux_stream list" where
  "st_place nt e =
     (case st_free_slot nt (st_home (st_sid e) (length nt - 1)) (length nt) of
        Some j \<Rightarrow> nt[j := e]
      | None \<Rightarrow> nt)"

fun st_rehash :: "mux_stream list \<Rightarrow> mux_stream list \<Rightarrow> mux_stream list" where
  "st_rehash nt [] = nt"
| "st_rehash nt (e # es) =
     (if st_slot e \<noteq> SLOT_USED then st_rehash nt es else st_rehash (st_place nt e) es)"

definition st_grow :: "stream_tab \<Rightarrow> nat \<Rightarrow> heap \<Rightarrow> mux_err option \<times> stream_tab \<times> heap" where
  "st_grow t want_cap h =
     (let ncap = grow_cap (if tab_cap t \<noteq> 0 then tab_cap t else 64) want_cap
      in case alloc h of
           (False, h') \<Rightarrow> (Some MUX_ERR_NOMEM, t, h')
         | (True, h') \<Rightarrow>
             (None, t\<lparr>tab := st_rehash (replicate ncap st_zero) (tab t), tab_tombs := 0\<rparr>, h'))"

text \<open>
  The probe loop of \<open>st_insert\<close>: the cell to use and whether it is a recycled tombstone.
\<close>

fun st_insert_loop :: "mux_stream list \<Rightarrow> nat \<Rightarrow> nat option \<Rightarrow> nat \<Rightarrow> (nat \<times> bool) option" where
  "st_insert_loop tb i first_tomb 0 = None"
| "st_insert_loop tb i first_tomb (Suc probes) =
     (let e = tb ! i; mask = length tb - 1
      in if st_slot e = SLOT_EMPTY then
           (case first_tomb of Some j \<Rightarrow> Some (j, True) | None \<Rightarrow> Some (i, False))
         else
           let first_tomb = (if st_slot e = SLOT_TOMB \<and> first_tomb = None then Some i else first_tomb)
           in st_insert_loop tb ((i + 1) AND mask) first_tomb probes)"

definition st_insert :: "stream_tab \<Rightarrow> u32 \<Rightarrow> heap \<Rightarrow> nat option \<times> stream_tab \<times> heap" where
  "st_insert t sid h =
     (let (r, t, h) =
        (if (tab_count t + tab_tombs t + 1) * 4 \<ge> tab_cap t * 3 then
           let want = (tab_count t + 1) * 2; want = (if want < 64 then 64 else want)
           in st_grow t want h
         else (None, t, h))
      in case r of
           Some _ \<Rightarrow> (None, t, h)
         | None \<Rightarrow>
             let mask = tab_cap t - 1
             in case st_insert_loop (tab t) (st_home sid mask) None (mask + 1) of
                  None \<Rightarrow> (None, t, h)
                | Some (dst, recycled) \<Rightarrow>
                    (Some dst,
                     t\<lparr>tab := (tab t)[dst := st_zero\<lparr>st_sid := sid, st_slot := SLOT_USED\<rparr>],
                       tab_tombs := (if recycled then tab_tombs t - 1 else tab_tombs t),
                       tab_count := tab_count t + 1\<rparr>, h))"

definition st_remove :: "stream_tab \<Rightarrow> nat \<Rightarrow> stream_tab" where
  "st_remove t i =
     (let e = tab t ! i
      in t\<lparr>tab := (tab t)[i := e\<lparr>st_send_blocked := False, st_slot := SLOT_TOMB\<rparr>],
           blocked_count := (if st_send_blocked e then blocked_count t - 1 else blocked_count t),
           tab_count := tab_count t - 1, tab_tombs := tab_tombs t + 1\<rparr>)"

definition set_blocked :: "stream_tab \<Rightarrow> nat \<Rightarrow> bool \<Rightarrow> stream_tab" where
  "set_blocked t i blocked =
     (let e = tab t ! i
      in if blocked \<and> \<not> st_send_blocked e then
           t\<lparr>tab := (tab t)[i := e\<lparr>st_send_blocked := True\<rparr>], blocked_count := blocked_count t + 1\<rparr>
         else if \<not> blocked \<and> st_send_blocked e then
           t\<lparr>tab := (tab t)[i := e\<lparr>st_send_blocked := False\<rparr>], blocked_count := blocked_count t - 1\<rparr>
         else t)"

text \<open>An assignment to fields of \<open>*st\<close> other than the three that the counters depend on.\<close>

definition st_upd :: "stream_tab \<Rightarrow> nat \<Rightarrow> (mux_stream \<Rightarrow> mux_stream) \<Rightarrow> stream_tab" where
  "st_upd t i f = t\<lparr>tab := (tab t)[i := f (tab t ! i)]\<rparr>"

section \<open>Invariant and abstraction\<close>

definition st_emp :: "mux_stream \<Rightarrow> bool" where
  "st_emp e \<longleftrightarrow> st_slot e = SLOT_EMPTY"

definition st_key :: "mux_stream \<Rightarrow> u32 option" where
  "st_key e = (if st_slot e = SLOT_USED then Some (st_sid e) else None)"

abbreviation st_used :: "mux_stream \<Rightarrow> bool" where
  "st_used e \<equiv> st_slot e = SLOT_USED"

abbreviation st_blk :: "mux_stream \<Rightarrow> bool" where
  "st_blk e \<equiv> st_slot e = SLOT_USED \<and> st_send_blocked e"

abbreviation home_of :: "u32 \<Rightarrow> nat" where
  "home_of sid \<equiv> unat (mix_sid sid)"

definition tab_view :: "stream_tab \<Rightarrow> u32 \<Rightarrow> mux_stream option" where
  "tab_view t = table_view st_key (tab t)"

definition tab_inv :: "stream_tab \<Rightarrow> bool" where
  "tab_inv t \<longleftrightarrow> probe_inv st_emp st_key home_of (tab t) \<and>
     (tab_cap t = 0 \<or> (\<exists>k \<ge> 6. tab_cap t = 2 ^ k)) \<and>
     tab_count t = cnt st_used (tab t) \<and>
     tab_tombs t = cnt (\<lambda>e. st_slot e = SLOT_TOMB) (tab t) \<and>
     blocked_count t = cnt st_blk (tab t) \<and>
     (tab_cap t = 0 \<or> (tab_count t + tab_tombs t) * 4 < tab_cap t * 3)"

interpretation pt: probing st_emp st_key home_of
  by unfold_locales (simp add: st_emp_def st_key_def)

interpretation pu: probing "\<lambda>e. \<not> st_used e" st_key home_of
  by unfold_locales (simp add: st_key_def)

lemma st_key_Some [simp]: "st_key e = Some k \<longleftrightarrow> st_used e \<and> st_sid e = k"
  by (simp add: st_key_def)

lemma st_key_None [simp]: "st_key e = None \<longleftrightarrow> \<not> st_used e"
  by (simp add: st_key_def)

lemma st_zero_sel [simp]:
  "st_slot st_zero = SLOT_EMPTY" "st_send_blocked st_zero = False" "st_life st_zero = LIFE_OPEN"
  "st_send_win st_zero = 0" "st_recv_win st_zero = 0" "st_recv_pending st_zero = 0"
  by (simp_all add: st_zero_def)

lemma tab_inv_zero [simp]: "tab_inv stream_tab_zero" "tab_view stream_tab_zero sid = None"
  by (simp_all add: tab_inv_def stream_tab_zero_def probe_inv_def tab_view_def table_view_def)

lemma tab_inv_cap: "tab_inv t \<Longrightarrow> 0 < tab_cap t \<Longrightarrow> \<exists>k. tab_cap t = 2 ^ k"
  by (auto simp: tab_inv_def)

subsection \<open>The loops are probe scans\<close>

lemma st_home_mod:
  assumes "n = 2 ^ k"
  shows "st_home sid (n - Suc 0) = home_of sid mod n"
proof -
  have "(of_nat (n - Suc 0) :: u64) = mask k"
    using assms of_nat_mask_eq [of k, where ?'a = u64] by (simp add: mask_eq_exp_minus_1)
  then have "st_home sid (n - Suc 0) = unat (take_bit k (mix_sid sid))"
    by (simp add: st_home_def take_bit_eq_mask)
  also have "\<dots> = take_bit k (home_of sid)" by (rule unsigned_take_bit_eq)
  finally show ?thesis using assms by (simp add: take_bit_nat_def)
qed

lemma st_find_loop_scan:
  assumes "length tb = 2 ^ k"
  shows "st_find_loop tb sid i probes =
    (case scan (\<lambda>e. st_emp e \<or> st_key e = Some sid) tb i probes of
       Some j \<Rightarrow> if st_emp (tb ! j) then None else Some j
     | None \<Rightarrow> None)"
proof (induction probes arbitrary: i)
  case (Suc probes)
  then show ?case by (auto simp: Let_def and_mask_mod [OF assms] st_emp_def)
qed simp

lemma st_free_slot_scan:
  assumes "length nt = 2 ^ k"
  shows "st_free_slot nt j fuel = scan (\<lambda>e. \<not> st_used e) nt j fuel"
proof (induction fuel arbitrary: j)
  case (Suc fuel)
  then show ?case using and_mask_mod [OF assms, of "Suc j"] by simp
qed simp

lemma st_find_spec:
  assumes "tab_inv t"
  shows "(case st_find t sid of
      None \<Rightarrow> tab_view t sid = None
    | Some i \<Rightarrow> i < tab_cap t \<and> st_used (tab t ! i) \<and> st_sid (tab t ! i) = sid \<and>
        tab_view t sid = Some (tab t ! i))"
proof (cases "tab_cap t = 0")
  case True
  then show ?thesis by (simp add: st_find_def tab_view_def table_view_def)
next
  case False
  then obtain k where k: "tab_cap t = 2 ^ k" using tab_inv_cap [OF assms] by auto
  have "st_find t sid =
      (case scan (\<lambda>e. st_emp e \<or> st_key e = Some sid) (tab t) (home_of sid mod tab_cap t) (tab_cap t) of
         Some j \<Rightarrow> if st_emp (tab t ! j) then None else Some j | None \<Rightarrow> None)"
  proof -
    have "tab_cap t - 1 + 1 = tab_cap t" using False by simp
    then show ?thesis
      unfolding st_find_def Let_def st_find_loop_scan [OF k]
      using False by (simp add: st_home_mod [OF k] del: st_key_Some)
  qed
  moreover have "probe_inv st_emp st_key home_of (tab t)" using assms by (simp add: tab_inv_def)
  note pt.lookup_cases [OF this, of sid]
  ultimately show ?thesis
    using False by (auto simp: tab_view_def split: option.splits if_splits)
qed

subsection \<open>Growth\<close>

lemma st_place_probe:
  assumes "length nt = 2 ^ k" "st_used e"
  shows "st_place nt e = probe_place (\<lambda>e. \<not> st_used e) (\<lambda>e. home_of (the (st_key e))) nt e"
  using st_home_mod [OF assms(1), of "st_sid e"] assms(2)
  by (simp add: st_place_def probe_place_def st_free_slot_scan [OF assms(1)] st_key_def)

lemma st_rehash_foldl:
  assumes "length nt = 2 ^ k"
  shows "st_rehash nt es =
    foldl (probe_place (\<lambda>e. \<not> st_used e) (\<lambda>e. home_of (the (st_key e)))) nt (filter st_used es)"
  using assms
proof (induction nt es rule: st_rehash.induct)
  case (2 nt e es)
  then show ?case using st_place_probe [OF 2(3), of e]
    by (auto simp: probe_place_def split: option.splits)
qed simp

lemma st_rehash_spec:
  assumes inv: "probe_inv st_emp st_key home_of es" and n: "n = 2 ^ k" "length es \<le> n"
  shows "probe_inv st_emp st_key home_of (st_rehash (replicate n st_zero) es) \<and>
    length (st_rehash (replicate n st_zero) es) = n \<and>
    table_view st_key (st_rehash (replicate n st_zero) es) = table_view st_key es \<and>
    cnt st_used (st_rehash (replicate n st_zero) es) = cnt st_used es \<and>
    cnt st_blk (st_rehash (replicate n st_zero) es) = cnt st_blk es \<and>
    cnt (\<lambda>e. st_slot e = SLOT_TOMB) (st_rehash (replicate n st_zero) es) = 0"
proof -
  let ?z = "replicate n st_zero" and ?es = "filter st_used es"
  have len: "length ?z = 2 ^ k" using n by simp
  have "distinct (map st_key ?es)" using pt.pinv_distinct_keys [OF inv] by simp
  moreover have "length ?es \<le> n" using n(2) length_filter_le [of st_used es] by linarith
  ultimately obtain t' where t': "st_rehash ?z es = t'" "probe_inv (\<lambda>e. \<not> st_used e) st_key home_of t'"
    "length t' = n" "\<forall>k. table_view st_key t' k = table_view st_key ?es k"
    "\<forall>P. (\<forall>e. \<not> st_used e \<longrightarrow> \<not> P e) \<longrightarrow> cnt P t' = cnt P ?z + cnt P ?es" "set t' \<subseteq> set ?z \<union> set ?es"
    using pu.rehash_spec [of ?z ?es] st_rehash_foldl [OF len, of es]
    by (auto simp: pu.pinv_replicate pu.view_replicate)
  have "probe_inv st_emp st_key home_of t'" using t'(2) by (rule probe_inv_mono) (simp add: st_emp_def)
  moreover have "table_view st_key t' = table_view st_key es"
    using t'(4) table_view_filter [of st_key _ st_used es] by (intro ext) simp
  moreover have "cnt st_used t' = cnt st_used es" using t'(5) by simp
  moreover have "cnt st_blk t' = cnt st_blk es" 
  proof -
    have "cnt st_blk ?es = cnt st_blk es" by (induction es) auto
    then show ?thesis using t'(5) by simp
  qed
  moreover have "cnt (\<lambda>e. st_slot e = SLOT_TOMB) t' = 0" using t'(6) by (auto simp: filter_empty_conv)
  ultimately show ?thesis using t'(1,3) by simp
qed

lemma st_grow_spec:
  assumes inv: "tab_inv t" and res: "st_grow t want h = (r, t', h')"
  shows "tab_inv t' \<and> tab_view t' = tab_view t \<and> tab_count t' = tab_count t \<and>
    (r = None \<longrightarrow> want \<le> tab_cap t' \<and> 0 < tab_cap t' \<and> tab_tombs t' = 0)"
proof -
  let ?c = "if tab_cap t \<noteq> 0 then tab_cap t else 64"
  let ?n = "grow_cap ?c want" and ?tb = "st_rehash (replicate (grow_cap ?c want) st_zero) (tab t)"
  have "\<exists>k \<ge> 6. ?n = 2 ^ k"
    using inv unfolding tab_inv_def by (intro grow_cap_pow2_ge) auto
  then obtain k where k: "?n = 2 ^ k" "6 \<le> k" by blast
  have ge: "want \<le> ?n" "tab_cap t \<le> ?n"
    using grow_cap_ge [of ?c want] grow_cap_mono [of ?c want] by (auto split: if_splits)
  note sp = st_rehash_spec [OF _ k(1) ge(2)]
  have p: "probe_inv st_emp st_key home_of (tab t)" using inv by (simp add: tab_inv_def)
  have cnt4: "cnt st_used (tab t) * 4 < ?n * 3"
  proof (cases "tab_cap t = 0")
    case True
    then show ?thesis using k by simp
  next
    case False
    then have "cnt st_used (tab t) * 4 < tab_cap t * 3" using inv by (simp add: tab_inv_def)
    then show ?thesis using ge(2) by linarith
  qed
  let ?t = "t\<lparr>tab := ?tb, tab_tombs := 0\<rparr>"
  have "tab_inv ?t" using inv sp [OF p] k cnt4 by (auto simp: tab_inv_def)
  moreover have "tab_view ?t = tab_view t" using sp [OF p] by (simp add: tab_view_def)
  moreover have "want \<le> tab_cap ?t \<and> 0 < tab_cap ?t" using sp [OF p] ge(1) k by simp
  moreover have "r = None \<and> t' = ?t \<or> r \<noteq> None \<and> t' = t"
    using res by (auto simp: st_grow_def Let_def split: prod.splits bool.splits)
  ultimately show ?thesis using inv by auto
qed

subsection \<open>Insertion\<close>

lemma st_insert_loop_spec:
  assumes "length tb = 2 ^ k" "\<forall>d' < p. \<not> st_emp (tb ! ((h + d') mod length tb))"
    and "\<And>j. ft = Some j \<Longrightarrow> \<exists>q < p. j = (h + q) mod length tb \<and> st_slot (tb ! j) = SLOT_TOMB"
    and "p \<le> m" "m < length tb" "st_emp (tb ! ((h + m) mod length tb))" "fuel = length tb - p"
  shows "\<exists>dst rec d. st_insert_loop tb ((h + p) mod length tb) ft fuel = Some (dst, rec) \<and>
    d < length tb \<and> dst = (h + d) mod length tb \<and>
    (\<forall>d' < d. \<not> st_emp (tb ! ((h + d') mod length tb))) \<and>
    st_slot (tb ! dst) = (if rec then SLOT_TOMB else SLOT_EMPTY)"
  using assms
proof (induction fuel arbitrary: p ft)
  case 0
  then show ?case by linarith
next
  case (Suc fuel)
  let ?i = "(h + p) mod length tb"
  let ?goal = "\<lambda>dst rec d. st_insert_loop tb ?i ft (Suc fuel) = Some (dst, rec) \<and>
    d < length tb \<and> dst = (h + d) mod length tb \<and>
    (\<forall>d' < d. \<not> st_emp (tb ! ((h + d') mod length tb))) \<and>
    st_slot (tb ! dst) = (if rec then SLOT_TOMB else SLOT_EMPTY)"
  show ?case
  proof (cases "st_emp (tb ! ?i)")
    case True
    show ?thesis
    proof (cases ft)
      case None
      then have "st_insert_loop tb ?i ft (Suc fuel) = Some (?i, False)"
        using True by (simp add: st_emp_def Let_def)
      moreover have "p < length tb" using Suc.prems by linarith
      ultimately have "?goal ?i False p" using Suc.prems(2) True by (simp add: st_emp_def)
      then show ?thesis by blast
    next
      case (Some j)
      with Suc.prems(3) obtain q where q: "q < p" "j = (h + q) mod length tb" "st_slot (tb ! j) = SLOT_TOMB"
        by blast
      have "st_insert_loop tb ?i ft (Suc fuel) = Some (j, True)"
        using True Some by (simp add: st_emp_def Let_def)
      moreover have "q < length tb" using Suc.prems q by linarith
      moreover have "\<forall>d' < q. \<not> st_emp (tb ! ((h + d') mod length tb))" using Suc.prems(2) q(1) by simp
      ultimately have "?goal j True q" using q by simp
      then show ?thesis by blast
    qed
  next
    case False
    let ?ft = "if st_slot (tb ! ?i) = SLOT_TOMB \<and> ft = None then Some ?i else ft"
    have pm: "p \<noteq> m" using False Suc.prems(6) by blast
    have nxt: "(?i + 1) AND (length tb - Suc 0) = (h + Suc p) mod length tb"
      using and_mask_mod [OF Suc.prems(1), of "?i + 1"] by (simp add: mod_Suc_eq)
    have "\<exists>dst rec d. st_insert_loop tb ((h + Suc p) mod length tb) ?ft fuel = Some (dst, rec) \<and>
      d < length tb \<and> dst = (h + d) mod length tb \<and>
      (\<forall>d' < d. \<not> st_emp (tb ! ((h + d') mod length tb))) \<and>
      st_slot (tb ! dst) = (if rec then SLOT_TOMB else SLOT_EMPTY)"
    proof (rule Suc.IH [OF Suc.prems(1)])
      show "\<forall>d' < Suc p. \<not> st_emp (tb ! ((h + d') mod length tb))"
        using Suc.prems(2) False by (auto simp: less_Suc_eq)
      show "\<exists>q < Suc p. j = (h + q) mod length tb \<and> st_slot (tb ! j) = SLOT_TOMB" if "?ft = Some j" for j
        using that Suc.prems(3) by (auto split: if_splits intro: less_SucI)
    qed (use Suc.prems pm in auto)
    then show ?thesis using False nxt by (simp add: st_emp_def Let_def)
  qed
qed

declare st_insert_loop.simps [simp del]

lemma tab_inv_empty_cell:
  assumes "tab_inv t" "0 < tab_cap t"
  shows "\<exists>j < tab_cap t. st_emp (tab t ! j)"
proof -
  let ?P = "\<lambda>e. st_slot e = SLOT_USED \<or> st_slot e = SLOT_TOMB"
  have "cnt ?P (tab t) = tab_count t + tab_tombs t"
    using assms(1) by (subst cnt_disj) (auto simp: tab_inv_def)
  then have "cnt ?P (tab t) < tab_cap t"
    using assms by (auto simp: tab_inv_def)
  from cnt_less [OF this] show ?thesis by (metis slot.exhaust st_emp_def)
qed

definition st_fresh :: "u32 \<Rightarrow> mux_stream" where
  "st_fresh sid = st_zero\<lparr>st_sid := sid, st_slot := SLOT_USED\<rparr>"

lemma st_fresh_sel [simp]:
  "st_sid (st_fresh sid) = sid" "st_used (st_fresh sid)" "\<not> st_send_blocked (st_fresh sid)"
  "st_life (st_fresh sid) = LIFE_OPEN" "st_send_win (st_fresh sid) = 0"
  "st_recv_win (st_fresh sid) = 0" "st_recv_pending (st_fresh sid) = 0"
  by (simp_all add: st_fresh_def)

text \<open>The store into the cell the loop found.\<close>

lemma tab_inv_store:
  assumes inv: "tab_inv t" and fresh: "tab_view t sid = None"
    and room: "(tab_count t + tab_tombs t + 1) * 4 < tab_cap t * 3"
    and d: "d < tab_cap t" "dst = (home_of sid + d) mod tab_cap t"
      "\<forall>d' < d. \<not> st_emp (tab t ! ((home_of sid + d') mod tab_cap t))"
    and slot: "st_slot (tab t ! dst) = (if rec then SLOT_TOMB else SLOT_EMPTY)"
    and t': "t' = t\<lparr>tab := (tab t)[dst := st_fresh sid],
      tab_tombs := (if rec then tab_tombs t - 1 else tab_tombs t), tab_count := tab_count t + 1\<rparr>"
  shows "tab_inv t' \<and> tab_view t' = (tab_view t)(sid \<mapsto> st_fresh sid)"
proof -
  have lt: "dst < tab_cap t" unfolding d(2) by (rule mod_less_divisor) (use d(1) in linarith)
  have p: "probe_inv st_emp st_key home_of (tab t)" using inv by (simp add: tab_inv_def)
  have old: "st_key (tab t ! dst) = None" using slot by (auto split: if_splits)
  have p': "probe_inv st_emp st_key home_of ((tab t)[dst := st_fresh sid])"
    using pt.pinv_insert [OF p d _ old, of "st_fresh sid"] fresh
    by (simp add: tab_view_def pt.view_None)
  have "tab_view t' = (tab_view t)(sid \<mapsto> st_fresh sid)"
    using pt.view_update [OF p p' lt, of sid] old by (simp add: t' tab_view_def)
  moreover have "cnt st_used (tab t') = tab_count t + 1" "cnt st_blk (tab t') = blocked_count t"
    using cnt_update [OF lt, of st_used "st_fresh sid"] cnt_update [OF lt, of st_blk "st_fresh sid"] inv slot
    by (auto simp: t' tab_inv_def split: if_splits)
  moreover have "cnt (\<lambda>e. st_slot e = SLOT_TOMB) (tab t') = tab_tombs t'"
    using cnt_update [OF lt, of "\<lambda>e. st_slot e = SLOT_TOMB" "st_fresh sid"] inv slot
    by (auto simp: t' tab_inv_def split: if_splits)
  ultimately show ?thesis using inv p' room by (auto simp: tab_inv_def t')
qed

lemma st_insert_step:
  assumes g: "(if (tab_count t + tab_tombs t + 1) * 4 \<ge> tab_cap t * 3
      then st_grow t (if (tab_count t + 1) * 2 < 64 then 64 else (tab_count t + 1) * 2) h
      else (None, t, h)) = (None, t1, h1)"
    and l: "st_insert_loop (tab t1) (st_home sid (tab_cap t1 - 1)) None (tab_cap t1 - 1 + 1) = Some (dst, rc)"
  shows "st_insert t sid h = (Some dst, t1\<lparr>tab := (tab t1)[dst := st_fresh sid],
        tab_tombs := (if rc then tab_tombs t1 - 1 else tab_tombs t1), tab_count := tab_count t1 + 1\<rparr>, h1)"
  unfolding st_insert_def Let_def st_fresh_def [symmetric] g prod.case option.case l by (rule refl)

text \<open>After the growth step there is room, and the probe loop finds a cell.\<close>

lemma st_insert_room:
  assumes inv: "tab_inv t"
    and g: "(if (tab_count t + tab_tombs t + 1) * 4 \<ge> tab_cap t * 3
      then st_grow t (if (tab_count t + 1) * 2 < 64 then 64 else (tab_count t + 1) * 2) h
      else (None, t, h)) = (r1, t1, h1)"
  shows "tab_inv t1 \<and> tab_view t1 = tab_view t \<and> tab_count t1 = tab_count t \<and>
    (r1 = None \<longrightarrow> (tab_count t1 + tab_tombs t1 + 1) * 4 < tab_cap t1 * 3)"
proof (cases "(tab_count t + tab_tombs t + 1) * 4 \<ge> tab_cap t * 3")
  case True
  with g have gr: "st_grow t (if (tab_count t + 1) * 2 < 64 then 64 else (tab_count t + 1) * 2) h = (r1, t1, h1)"
    by simp
  show ?thesis using st_grow_spec [OF inv gr] by (auto split: if_splits)
next
  case False
  with g inv show ?thesis by auto
qed

lemma st_insert_cell:
  assumes inv: "tab_inv t" and cap: "0 < tab_cap t"
  shows "\<exists>dst rec d. st_insert_loop (tab t) (st_home sid (tab_cap t - 1)) None (tab_cap t - 1 + 1)
      = Some (dst, rec) \<and> d < tab_cap t \<and> dst = (home_of sid + d) mod tab_cap t \<and>
    (\<forall>d' < d. \<not> st_emp (tab t ! ((home_of sid + d') mod tab_cap t))) \<and>
    st_slot (tab t ! dst) = (if rec then SLOT_TOMB else SLOT_EMPTY)"
proof -
  let ?n = "tab_cap t"
  obtain k where k: "?n = 2 ^ k" using tab_inv_cap assms by blast
  obtain j where "j < ?n" "st_emp (tab t ! j)" using tab_inv_empty_cell assms by blast
  with full_round [of j ?n "home_of sid"] obtain m where
    m: "m < ?n" "st_emp (tab t ! ((home_of sid + m) mod ?n))" by blast
  have "?n - 1 + 1 = ?n" "st_home sid (?n - 1) = (home_of sid + 0) mod ?n"
    using cap st_home_mod [OF k, of sid] by simp_all
  then show ?thesis
    using st_insert_loop_spec [OF k, of 0 "home_of sid" None m ?n] m by simp
qed

lemma st_insert_spec:
  assumes inv: "tab_inv t" and fresh: "tab_view t sid = None" and res: "st_insert t sid h = (r, t', h')"
  shows "tab_inv t' \<and> (case r of
      None \<Rightarrow> tab_view t' = tab_view t \<and> tab_count t' = tab_count t
    | Some i \<Rightarrow> i < tab_cap t' \<and> tab t' ! i = st_fresh sid \<and>
        tab_view t' = (tab_view t)(sid \<mapsto> st_fresh sid) \<and> tab_count t' = tab_count t + 1)"
proof -
  obtain r1 t1 h1 where g: "(if (tab_count t + tab_tombs t + 1) * 4 \<ge> tab_cap t * 3
      then st_grow t (if (tab_count t + 1) * 2 < 64 then 64 else (tab_count t + 1) * 2) h
      else (None, t, h)) = (r1, t1, h1)"
    by (metis prod_cases3)
  note t1 = st_insert_room [OF inv g]
  show ?thesis
  proof (cases r1)
    case (Some e)
    have "r = None \<and> t' = t1"
      using res g Some unfolding st_insert_def Let_def by auto
    then show ?thesis using t1 by auto
  next
    case None
    have cap: "0 < tab_cap t1" using t1 None by linarith
    obtain dst rc d where l: "st_insert_loop (tab t1) (st_home sid (tab_cap t1 - 1)) None (tab_cap t1 - 1 + 1)
        = Some (dst, rc)"
      and d: "d < tab_cap t1" "dst = (home_of sid + d) mod tab_cap t1"
        "\<forall>d' < d. \<not> st_emp (tab t1 ! ((home_of sid + d') mod tab_cap t1))"
      and slot: "st_slot (tab t1 ! dst) = (if rc then SLOT_TOMB else SLOT_EMPTY)"
      using st_insert_cell [OF _ cap, of sid] t1 by blast
    have "r = Some dst \<and> t' = t1\<lparr>tab := (tab t1)[dst := st_fresh sid],
        tab_tombs := (if rc then tab_tombs t1 - 1 else tab_tombs t1), tab_count := tab_count t1 + 1\<rparr>"
      using st_insert_step [OF g [unfolded None] l] res by simp
    moreover have "dst < tab_cap t1" using d(1,2) cap by simp
    ultimately show ?thesis
      using tab_inv_store [OF _ _ _ d slot] t1 None fresh by auto
  qed
qed

lemma st_insert_total:
  assumes "tab_inv t" "tab_view t sid = None" "st_insert t sid [] = (r, t', h')"
  shows "r \<noteq> None \<and> h' = []"
proof -
  let ?full = "(tab_count t + tab_tombs t + 1) * 4 \<ge> tab_cap t * 3"
  let ?want = "if (tab_count t + 1) * 2 < 64 then 64 else (tab_count t + 1) * 2"
  obtain t1 where g: "(if ?full then st_grow t ?want [] else (None, t, [])) = (None, t1, [])"
    by (cases ?full) (simp_all add: st_grow_def Let_def)
  obtain dst rc where l: "st_insert_loop (tab t1) (st_home sid (tab_cap t1 - 1)) None (tab_cap t1 - 1 + 1)
      = Some (dst, rc)"
  proof -
    have "tab_inv t1" "0 < tab_cap t1" using st_insert_room [OF assms(1) g] by (auto intro: Suc_leI)
    then show ?thesis using st_insert_cell [of t1 sid] that by blast
  qed
  show ?thesis using st_insert_step [OF g l] assms(3) by auto
qed

subsection \<open>Removal and update through a pointer\<close>

definition at_sid :: "stream_tab \<Rightarrow> nat \<Rightarrow> u32 \<Rightarrow> mux_stream \<Rightarrow> bool" where
  "at_sid t i sid e \<longleftrightarrow> i < tab_cap t \<and> tab t ! i = e \<and> st_used e \<and> st_sid e = sid"

definition keeps_id :: "(mux_stream \<Rightarrow> mux_stream) \<Rightarrow> bool" where
  "keeps_id f \<longleftrightarrow> (\<forall>e. st_sid (f e) = st_sid e \<and> st_slot (f e) = st_slot e \<and> st_send_blocked (f e) = st_send_blocked e)"

lemma at_sid_view: "tab_inv t \<Longrightarrow> at_sid t i sid e \<Longrightarrow> tab_view t sid = Some e"
  using pt.view_iff [of "tab t" i sid] by (simp add: tab_inv_def at_sid_def tab_view_def)

lemma st_find_Some: "tab_inv t \<Longrightarrow> st_find t sid = Some i \<Longrightarrow> at_sid t i sid (tab t ! i)"
  using st_find_spec [of t sid] by (simp add: at_sid_def)

lemma st_find_None: "tab_inv t \<Longrightarrow> st_find t sid = None \<Longrightarrow> tab_view t sid = None"
  using st_find_spec [of t sid] by simp

text \<open>Overwriting the cell of a live stream.\<close>

lemma tab_overwrite:
  assumes inv: "tab_inv t" and at: "at_sid t i sid e" and e': "st_slot e' \<noteq> SLOT_EMPTY" "st_sid e' = sid"
    and t': "t' = t\<lparr>tab := (tab t)[i := e'], tab_count := c, tab_tombs := m, blocked_count := b\<rparr>"
    and c: "c + 1 = tab_count t + of_bool (st_used e')" "c + m = tab_count t + tab_tombs t"
    and b: "b + of_bool (st_send_blocked e) = blocked_count t + of_bool (st_blk e')"
  shows "tab_inv t' \<and> tab_view t' = (tab_view t)(sid := if st_used e' then Some e' else None)"
proof -
  have i: "i < tab_cap t" "tab t ! i = e" "st_used e" "st_sid e = sid" using at by (auto simp: at_sid_def)
  have p: "probe_inv st_emp st_key home_of (tab t)" using inv by (simp add: tab_inv_def)
  have p': "probe_inv st_emp st_key home_of ((tab t)[i := e'])"
    using pt.pinv_update [OF p i(1), of e'] i e' by (cases "st_used e'") (auto simp: st_emp_def st_key_def)
  have "tab_view t' = (tab_view t)(sid := if st_used e' then Some e' else None)"
    using pt.view_update [OF p p' i(1), of sid] i e' by (simp add: t' tab_view_def)
  moreover have "cnt st_used (tab t') = c" "cnt st_blk (tab t') = b"
    using cnt_update [OF i(1), of st_used e'] cnt_update [OF i(1), of st_blk e'] inv i c(1) b
    by (auto simp: t' tab_inv_def)
  moreover have "cnt (\<lambda>e. st_slot e = SLOT_TOMB) (tab t') = m"
    using cnt_update [OF i(1), of "\<lambda>e. st_slot e = SLOT_TOMB" e'] inv i c e'
    by (cases "st_slot e'") (auto simp: t' tab_inv_def)
  ultimately show ?thesis using inv p' c(2) by (auto simp: tab_inv_def t')
qed

lemma st_remove_spec:
  assumes inv: "tab_inv t" and at: "at_sid t i sid e"
  shows "tab_inv (st_remove t i) \<and> tab_view (st_remove t i) = (tab_view t)(sid := None) \<and>
    tab_count (st_remove t i) + 1 = tab_count t"
proof -
  have i: "i < tab_cap t" "tab t ! i = e" "st_used e" "st_sid e = sid" using at by (auto simp: at_sid_def)
  have pos: "0 < tab_count t" "st_send_blocked e \<Longrightarrow> 0 < blocked_count t"
    using inv cnt_pos [OF i(1), of st_used] cnt_pos [OF i(1), of st_blk] i
    by (auto simp: tab_inv_def)
  show ?thesis
    using tab_overwrite [OF inv at, where e' = "e\<lparr>st_send_blocked := False, st_slot := SLOT_TOMB\<rparr>"
        and t' = "st_remove t i" and c = "tab_count t - 1" and m = "tab_tombs t + 1"
        and b = "if st_send_blocked e then blocked_count t - 1 else blocked_count t"]
      i pos by (auto simp: st_remove_def Let_def)
qed

lemma set_blocked_spec:
  assumes inv: "tab_inv t" and at: "at_sid t i sid e"
  shows "tab_inv (set_blocked t i b) \<and>
    tab_view (set_blocked t i b) = (tab_view t)(sid \<mapsto> e\<lparr>st_send_blocked := b\<rparr>) \<and>
    tab_count (set_blocked t i b) = tab_count t \<and>
    at_sid (set_blocked t i b) i sid (e\<lparr>st_send_blocked := b\<rparr>)"
proof -
  have i: "i < tab_cap t" "tab t ! i = e" "st_used e" "st_sid e = sid" using at by (auto simp: at_sid_def)
  have pos: "st_send_blocked e \<Longrightarrow> 0 < blocked_count t"
    using inv cnt_pos [OF i(1), of st_blk] i by (auto simp: tab_inv_def)
  show ?thesis
  proof (cases "st_send_blocked e = b")
    case True
    then have "e\<lparr>st_send_blocked := b\<rparr> = e" by (cases e) simp
    moreover have "set_blocked t i b = t" using True i by (auto simp: set_blocked_def Let_def)
    ultimately show ?thesis using inv at at_sid_view [OF inv at] by (simp add: fun_upd_idem)
  next
    case False
    let ?b = "if b then blocked_count t + 1 else blocked_count t - 1"
    have sb: "set_blocked t i b = t\<lparr>tab := (tab t)[i := e\<lparr>st_send_blocked := b\<rparr>], blocked_count := ?b\<rparr>"
      using False i by (auto simp: set_blocked_def Let_def)
    show ?thesis
      unfolding sb
      using tab_overwrite [OF inv at, where e' = "e\<lparr>st_send_blocked := b\<rparr>" and t' = "set_blocked t i b"
          and c = "tab_count t" and m = "tab_tombs t" and b = ?b] False i pos
      by (auto simp: sb at_sid_def)
  qed
qed

lemma st_upd_spec:
  assumes inv: "tab_inv t" and at: "at_sid t i sid e" and f: "keeps_id f"
  shows "tab_inv (st_upd t i f) \<and> tab_view (st_upd t i f) = (tab_view t)(sid \<mapsto> f e) \<and>
    tab_count (st_upd t i f) = tab_count t \<and> at_sid (st_upd t i f) i sid (f e)"
proof -
  have i: "i < tab_cap t" "tab t ! i = e" "st_used e" "st_sid e = sid" using at by (auto simp: at_sid_def)
  have fe: "st_sid (f e) = sid" "st_slot (f e) = SLOT_USED" "st_send_blocked (f e) = st_send_blocked e"
    using f i by (auto simp: keeps_id_def)
  show ?thesis
    using tab_overwrite [OF inv at, where e' = "f e" and t' = "st_upd t i f" and c = "tab_count t"
        and m = "tab_tombs t" and b = "blocked_count t"] i fe
    by (auto simp: st_upd_def at_sid_def)
qed

lemma st_insert_contract:
  assumes "tab_inv t" "tab_view t k = None" "st_insert t k h = (r, t', h')"
  shows "tab_inv t'" "tab_view t' = (if r = None then tab_view t else (tab_view t)(k \<mapsto> st_fresh k))"
  using st_insert_spec [OF assms] by (auto split: option.splits)

interpretation stt: sid_table tab_inv tab_view at_sid st_find st_insert st_remove st_upd st_fresh keeps_id
proof (standard, goal_cases)
  case 1 then show ?case by (rule st_find_None)
next
  case 2 then show ?case using st_find_Some at_sid_view by blast
next
  case 3 then show ?case by (rule st_insert_contract(1))
next
  case 4 then show ?case by (rule st_insert_contract(2))
next
  case 5 then show ?case by (rule st_insert_total)
next
  case 6 then show ?case using st_remove_spec by blast
next
  case 7 then show ?case using st_remove_spec by blast
next
  case 8 then show ?case using st_upd_spec by blast
next
  case 9 then show ?case using st_upd_spec by blast
qed

lemma tab_count_card: "tab_inv t \<Longrightarrow> tab_count t = card (dom (tab_view t))"
  using pt.view_card [of "tab t"] by (simp add: tab_inv_def tab_view_def [abs_def])

section \<open>The table is a finite map\<close>

text \<open>
  C2. Whatever sequence of insertions, removals and field updates a session performs on its
  stream table, with growth, tombstones and allocation failures, the table behaves like a
  finite map from stream ids to cells: a lookup finds a cell exactly for the ids the map
  has, and finds the map's cell; the live-stream counter is the size of the map.
\<close>

theorem stream_table_refines_map:
  assumes "list_all (op_ok keeps_id) ops"
    and "tab_run st_find st_insert st_remove st_upd ops stream_tab_zero h = (fl, t, h')"
    and m: "m = map_run st_fresh ops fl (\<lambda>_. None)"
  shows "tab_inv t \<and> tab_count t = card (dom m) \<and>
    (case st_find t sid of None \<Rightarrow> m sid = None | Some i \<Rightarrow> i < tab_cap t \<and> m sid = Some (tab t ! i))"
proof -
  have "tab_view stream_tab_zero = (\<lambda>_. None)" by (rule ext) simp
  then have "tab_inv t \<and> tab_view t = m"
    using stt.run_refines [OF tab_inv_zero(1) assms(1,2)] by (simp only: m)
  then show ?thesis using st_find_spec [of t sid] tab_count_card [of t] by (auto split: option.splits)
qed

definition wit_ops :: "(u32, mux_stream) tab_op list" where
  "wit_ops = [Ins 1, Ins 3, Mod 3 (\<lambda>e. e\<lparr>st_send_win := 7\<rparr>), Del 1, Ins 5]"

theorem stream_table_refines_map_witness:
  "case tab_run st_find st_insert st_remove st_upd wit_ops stream_tab_zero [] of (fl, t, h') \<Rightarrow>
     tab_inv t \<and> tab_count t = 2 \<and> map_option (\<lambda>i. st_send_win (tab t ! i)) (st_find t 3) = Some 7"
proof -
  let ?r = "tab_run st_find st_insert st_remove st_upd wit_ops stream_tab_zero []"
  obtain fl t h' where r: "?r = (fl, t, h')" by (cases ?r) auto
  have ok: "list_all (op_ok keeps_id) wit_ops" by (simp add: wit_ops_def op_ok_def keeps_id_def)
  have "case ?r of (fl, t, h') \<Rightarrow> tab_count t = 2 \<and>
      map_option (\<lambda>i. st_send_win (tab t ! i)) (st_find t 3) = Some 7" by code_simp
  then show ?thesis using stream_table_refines_map [OF ok r refl, of 3] r by simp
qed

end
