(* ===== verification/Mux_Session.thy ===== *)
theory Mux_Session
  imports Mux_Outbuf Mux_Evq Mux_Stream_Table
begin

text \<open>
  The session engine of \<^verbatim>\<open>src/libmux/src/session.c\<close>: construction, the HELLO handshake,
  the frame handlers, \<open>mux_recv\<close> and the rest of the public API. The C session is mutated
  in place; here every function returns the session after it. A \<open>mux_stream *\<close> is an index
  of the stream table. A \<open>NULL\<close> session pointer, which every API function rejects before
  it looks at anything, has no state and is not a case of the model. Windows are \<open>int64_t\<close>
  in C and \<open>int\<close> here; theory \<open>Mux_Session_Inv\<close> bounds them. The field \<open>s_mem\<close> is not
  in the C structure: it is the allocator the session's calls draw on.
\<close>

unbundle bit_operations_syntax

section \<open>Data\<close>

definition MUX_DEFAULT_INIT_WINDOW :: u32 where "MUX_DEFAULT_INIT_WINDOW = 256 * 1024"
definition MUX_DEFAULT_SESSION_WINDOW :: u32 where "MUX_DEFAULT_SESSION_WINDOW = 16 * 1024 * 1024"
definition MUX_DEFAULT_MAX_STREAMS :: u32 where "MUX_DEFAULT_MAX_STREAMS = 65536"
definition MUX_MAX_DATA_FRAME :: nat where "MUX_MAX_DATA_FRAME = 64 * 1024"
definition MUX_MAX_META :: u32 where "MUX_MAX_META = 8192"
definition MUX_DEFAULT_MAX_OUT_BUFFER :: u32 where "MUX_DEFAULT_MAX_OUT_BUFFER = 64 * 1024 * 1024"
definition MUX_EVENT_QUEUE_SOFT_CAP :: nat where "MUX_EVENT_QUEUE_SOFT_CAP = 4096"
definition HELLO_BLOB_MAX :: nat where "HELLO_BLOB_MAX = 256"

datatype mux_role = MUX_DIALER | MUX_ACCEPTOR

record mux_config =
  cfg_init_window :: u32
  cfg_session_window :: u32
  cfg_max_streams :: u32
  cfg_heartbeat_ms :: u32
  cfg_keepalive_timeout_ms :: u32
  cfg_weight :: u32
  cfg_max_out_buffer :: u32
  cfg_peer_id :: "bytes option"
  cfg_peer_id_len :: nat
  cfg_auth :: "bytes option"
  cfg_auth_len :: nat
  cfg_nonce :: "bytes option"
  cfg_nonce_len :: nat

text \<open>
  Events. A zero-copy view (pointer and length) is a \<open>bytes option\<close>, \<open>None\<close> the \<open>NULL\<close>
  pointer of the zeroed structure. A \<open>STREAM_RESET\<close> queued by \<open>ev_simple\<close> has code 0.
\<close>

record hello_info =
  hi_weight :: u32
  hi_max_streams :: u32
  hi_init_window :: u32
  hi_peer_id :: "bytes option"
  hi_auth :: "bytes option"
  hi_nonce :: "bytes option"

datatype mux_event =
  EV_STREAM_OPENED u32 "bytes option"
| EV_STREAM_DATA u32 "bytes option"
| EV_STREAM_CLOSED u32
| EV_STREAM_RESET u32 u32
| EV_WRITABLE u32
| EV_PEER_HELLO hello_info
| EV_CAPACITY u32
| EV_GOAWAY u32 u32
| EV_FATAL u32

record identity =
  id_peer_id :: bytes
  id_auth :: bytes
  id_nonce :: bytes
  id_weight :: u32

record keepalive =
  ka_heartbeat_ms :: u32
  ka_timeout_ms :: u32
  ka_timer_started :: bool
  ka_ping_outstanding :: bool
  ka_ping_due_ms :: u64
  ka_ping_sent_ms :: u64
  ka_ping_nonce :: u64

record mux_session =
  s_role :: mux_role
  s_dead :: bool
  s_init_window :: u32
  s_session_window :: u32
  s_max_streams :: u32
  s_peer_init_window :: u32
  s_peer_max_streams :: u32
  s_sess_send_win :: int
  s_sess_recv_win :: int
  s_sess_recv_pending :: int
  s_peer_hello_seen :: bool
  s_hello_sent :: bool
  s_local_goaway :: bool
  s_ident :: identity
  s_next_local_sid :: u32
  s_max_remote_sid :: u32
  s_tab :: stream_tab
  s_ka :: keepalive
  s_max_out_buffer :: u32
  s_out :: outbuf
  s_q :: "mux_event evq"
  s_mem :: heap

section \<open>Events and output\<close>

definition ev_push :: "mux_session \<Rightarrow> mux_event \<Rightarrow> mux_session" where
  "ev_push s e = (case evq_push (s_q s) e (s_mem s) of (_, q, h) \<Rightarrow> s\<lparr>s_q := q, s_mem := h\<rparr>)"

definition raise_fatal :: "mux_session \<Rightarrow> u32 \<Rightarrow> mux_session" where
  "raise_fatal s code = (if s_dead s then s else ev_push (s\<lparr>s_dead := True\<rparr>) (EV_FATAL code))"

definition emit ::
    "mux_session \<Rightarrow> u8 \<Rightarrow> u16 \<Rightarrow> u32 \<Rightarrow> bytes option \<Rightarrow> u32 \<Rightarrow> mux_err option \<times> mux_session" where
  "emit s type flags sid payload plen =
     (case ob_reserve (s_out s) (MUX_HEADER_SIZE + unat plen) (unat (s_max_out_buffer s)) (s_mem s) of
        (Some _, ob, h) \<Rightarrow>
          (Some MUX_ERR_NOSPACE, raise_fatal (s\<lparr>s_out := ob, s_mem := h\<rparr>) MUX_CODE_INTERNAL)
      | (None, ob, h) \<Rightarrow>
          (case mux_craft (Some (drop (ob_len ob) (ob_buf ob))) (ob_cap ob - ob_len ob)
                  type flags sid payload plen of
             Inl e \<Rightarrow> (Some e, s\<lparr>s_out := ob, s_mem := h\<rparr>)
           | Inr (n, region) \<Rightarrow>
               (None, s\<lparr>s_out := ob\<lparr>ob_buf := take (ob_len ob) (ob_buf ob) @ region,
                                   ob_len := ob_len ob + n\<rparr>, s_mem := h\<rparr>)))"

section \<open>Handshake\<close>

text \<open>The TLVs of \<open>send_hello\<close>; a blob of length 0 is left out.\<close>

definition hello_tlvs :: "mux_session \<Rightarrow> tlv list" where
  "hello_tlvs s =
     [(MUX_TLV_WEIGHT, be_put32 (id_weight (s_ident s))),
      (MUX_TLV_MAX_STREAMS, be_put32 (s_max_streams s)),
      (MUX_TLV_INIT_WINDOW, be_put32 (s_init_window s)),
      (MUX_TLV_SESSION_WINDOW, be_put32 (s_session_window s)),
      (MUX_TLV_HEARTBEAT_MS, be_put32 (ka_heartbeat_ms (s_ka s)))]
     @ (if id_peer_id (s_ident s) \<noteq> [] then [(MUX_TLV_PEER_ID, id_peer_id (s_ident s))] else [])
     @ (if id_auth (s_ident s) \<noteq> [] then [(MUX_TLV_AUTH, id_auth (s_ident s))] else [])
     @ (if id_nonce (s_ident s) \<noteq> [] then [(MUX_TLV_NONCE, id_nonce (s_ident s))] else [])"

definition send_hello :: "mux_session \<Rightarrow> bool \<Rightarrow> mux_err option \<times> mux_session" where
  "send_hello s ack =
     (case tlv_puts (replicate 1024 0) 1024 0 (hello_tlvs s) of
        Inl e \<Rightarrow> (Some e, s)
      | Inr (off, blob) \<Rightarrow>
          (case emit s (if ack then MUX_T_HELLO_ACK else MUX_T_HELLO) 0 MUX_SID_CONTROL
                  (Some blob) (of_nat off) of
             (None, s') \<Rightarrow> (None, s'\<lparr>s_hello_sent := True\<rparr>)
           | (Some e, s') \<Rightarrow> (Some e, s')))"

definition nz :: "u32 \<Rightarrow> u32 \<Rightarrow> u32" where
  "nz v dflt = (if v \<noteq> 0 then v else dflt)"

definition dup_blob :: "bytes option \<Rightarrow> nat \<Rightarrow> heap \<Rightarrow> bytes option \<times> heap" where
  "dup_blob p n h =
     (case p of
        None \<Rightarrow> (None, h)
      | Some b \<Rightarrow>
          if n = 0 then (None, h)
          else case alloc h of (ok, h') \<Rightarrow> (if ok then Some (take n b) else None, h'))"

text \<open>
  A blob of the configuration: nothing is copied when its length is 0, and a failed copy
  fails the construction.
\<close>

definition own_blob :: "bytes option \<Rightarrow> nat \<Rightarrow> heap \<Rightarrow> bytes option \<times> heap" where
  "own_blob p n h = (if n = 0 then (Some [], h) else dup_blob p n h)"

definition session_init :: "mux_config \<Rightarrow> mux_role \<Rightarrow> heap \<Rightarrow> mux_session" where
  "session_init cfg role h =
     \<lparr>s_role = role, s_dead = False,
      s_init_window = nz (cfg_init_window cfg) MUX_DEFAULT_INIT_WINDOW,
      s_session_window = nz (cfg_session_window cfg) MUX_DEFAULT_SESSION_WINDOW,
      s_max_streams = nz (cfg_max_streams cfg) MUX_DEFAULT_MAX_STREAMS,
      s_peer_init_window = MUX_DEFAULT_INIT_WINDOW,
      s_peer_max_streams = MUX_DEFAULT_MAX_STREAMS,
      s_sess_send_win = uint MUX_DEFAULT_SESSION_WINDOW,
      s_sess_recv_win = uint (nz (cfg_session_window cfg) MUX_DEFAULT_SESSION_WINDOW),
      s_sess_recv_pending = 0,
      s_peer_hello_seen = False, s_hello_sent = False, s_local_goaway = False,
      s_ident = \<lparr>id_peer_id = [], id_auth = [], id_nonce = [], id_weight = cfg_weight cfg\<rparr>,
      s_next_local_sid = (if role = MUX_DIALER then 1 else 2),
      s_max_remote_sid = 0,
      s_tab = stream_tab_zero,
      s_ka = \<lparr>ka_heartbeat_ms = cfg_heartbeat_ms cfg,
              ka_timeout_ms = (if cfg_keepalive_timeout_ms cfg \<noteq> 0 then cfg_keepalive_timeout_ms cfg
                               else if cfg_heartbeat_ms cfg \<noteq> 0 then cfg_heartbeat_ms cfg * 3 else 0),
              ka_timer_started = False, ka_ping_outstanding = False,
              ka_ping_due_ms = 0, ka_ping_sent_ms = 0, ka_ping_nonce = 0\<rparr>,
      s_max_out_buffer = nz (cfg_max_out_buffer cfg) MUX_DEFAULT_MAX_OUT_BUFFER,
      s_out = outbuf_zero, s_q = evq_zero, s_mem = h\<rparr>"

text \<open>\<open>None\<close> is the \<open>NULL\<close> of a failed construction.\<close>

definition mux_session_new :: "mux_config option \<Rightarrow> mux_role \<Rightarrow> heap \<Rightarrow> mux_session option" where
  "mux_session_new cfgp role h =
     (case cfgp of None \<Rightarrow> None | Some cfg \<Rightarrow>
        if cfg_peer_id_len cfg > HELLO_BLOB_MAX \<or> cfg_auth_len cfg > HELLO_BLOB_MAX \<or>
           cfg_nonce_len cfg > HELLO_BLOB_MAX then None
        else case alloc h of (False, h) \<Rightarrow> None | (True, h) \<Rightarrow>
        (case own_blob (cfg_peer_id cfg) (cfg_peer_id_len cfg) h of
           (None, h) \<Rightarrow> None
         | (Some pid, h) \<Rightarrow> (case own_blob (cfg_auth cfg) (cfg_auth_len cfg) h of
           (None, h) \<Rightarrow> None
         | (Some au, h) \<Rightarrow> (case own_blob (cfg_nonce cfg) (cfg_nonce_len cfg) h of
           (None, h) \<Rightarrow> None
         | (Some no, h) \<Rightarrow>
             let s = session_init cfg role h;
                 want = unat (s_max_streams s) * 2;
                 want = (if want < 64 then 64 else want)
             in case st_grow (s_tab s) want (s_mem s) of
                  (Some _, t, h) \<Rightarrow> None
                | (None, t, h) \<Rightarrow>
                    let s = s\<lparr>s_tab := t, s_mem := h,
                              s_ident := (s_ident s)\<lparr>id_peer_id := pid, id_auth := au, id_nonce := no\<rparr>\<rparr>
                    in if role = MUX_DIALER then
                         (case send_hello s False of (None, s) \<Rightarrow> Some s | (Some _, s) \<Rightarrow> None)
                       else Some s))))"

section \<open>Flow-control credit (receive side)\<close>

text \<open>
  \<open>credit_emit\<close> writes through its two pointers; the caller here stores the returned
  window and remainder where they point.
\<close>

function credit_emit :: "mux_session \<Rightarrow> u32 \<Rightarrow> int \<Rightarrow> int \<Rightarrow> mux_session \<times> int \<times> int" where
  "credit_emit s sid win pending =
     (if pending \<le> 0 then (s, win, pending)
      else
        let chunk = (if pending > 0xFFFFFFFF then 0xFFFFFFFF else pending)
        in case emit s MUX_T_WINDOW_UPDATE 0 sid (Some (be_put32 (word_of_int chunk))) 4 of
             (Some _, s') \<Rightarrow> (s', win, pending)
           | (None, s') \<Rightarrow> credit_emit s' sid (win + chunk) (pending - chunk))"
  by pat_completeness auto
termination
  by (relation "measure (\<lambda>(s, sid, win, pending). nat pending)") auto

declare credit_emit.simps [simp del]

definition credit_stream :: "mux_session \<Rightarrow> nat \<Rightarrow> mux_session" where
  "credit_stream s i =
     (let st = tab (s_tab s) ! i
      in if st_recv_pending st \<le> 0 then s
         else if st_recv_pending st * 2 < uint (s_init_window s) then s
         else case credit_emit s (st_sid st) (st_recv_win st) (st_recv_pending st) of
                (s', win, pending) \<Rightarrow>
                  s'\<lparr>s_tab := st_upd (s_tab s') i (\<lambda>e. e\<lparr>st_recv_win := win, st_recv_pending := pending\<rparr>)\<rparr>)"

definition credit_session :: "mux_session \<Rightarrow> mux_session" where
  "credit_session s =
     (if s_sess_recv_pending s \<le> 0 then s
      else if s_sess_recv_pending s * 2 < uint (s_session_window s) then s
      else case credit_emit s MUX_SID_CONTROL (s_sess_recv_win s) (s_sess_recv_pending s) of
             (s', win, pending) \<Rightarrow> s'\<lparr>s_sess_recv_win := win, s_sess_recv_pending := pending\<rparr>)"

section \<open>Frame handlers\<close>

definition close_stream :: "mux_session \<Rightarrow> nat \<Rightarrow> mux_session" where
  "close_stream s i = s\<lparr>s_tab := st_remove (s_tab s) i\<rparr>"

text \<open>\<open>emit\<close> of an RST with the given code, its result ignored.\<close>

definition emit_rst :: "mux_session \<Rightarrow> u32 \<Rightarrow> u32 \<Rightarrow> mux_session" where
  "emit_rst s sid code = snd (emit s MUX_T_DATA MUX_F_RST sid (Some (be_put32 code)) 4)"

definition open_stream_fields :: "mux_session \<Rightarrow> mux_stream \<Rightarrow> mux_stream" where
  "open_stream_fields s e =
     e\<lparr>st_life := LIFE_OPEN, st_send_win := uint (s_peer_init_window s),
       st_recv_win := uint (s_init_window s)\<rparr>"

text \<open>The SYN branch of \<open>on_data\<close>.\<close>

definition on_data_syn :: "mux_session \<Rightarrow> mux_frame \<Rightarrow> mux_session" where
  "on_data_syn s f =
     (let sid = fr_sid f; want_odd = (if s_role s = MUX_DIALER then 0 else 1)
      in if \<not> s_peer_hello_seen s then raise_fatal s MUX_CODE_PROTOCOL
         else if (sid AND 1) \<noteq> want_odd then raise_fatal s MUX_CODE_PROTOCOL
         else if sid = MUX_SID_CONTROL then raise_fatal s MUX_CODE_PROTOCOL
         else if st_find (s_tab s) sid \<noteq> None then raise_fatal s MUX_CODE_PROTOCOL
         else if sid \<le> s_max_remote_sid s then raise_fatal s MUX_CODE_PROTOCOL
         else if fr_len f > MUX_MAX_META then raise_fatal s MUX_CODE_PROTOCOL
         else if tab_count (s_tab s) \<ge> unat (s_max_streams s) \<or> s_local_goaway s then
           (emit_rst s sid MUX_CODE_REFUSED)\<lparr>s_max_remote_sid := sid\<rparr>
         else
           case st_insert (s_tab s) sid (s_mem s) of
             (None, t, h) \<Rightarrow> raise_fatal (s\<lparr>s_tab := t, s_mem := h\<rparr>) MUX_CODE_INTERNAL
           | (Some i, t, h) \<Rightarrow>
               let s = s\<lparr>s_tab := st_upd t i (open_stream_fields s), s_mem := h, s_max_remote_sid := sid\<rparr>;
                   s = ev_push s (EV_STREAM_OPENED sid (fr_payload f))
               in if fr_flags f AND MUX_F_RST \<noteq> 0 then
                    close_stream (ev_push s (EV_STREAM_RESET sid 0)) i
                  else if fr_flags f AND MUX_F_FIN \<noteq> 0 then
                    ev_push (s\<lparr>s_tab := st_upd (s_tab s) i (\<lambda>e. e\<lparr>st_life := LIFE_HCL_REMOTE\<rparr>)\<rparr>)
                      (EV_STREAM_CLOSED sid)
                  else s)"

text \<open>The FIN tail of \<open>on_data\<close>, for a live stream.\<close>

definition on_data_fin :: "mux_session \<Rightarrow> mux_frame \<Rightarrow> nat \<Rightarrow> mux_session" where
  "on_data_fin s f i =
     (if fr_flags f AND MUX_F_FIN \<noteq> 0 then
        let s = ev_push s (EV_STREAM_CLOSED (fr_sid f))
        in if st_life (tab (s_tab s) ! i) = LIFE_HCL_LOCAL then close_stream s i
           else s\<lparr>s_tab := st_upd (s_tab s) i (\<lambda>e. e\<lparr>st_life := LIFE_HCL_REMOTE\<rparr>)\<rparr>
      else s)"

definition on_data :: "mux_session \<Rightarrow> mux_frame \<Rightarrow> mux_session" where
  "on_data s f =
     (if fr_flags f AND MUX_F_SYN \<noteq> 0 then on_data_syn s f
      else if fr_sid f = MUX_SID_CONTROL then raise_fatal s MUX_CODE_PROTOCOL
      else case st_find (s_tab s) (fr_sid f) of
        None \<Rightarrow> s
      | Some i \<Rightarrow>
          let sid = fr_sid f; st = tab (s_tab s) ! i; len = uint (fr_len f)
          in if fr_flags f AND MUX_F_RST \<noteq> 0 then
               close_stream (ev_push s (EV_STREAM_RESET sid
                 (if fr_len f \<ge> 4 then be_get32 (the (fr_payload f)) else MUX_CODE_NO_ERROR))) i
             else if fr_len f > 0 then
               if st_life st = LIFE_HCL_REMOTE then
                 close_stream (ev_push (emit_rst s sid MUX_CODE_PROTOCOL) (EV_STREAM_RESET sid 0)) i
               else if len > s_sess_recv_win s then raise_fatal s MUX_CODE_FLOW_CONTROL
               else if len > st_recv_win st then
                 close_stream (ev_push (emit_rst s sid MUX_CODE_FLOW_CONTROL) (EV_STREAM_RESET sid 0)) i
               else
                 on_data_fin
                   (ev_push (s\<lparr>s_tab := st_upd (s_tab s) i (\<lambda>e. e\<lparr>st_recv_win := st_recv_win e - len\<rparr>),
                               s_sess_recv_win := s_sess_recv_win s - len\<rparr>)
                      (EV_STREAM_DATA sid (fr_payload f))) f i
             else on_data_fin s f i)"

text \<open>One round of the connection-window sweep, at table index \<open>i\<close>.\<close>

definition wake_slot :: "nat \<Rightarrow> mux_session \<Rightarrow> mux_session" where
  "wake_slot i s =
     (let st = tab (s_tab s) ! i
      in if st_slot st = SLOT_USED \<and> st_send_blocked st \<and> st_send_win st > 0 then
           ev_push (s\<lparr>s_tab := set_blocked (s_tab s) i False\<rparr>) (EV_WRITABLE (st_sid st))
         else s)"

definition on_window_update :: "mux_session \<Rightarrow> mux_frame \<Rightarrow> mux_session" where
  "on_window_update s f =
     (if fr_len f \<noteq> 4 then raise_fatal s MUX_CODE_PROTOCOL
      else
        let credit = uint (be_get32 (the (fr_payload f)))
        in if fr_sid f = MUX_SID_CONTROL then
             let was_blocked = (s_sess_send_win s \<le> 0);
                 s = s\<lparr>s_sess_send_win := s_sess_send_win s + credit\<rparr>
             in if s_sess_send_win s > 2 ^ 48 then raise_fatal s MUX_CODE_FLOW_CONTROL
                else if was_blocked \<and> s_sess_send_win s > 0 \<and> blocked_count (s_tab s) > 0 then
                  fold wake_slot [0..<tab_cap (s_tab s)] s
                else s
           else case st_find (s_tab s) (fr_sid f) of
             None \<Rightarrow> s
           | Some i \<Rightarrow>
               let s = s\<lparr>s_tab := st_upd (s_tab s) i (\<lambda>e. e\<lparr>st_send_win := st_send_win e + credit\<rparr>)\<rparr>;
                   st = tab (s_tab s) ! i
               in if st_send_win st > 2 ^ 48 then raise_fatal s MUX_CODE_FLOW_CONTROL
                  else if st_send_blocked st \<and> st_send_win st > 0 \<and> s_sess_send_win s > 0 then
                    ev_push (s\<lparr>s_tab := set_blocked (s_tab s) i False\<rparr>) (EV_WRITABLE (fr_sid f))
                  else s)"

definition on_ping :: "mux_session \<Rightarrow> mux_frame \<Rightarrow> mux_session" where
  "on_ping s f =
     (if fr_sid f \<noteq> MUX_SID_CONTROL \<or> fr_len f \<noteq> 8 then raise_fatal s MUX_CODE_PROTOCOL
      else if fr_flags f AND MUX_F_ACK \<noteq> 0 then
        s\<lparr>s_ka := (s_ka s)\<lparr>ka_ping_outstanding := False\<rparr>\<rparr>
      else snd (emit s MUX_T_PING MUX_F_ACK MUX_SID_CONTROL (fr_payload f) 8))"

definition on_goaway :: "mux_session \<Rightarrow> mux_frame \<Rightarrow> mux_session" where
  "on_goaway s f =
     (if fr_sid f \<noteq> MUX_SID_CONTROL then raise_fatal s MUX_CODE_PROTOCOL
      else if fr_len f < 8 then raise_fatal s MUX_CODE_PROTOCOL
      else ev_push s (EV_GOAWAY (be_get32 (the (fr_payload f))) (be_get32 (drop 4 (the (fr_payload f))))))"

definition on_capacity :: "mux_session \<Rightarrow> mux_frame \<Rightarrow> mux_session" where
  "on_capacity s f =
     (if fr_sid f \<noteq> MUX_SID_CONTROL then raise_fatal s MUX_CODE_PROTOCOL
      else if fr_len f \<noteq> 4 then raise_fatal s MUX_CODE_PROTOCOL
      else ev_push s (EV_CAPACITY (be_get32 (the (fr_payload f)))))"

definition hello_info_zero :: hello_info where
  "hello_info_zero = \<lparr>hi_weight = 0, hi_max_streams = 0, hi_init_window = 0,
     hi_peer_id = None, hi_auth = None, hi_nonce = None\<rparr>"

text \<open>The \<^verbatim>\<open>switch\<close> of \<open>on_hello\<close>: what one TLV does to the session and to the event.\<close>

definition hello_tlv :: "mux_session \<times> hello_info \<Rightarrow> u16 \<Rightarrow> bytes \<Rightarrow> mux_session \<times> hello_info" where
  "hello_tlv se t val =
     (case se of (s, e) \<Rightarrow>
        if t = MUX_TLV_WEIGHT then
          (if length val = 4 then (s, e\<lparr>hi_weight := be_get32 val\<rparr>) else (s, e))
        else if t = MUX_TLV_MAX_STREAMS then
          (if length val = 4 then (s\<lparr>s_peer_max_streams := be_get32 val\<rparr>, e\<lparr>hi_max_streams := be_get32 val\<rparr>)
           else (s, e))
        else if t = MUX_TLV_INIT_WINDOW then
          (if length val = 4 then (s\<lparr>s_peer_init_window := be_get32 val\<rparr>, e\<lparr>hi_init_window := be_get32 val\<rparr>)
           else (s, e))
        else if t = MUX_TLV_SESSION_WINDOW then
          (if length val = 4 then (s\<lparr>s_sess_send_win := uint (be_get32 val)\<rparr>, e) else (s, e))
        else if t = MUX_TLV_PEER_ID then (s, e\<lparr>hi_peer_id := Some val\<rparr>)
        else if t = MUX_TLV_AUTH then (s, e\<lparr>hi_auth := Some val\<rparr>)
        else if t = MUX_TLV_NONCE then (s, e\<lparr>hi_nonce := Some val\<rparr>)
        else (s, e))"

definition on_hello :: "mux_session \<Rightarrow> mux_frame \<Rightarrow> bool \<Rightarrow> mux_session" where
  "on_hello s f ack =
     (if fr_sid f \<noteq> MUX_SID_CONTROL then raise_fatal s MUX_CODE_PROTOCOL
      else if s_peer_hello_seen s then raise_fatal s MUX_CODE_PROTOCOL
      else
        case tlv_fold hello_tlv (fr_payload f) 0 (s, hello_info_zero) of
          (False, s, e) \<Rightarrow> raise_fatal s MUX_CODE_PROTOCOL
        | (True, s, e) \<Rightarrow>
            let s = ev_push (s\<lparr>s_peer_hello_seen := True\<rparr>) (EV_PEER_HELLO e)
            in if \<not> ack \<and> s_role s = MUX_ACCEPTOR \<and> \<not> s_hello_sent s then snd (send_hello s True)
               else s)"

definition process_frame :: "mux_session \<Rightarrow> mux_frame \<Rightarrow> mux_session" where
  "process_frame s f =
     (let ty = fr_type f
      in if \<not> s_peer_hello_seen s \<and> ty \<noteq> MUX_T_HELLO \<and> ty \<noteq> MUX_T_HELLO_ACK then
           raise_fatal s MUX_CODE_PROTOCOL
         else if ty = MUX_T_DATA then on_data s f
         else if ty = MUX_T_WINDOW_UPDATE then on_window_update s f
         else if ty = MUX_T_PING then on_ping s f
         else if ty = MUX_T_GOAWAY then on_goaway s f
         else if ty = MUX_T_HELLO then on_hello s f False
         else if ty = MUX_T_HELLO_ACK then on_hello s f True
         else if ty = MUX_T_CAPACITY then on_capacity s f
         else raise_fatal s MUX_CODE_PROTOCOL)"

section \<open>Public API\<close>

function recv_loop :: "mux_session \<Rightarrow> bytes \<Rightarrow> nat \<Rightarrow> nat \<times> mux_session" where
  "recv_loop s buf cursor =
     (if \<not> cursor < length buf then (cursor, s)
      else if evq_count (s_q s) \<ge> MUX_EVENT_QUEUE_SOFT_CAP then (cursor, s)
      else case mux_parse (Some (drop cursor buf)) of
        Inl e \<Rightarrow>
          if e = MUX_ERR_SHORT then (cursor, s) else (cursor, raise_fatal s MUX_CODE_PROTOCOL)
      | Inr (f, consumed) \<Rightarrow>
          let s' = process_frame s f
          in if s_dead s' then (cursor, s') else recv_loop s' buf (cursor + consumed))"
  by pat_completeness auto
termination
proof (relation "measure (\<lambda>(s, buf, cursor). length buf - cursor)", goal_cases)
  case 1
  show ?case by simp
next
  case (2 s buf cursor fc f consumed s')
  then have "0 < consumed" by (auto simp: mux_parse_def MUX_HEADER_SIZE_def Let_def split: if_splits)
  with 2 show ?case by auto
qed

declare recv_loop.simps [simp del]

text \<open>\<open>bufp\<close> and \<open>len\<close> are the two arguments of the C function, \<open>len\<close> at most the size of the buffer.\<close>

definition mux_recv :: "mux_session \<Rightarrow> bytes option \<Rightarrow> nat \<Rightarrow> (mux_err + nat) \<times> mux_session" where
  "mux_recv s bufp len =
     (if bufp = None \<and> len \<noteq> 0 then (Inl MUX_ERR_PARAM, s)
      else if s_dead s then (Inl MUX_ERR_STATE, s)
      else case recv_loop s (case bufp of None \<Rightarrow> [] | Some b \<Rightarrow> take len b) 0 of
             (cursor, s') \<Rightarrow> (Inr cursor, s'))"

definition mux_open :: "mux_session \<Rightarrow> bytes option \<Rightarrow> nat \<Rightarrow> (mux_err + u32) \<times> mux_session" where
  "mux_open s meta meta_len =
     (if s_dead s then (Inl MUX_ERR_STATE, s)
      else if \<not> s_peer_hello_seen s then (Inl MUX_ERR_STATE, s)
      else if s_local_goaway s then (Inl MUX_ERR_STATE, s)
      else if meta_len > unat MUX_MAX_META then (Inl MUX_ERR_PARAM, s)
      else if tab_count (s_tab s) \<ge> unat (s_peer_max_streams s) then (Inl MUX_ERR_NOMEM, s)
      else
        let sid = s_next_local_sid s
        in if sid = MUX_SID_CONTROL then (Inl MUX_ERR_STATE, s)
           else
             let s = s\<lparr>s_next_local_sid := sid + 2\<rparr>
             in case st_insert (s_tab s) sid (s_mem s) of
                  (None, t, h) \<Rightarrow> (Inl MUX_ERR_NOMEM, s\<lparr>s_tab := t, s_mem := h\<rparr>)
                | (Some i, t, h) \<Rightarrow>
                    let s = s\<lparr>s_tab := st_upd t i (open_stream_fields s), s_mem := h\<rparr>
                    in case emit s MUX_T_DATA MUX_F_SYN sid
                              (if meta_len \<noteq> 0 then meta else None) (of_nat meta_len) of
                         (Some _, s) \<Rightarrow> (Inl MUX_ERR_NOMEM, s\<lparr>s_tab := st_remove (s_tab s) i\<rparr>)
                       | (None, s) \<Rightarrow> (Inr sid, s))"

function write_loop :: "mux_session \<Rightarrow> u32 \<Rightarrow> bytes \<Rightarrow> nat \<Rightarrow> nat \<Rightarrow> nat \<times> mux_session" where
  "write_loop s sid p want sent =
     (if \<not> sent < want then (sent, s)
      else
        let chunk = (if want - sent > MUX_MAX_DATA_FRAME then MUX_MAX_DATA_FRAME else want - sent)
        in case emit s MUX_T_DATA 0 sid (Some (drop sent p)) (of_nat chunk) of
             (Some _, s') \<Rightarrow> (sent, s')
           | (None, s') \<Rightarrow> write_loop s' sid p want (sent + chunk))"
  by pat_completeness auto
termination
  by (relation "measure (\<lambda>(s, sid, p, want, sent). want - sent)")
    (auto simp: MUX_MAX_DATA_FRAME_def)

declare write_loop.simps [simp del]

definition mux_write :: "mux_session \<Rightarrow> u32 \<Rightarrow> bytes option \<Rightarrow> nat \<Rightarrow> (mux_err + nat) \<times> mux_session" where
  "mux_write s sid p n =
     (if p = None \<and> n \<noteq> 0 then (Inl MUX_ERR_PARAM, s)
      else if s_dead s then (Inl MUX_ERR_STATE, s)
      else case st_find (s_tab s) sid of
        None \<Rightarrow> (Inl MUX_ERR_NOSTREAM, s)
      | Some i \<Rightarrow>
          let st = tab (s_tab s) ! i
          in if st_life st = LIFE_HCL_LOCAL then (Inl MUX_ERR_STATE, s)
             else
               let room = st_send_win st;
                   room = (if s_sess_send_win s < room then s_sess_send_win s else room)
               in if room \<le> 0 then (Inr 0, s\<lparr>s_tab := set_blocked (s_tab s) i True\<rparr>)
                  else
                    let want = (if int n > room then nat room else n)
                    in case write_loop s sid (case p of None \<Rightarrow> [] | Some b \<Rightarrow> b) want 0 of
                         (sent, s) \<Rightarrow>
                           let s = s\<lparr>s_tab := st_upd (s_tab s) i (\<lambda>e. e\<lparr>st_send_win := st_send_win e - int sent\<rparr>),
                                     s_sess_send_win := s_sess_send_win s - int sent\<rparr>;
                               st = tab (s_tab s) ! i
                           in (Inr sent,
                               if sent < n \<and> (st_send_win st \<le> 0 \<or> s_sess_send_win s \<le> 0)
                               then s\<lparr>s_tab := set_blocked (s_tab s) i True\<rparr> else s))"

text \<open>For the functions that return a status, \<open>None\<close> is \<open>MUX_OK\<close>.\<close>

definition mux_close :: "mux_session \<Rightarrow> u32 \<Rightarrow> mux_err option \<times> mux_session" where
  "mux_close s sid =
     (if s_dead s then (Some MUX_ERR_STATE, s)
      else case st_find (s_tab s) sid of
        None \<Rightarrow> (Some MUX_ERR_NOSTREAM, s)
      | Some i \<Rightarrow>
          if st_life (tab (s_tab s) ! i) = LIFE_HCL_LOCAL then (None, s)
          else case emit s MUX_T_DATA MUX_F_FIN sid None 0 of
            (Some _, s) \<Rightarrow> (Some MUX_ERR_NOMEM, s)
          | (None, s) \<Rightarrow>
              (None,
               if st_life (tab (s_tab s) ! i) = LIFE_HCL_REMOTE then close_stream s i
               else s\<lparr>s_tab := st_upd (s_tab s) i (\<lambda>e. e\<lparr>st_life := LIFE_HCL_LOCAL\<rparr>)\<rparr>))"

definition mux_reset :: "mux_session \<Rightarrow> u32 \<Rightarrow> u32 \<Rightarrow> mux_err option \<times> mux_session" where
  "mux_reset s sid code =
     (if s_dead s then (Some MUX_ERR_STATE, s)
      else case st_find (s_tab s) sid of
        None \<Rightarrow> (None, s)
      | Some i \<Rightarrow> (None, close_stream (emit_rst s sid code) i))"

text \<open>\<open>n\<close> is a \<open>size_t\<close> that the code converts to \<open>int64_t\<close>.\<close>

definition mux_consume :: "mux_session \<Rightarrow> u32 \<Rightarrow> u64 \<Rightarrow> mux_err option \<times> mux_session" where
  "mux_consume s sid n =
     (if s_dead s then (Some MUX_ERR_STATE, s)
      else if n = 0 then (None, s)
      else
        let s = credit_session (s\<lparr>s_sess_recv_pending := s_sess_recv_pending s + sint n\<rparr>)
        in case st_find (s_tab s) sid of
             None \<Rightarrow> (None, s)
           | Some i \<Rightarrow>
               (None, credit_stream
                  (s\<lparr>s_tab := st_upd (s_tab s) i (\<lambda>e. e\<lparr>st_recv_pending := st_recv_pending e + sint n\<rparr>)\<rparr>) i))"

definition mux_send_capacity :: "mux_session \<Rightarrow> u32 \<Rightarrow> mux_err option \<times> mux_session" where
  "mux_send_capacity s weight =
     (if s_dead s then (Some MUX_ERR_STATE, s)
      else emit s MUX_T_CAPACITY 0 MUX_SID_CONTROL (Some (be_put32 weight)) 4)"

definition mux_goaway :: "mux_session \<Rightarrow> u32 \<Rightarrow> mux_err option \<times> mux_session" where
  "mux_goaway s reason =
     (if s_dead s then (Some MUX_ERR_STATE, s)
      else
        let s = s\<lparr>s_local_goaway := True\<rparr>
        in emit s MUX_T_GOAWAY 0 MUX_SID_CONTROL (Some (be_put32 reason @ be_put32 (s_max_remote_sid s))) 8)"

definition UINT64_MAX :: u64 where "UINT64_MAX = 0xFFFFFFFFFFFFFFFF"

text \<open>The PING branch of \<open>mux_on_timer\<close>.\<close>

definition timer_ping :: "mux_session \<Rightarrow> u64 \<Rightarrow> mux_session" where
  "timer_ping s now_ms =
     (let b = be_put32 (ucast (drop_bit 32 (ka_ping_nonce (s_ka s)))) @ be_put32 (ucast (ka_ping_nonce (s_ka s)))
      in case emit s MUX_T_PING 0 MUX_SID_CONTROL (Some b) 8 of
           (Some _, s') \<Rightarrow> s'
         | (None, s') \<Rightarrow>
             s'\<lparr>s_ka := (s_ka s')\<lparr>ka_ping_outstanding := True, ka_ping_sent_ms := now_ms,
                                  ka_ping_nonce := ka_ping_nonce (s_ka s') + 1,
                                  ka_ping_due_ms := now_ms + ucast (ka_heartbeat_ms (s_ka s'))\<rparr>\<rparr>)"

definition mux_on_timer :: "mux_session \<Rightarrow> u64 \<Rightarrow> u64 \<times> mux_session" where
  "mux_on_timer s now_ms =
     (if s_dead s \<or> ka_heartbeat_ms (s_ka s) = 0 then (UINT64_MAX, s)
      else if \<not> ka_timer_started (s_ka s) then
        let due = now_ms + ucast (ka_heartbeat_ms (s_ka s))
        in (due, s\<lparr>s_ka := (s_ka s)\<lparr>ka_timer_started := True, ka_ping_due_ms := due\<rparr>\<rparr>)
      else if ka_ping_outstanding (s_ka s) \<and> ka_timeout_ms (s_ka s) \<noteq> 0 \<and>
              now_ms - ka_ping_sent_ms (s_ka s) \<ge> ucast (ka_timeout_ms (s_ka s)) then
        (UINT64_MAX, raise_fatal s MUX_CODE_INTERNAL)
      else
        let s = (if now_ms \<ge> ka_ping_due_ms (s_ka s) then timer_ping s now_ms else s);
            next = ka_ping_due_ms (s_ka s);
            deadline = ka_ping_sent_ms (s_ka s) + ucast (ka_timeout_ms (s_ka s))
        in (if ka_ping_outstanding (s_ka s) \<and> ka_timeout_ms (s_ka s) \<noteq> 0 \<and> deadline < next
            then deadline else next, s))"

text \<open>The transport side of the output buffer, and the event queue's consumer side.\<close>

definition mux_send_buf :: "mux_session \<Rightarrow> bytes" where
  "mux_send_buf s = ob_pending (s_out s)"

definition mux_out_pending :: "mux_session \<Rightarrow> nat" where
  "mux_out_pending s = ob_len (s_out s) - ob_spos (s_out s)"

definition mux_send_advance :: "mux_session \<Rightarrow> nat \<Rightarrow> mux_session" where
  "mux_send_advance s n = s\<lparr>s_out := ob_advance (s_out s) n\<rparr>"

definition mux_next_event :: "mux_session \<Rightarrow> (mux_event option \<times> mux_session) option" where
  "mux_next_event s =
     (case evq_next (s_q s) of None \<Rightarrow> None | Some (e, q) \<Rightarrow> Some (e, s\<lparr>s_q := q\<rparr>))"

end
