(* ===== verification/Mux_Session_Inv.thy ===== *)
theory Mux_Session_Inv
  imports Mux_Session
begin

text \<open>
  The invariant of a session and its preservation by every operation of the API. It has
  three parts: the containers are well formed (\<open>io_inv\<close>), the protocol state is consistent
  (\<open>core_inv\<close>), and, while the session is alive, the send windows are below the fatal cap and
  no stream waits for a wake-up that cannot come (\<open>live_inv\<close>).
\<close>

unbundle bit_operations_syntax

section \<open>What emission and events leave alone\<close>

text \<open>\<open>s'\<close> differs from \<open>s\<close> at most in the output buffer, the event queue, the allocator and \<open>dead\<close>.\<close>

definition same_core :: "mux_session \<Rightarrow> mux_session \<Rightarrow> bool" where
  "same_core s s' \<longleftrightarrow>
     s' = s\<lparr>s_dead := s_dead s', s_out := s_out s', s_q := s_q s', s_mem := s_mem s'\<rparr> \<and>
     (s_dead s \<longrightarrow> s_dead s')"

definition io_inv :: "mux_session \<Rightarrow> bool" where
  "io_inv s \<longleftrightarrow> ob_inv (s_out s) \<and> evq_inv (s_q s)"

lemma same_core_refl [simp]: "same_core s s"
  by (simp add: same_core_def)

lemma same_core_trans: "same_core s s' \<Longrightarrow> same_core s' s'' \<Longrightarrow> same_core s s''"
  by (cases s; cases s'; cases s'') (auto simp: same_core_def)

lemma same_core_sel:
  assumes "same_core s s'"
  shows "s_role s' = s_role s" "s_init_window s' = s_init_window s" "s_session_window s' = s_session_window s"
    "s_max_streams s' = s_max_streams s" "s_peer_init_window s' = s_peer_init_window s"
    "s_peer_max_streams s' = s_peer_max_streams s" "s_sess_send_win s' = s_sess_send_win s"
    "s_sess_recv_win s' = s_sess_recv_win s" "s_sess_recv_pending s' = s_sess_recv_pending s"
    "s_peer_hello_seen s' = s_peer_hello_seen s" "s_hello_sent s' = s_hello_sent s"
    "s_local_goaway s' = s_local_goaway s" "s_ident s' = s_ident s"
    "s_next_local_sid s' = s_next_local_sid s" "s_max_remote_sid s' = s_max_remote_sid s"
    "s_tab s' = s_tab s" "s_ka s' = s_ka s" "s_max_out_buffer s' = s_max_out_buffer s"
  using assms by (cases s; cases s'; simp add: same_core_def)+

lemma same_core_dead: "same_core s s' \<Longrightarrow> s_dead s \<Longrightarrow> s_dead s'"
  by (simp add: same_core_def)

lemma ev_push_same_core [simp]: "same_core s (ev_push s e)" "s_dead (ev_push s e) = s_dead s"
  "s_out (ev_push s e) = s_out s"
  by (cases s; simp add: same_core_def ev_push_def split: prod.splits)+

lemmas ev_push_sel [simp] = same_core_sel [OF ev_push_same_core(1)]

lemma io_inv_ev_push [simp]: "io_inv s \<Longrightarrow> io_inv (ev_push s e)"
  using evq_push_spec [of "s_q s" e "s_mem s"]
  by (cases "evq_push (s_q s) e (s_mem s)") (auto simp: io_inv_def ev_push_def)

lemma raise_fatal_same_core [simp]: "same_core s (raise_fatal s c)" "s_dead (raise_fatal s c)"
  "s_out (raise_fatal s c) = s_out s"
proof -
  have "same_core s (s\<lparr>s_dead := True\<rparr>)" by (simp add: same_core_def)
  then show "same_core s (raise_fatal s c)"
    using same_core_trans by (auto simp: raise_fatal_def)
qed (simp_all add: raise_fatal_def)

lemmas raise_fatal_sel [simp] = same_core_sel [OF raise_fatal_same_core(1)]

lemma io_inv_raise_fatal [simp]: "io_inv s \<Longrightarrow> io_inv (raise_fatal s c)"
  unfolding raise_fatal_def by (simp add: io_inv_def [of "s\<lparr>s_dead := True\<rparr>"] io_inv_def [of s])

text \<open>The specification of \<open>emit\<close>: the whole frame is appended, or nothing is.\<close>

definition frame_bytes :: "u8 \<Rightarrow> u16 \<Rightarrow> u32 \<Rightarrow> bytes \<Rightarrow> bytes" where
  "frame_bytes ty fl sid p = frame_wire (frame_of ty fl sid p)"

lemma mux_craft_region:
  assumes "mux_craft (Some dst) (length dst) ty fl sid payload plen = Inr (n, region)"
  shows "n = 12 + unat plen \<and> n \<le> length dst \<and> (payload = None \<longrightarrow> plen = 0) \<and>
    region = mem_write dst 0 (craft_header_bytes ty fl sid plen @
      (if plen > 0 then take (unat plen) (the payload) else []))"
proof -
  have h: "mux_craft_header (Some dst) (length dst) ty fl sid plen =
      Inr (12, mem_write dst 0 (craft_header_bytes ty fl sid plen))"
    if "plen \<le> MUX_MAX_PAYLOAD" "12 + unat plen \<le> length dst"
    using that by (simp add: mux_craft_header_def MUX_HEADER_SIZE_def)
  show ?thesis
    using assms h mem_write_0_append [of dst "craft_header_bytes ty fl sid plen" "take (unat plen) (the payload)"]
    by (auto simp: mux_craft_def Let_def MUX_HEADER_SIZE_def not_less not_le word_gt_0 split: if_splits)
qed

lemma emit_cases:
  assumes io: "io_inv s" and em: "emit s ty fl sid payload plen = (r, s')"
    and pl: "\<And>p. payload = Some p \<Longrightarrow> unat plen \<le> length p"
  shows "same_core s s' \<and> io_inv s' \<and>
    (r = None \<longrightarrow> s_dead s' = s_dead s \<and> s_q s' = s_q s \<and>
       ob_pending (s_out s') = ob_pending (s_out s) @
         craft_header_bytes ty fl sid plen @ take (unat plen) (case payload of None \<Rightarrow> [] | Some p \<Rightarrow> p)) \<and>
    (r \<noteq> None \<longrightarrow> ob_pending (s_out s') = ob_pending (s_out s))"
proof -
  obtain r1 ob h where res: "ob_reserve (s_out s) (12 + unat plen) (unat (s_max_out_buffer s)) (s_mem s) = (r1, ob, h)"
    by (cases "ob_reserve (s_out s) (12 + unat plen) (unat (s_max_out_buffer s)) (s_mem s)") auto
  have io': "ob_inv (s_out s)" "evq_inv (s_q s)" using io by (auto simp: io_inv_def)
  note sp = ob_reserve_spec [OF io'(1) res]
  let ?s1 = "s\<lparr>s_out := ob, s_mem := h\<rparr>"
  have s1: "same_core s ?s1" "io_inv ?s1" using sp io' by (auto simp: same_core_def io_inv_def)
  show ?thesis
  proof (cases r1)
    case (Some e)
    then have "r = Some MUX_ERR_NOSPACE" "s' = raise_fatal ?s1 MUX_CODE_INTERNAL"
      using em res by (auto simp: emit_def MUX_HEADER_SIZE_def)
    then show ?thesis using s1 sp same_core_trans [OF s1(1)] by simp
  next
    case None
    let ?dst = "drop (ob_len ob) (ob_buf ob)"
    show ?thesis
    proof (cases "mux_craft (Some ?dst) (length ?dst) ty fl sid payload plen")
      case (Inl e)
      then have "r = Some e" "s' = ?s1" using em res None by (auto simp: emit_def MUX_HEADER_SIZE_def)
      then show ?thesis using s1 sp by simp
    next
      case (Inr nr)
      then obtain n region where c: "mux_craft (Some ?dst) (length ?dst) ty fl sid payload plen = Inr (n, region)"
        by (cases nr) auto
      let ?bs = "craft_header_bytes ty fl sid plen @ take (unat plen) (case payload of None \<Rightarrow> [] | Some p \<Rightarrow> p)"
      have pay: "(if plen > 0 then take (unat plen) (the payload) else []) =
          take (unat plen) (case payload of None \<Rightarrow> [] | Some p \<Rightarrow> p)"
        using mux_craft_region [OF c] by (cases payload) (auto simp: word_gt_0 unat_0_iff)
      have lp: "length (take (unat plen) (case payload of None \<Rightarrow> [] | Some p \<Rightarrow> p)) = unat plen"
        using mux_craft_region [OF c] pl by (cases payload) auto
      have n: "n = length ?bs" "region = mem_write ?dst 0 ?bs"
        using mux_craft_region [OF c] lp unfolding pay by auto
      have len: "ob_len ob + length ?bs \<le> ob_cap ob" using sp None lp by simp
      have buf: "take (ob_len ob) (ob_buf ob) @ region = mem_write (ob_buf ob) (ob_len ob) ?bs"
        using len by (simp add: n(2) mem_write_def add.commute)
      have s': "r = None" "s' = ?s1\<lparr>s_out := ob_put ob ?bs\<rparr>"
        using em res None c buf n(1) by (auto simp: emit_def MUX_HEADER_SIZE_def ob_put_def)
      then show ?thesis
        using ob_put_spec [of ob ?bs] sp len s1 by (auto simp: io_inv_def same_core_def)
    qed
  qed
qed

lemma mux_craft_ok:
  assumes "12 + unat plen \<le> cap" "plen = 0 \<or> payload \<noteq> None" "plen \<le> MUX_MAX_PAYLOAD"
  shows "\<exists>n r. mux_craft (Some dst) cap ty fl sid payload plen = Inr (n, r)"
  using assms by (auto simp: mux_craft_def Let_def MUX_HEADER_SIZE_def word_gt_0)

text \<open>With a payload in bounds the only way to fail is a reservation that fails, which is fatal.\<close>

lemma emit_fails_dead:
  assumes "emit s ty fl sid payload plen = (Some e, s')" "plen \<le> MUX_MAX_PAYLOAD" "plen = 0 \<or> payload \<noteq> None"
    "ob_inv (s_out s)"
  shows "e = MUX_ERR_NOSPACE \<and> s_dead s'"
proof -
  obtain r1 ob h where res: "ob_reserve (s_out s) (12 + unat plen) (unat (s_max_out_buffer s)) (s_mem s) = (r1, ob, h)"
    by (cases "ob_reserve (s_out s) (12 + unat plen) (unat (s_max_out_buffer s)) (s_mem s)") auto
  show ?thesis
  proof (cases r1)
    case None
    have "ob_len ob + (12 + unat plen) \<le> ob_cap ob" using ob_reserve_spec [OF assms(4) res] None by simp
    then have "\<exists>n r. mux_craft (Some (drop (ob_len ob) (ob_buf ob))) (ob_cap ob - ob_len ob) ty fl sid payload plen = Inr (n, r)"
      using assms(2,3) by (intro mux_craft_ok) auto
    then show ?thesis using assms(1) res None by (auto simp: emit_def MUX_HEADER_SIZE_def)
  next
    case (Some x)
    then show ?thesis using assms(1) res by (auto simp: emit_def MUX_HEADER_SIZE_def)
  qed
qed

lemma emit_same_core:
  assumes "emit s ty fl sid payload plen = (r, s')"
  shows "same_core s s'"
proof -
  have "same_core s (s\<lparr>s_out := ob, s_mem := h\<rparr>)" for ob h by (simp add: same_core_def)
  note same_core_trans [OF this raise_fatal_same_core(1)] this
  then show ?thesis
    using assms by (auto simp: emit_def split: prod.splits option.splits sum.splits)
qed

lemma emit_rst_same_core [simp]: "same_core s (emit_rst s sid c)"
  using emit_same_core [of s] unfolding emit_rst_def by (metis prod.collapse)

lemmas emit_rst_sel [simp] = same_core_sel [OF emit_rst_same_core]

lemma be_put32_len: "unat (4 :: u32) = length (be_put32 v)"
  by (simp add: be_put32_def)

lemma io_inv_emit_rst [simp]: "io_inv s \<Longrightarrow> io_inv (emit_rst s sid c)"
  using emit_cases [of s MUX_T_DATA MUX_F_RST sid "Some (be_put32 c)" 4]
  unfolding emit_rst_def by (cases "emit s MUX_T_DATA MUX_F_RST sid (Some (be_put32 c)) 4") auto

section \<open>The invariant\<close>

definition local_bit :: "mux_role \<Rightarrow> u32" where
  "local_bit r = (if r = MUX_DIALER then 1 else 0)"

abbreviation WIN_CAP :: int where "WIN_CAP \<equiv> 2 ^ 48"

text \<open>
  A live stream: its id is not 0 and was allocated already, by us or by the peer according
  to its parity, and its windows are in range.
\<close>

definition stream_ok :: "mux_session \<Rightarrow> u32 \<Rightarrow> mux_stream \<Rightarrow> bool" where
  "stream_ok s sid e \<longleftrightarrow> sid \<noteq> 0 \<and> 0 \<le> st_send_win e \<and> st_send_win e \<le> WIN_CAP + 2 ^ 32 \<and> 0 \<le> st_recv_win e \<and>
     (if sid AND 1 = local_bit (s_role s) then s_next_local_sid s = 0 \<or> sid < s_next_local_sid s
      else sid \<le> s_max_remote_sid s)"

definition stream_live :: "mux_session \<Rightarrow> mux_stream \<Rightarrow> bool" where
  "stream_live s e \<longleftrightarrow> st_send_win e \<le> WIN_CAP \<and>
     (st_send_blocked e \<longrightarrow> st_send_win e \<le> 0 \<or> s_sess_send_win s \<le> 0)"

definition ident_ok :: "identity \<Rightarrow> bool" where
  "ident_ok d \<longleftrightarrow> length (id_peer_id d) \<le> HELLO_BLOB_MAX \<and> length (id_auth d) \<le> HELLO_BLOB_MAX \<and>
     length (id_nonce d) \<le> HELLO_BLOB_MAX"

definition core_inv :: "mux_session \<Rightarrow> bool" where
  "core_inv s \<longleftrightarrow> tab_inv (s_tab s) \<and> ident_ok (s_ident s) \<and>
     (\<forall>sid e. tab_view (s_tab s) sid = Some e \<longrightarrow> stream_ok s sid e) \<and>
     0 \<le> s_sess_send_win s \<and> s_sess_send_win s \<le> WIN_CAP + 2 ^ 32 \<and> 0 \<le> s_sess_recv_win s \<and>
     s_next_local_sid s AND 1 = local_bit (s_role s) \<and>
     (\<not> s_peer_hello_seen s \<longrightarrow> tab_count (s_tab s) = 0) \<and>
     tab_count (s_tab s) \<le> max (unat (s_max_streams s)) (unat (s_peer_max_streams s))"

definition live_inv :: "mux_session \<Rightarrow> bool" where
  "live_inv s \<longleftrightarrow> (\<not> s_dead s \<longrightarrow> s_sess_send_win s \<le> WIN_CAP \<and>
     (\<forall>sid e. tab_view (s_tab s) sid = Some e \<longrightarrow> stream_live s e))"

definition sess_inv :: "mux_session \<Rightarrow> bool" where
  "sess_inv s \<longleftrightarrow> io_inv s \<and> core_inv s \<and> live_inv s"

lemma stream_pred_upd [simp]:
  "stream_ok (s\<lparr>s_tab := t\<rparr>) = stream_ok s" "stream_live (s\<lparr>s_tab := t\<rparr>) = stream_live s"
  "stream_ok (s\<lparr>s_mem := h\<rparr>) = stream_ok s" "stream_live (s\<lparr>s_mem := h\<rparr>) = stream_live s"
  "stream_ok (s\<lparr>s_sess_recv_win := w\<rparr>) = stream_ok s" "stream_live (s\<lparr>s_sess_recv_win := w\<rparr>) = stream_live s"
  "stream_ok (s\<lparr>s_sess_recv_pending := w\<rparr>) = stream_ok s"
  "stream_live (s\<lparr>s_sess_recv_pending := w\<rparr>) = stream_live s"
  "stream_ok (s\<lparr>s_sess_send_win := w\<rparr>) = stream_ok s"
  "stream_ok (s\<lparr>s_out := ob\<rparr>) = stream_ok s" "stream_live (s\<lparr>s_out := ob\<rparr>) = stream_live s"
  "stream_ok (s\<lparr>s_q := qq\<rparr>) = stream_ok s" "stream_live (s\<lparr>s_q := qq\<rparr>) = stream_live s"
  "stream_ok (s\<lparr>s_ka := k\<rparr>) = stream_ok s" "stream_live (s\<lparr>s_ka := k\<rparr>) = stream_live s"
  "stream_ok (s\<lparr>s_local_goaway := b\<rparr>) = stream_ok s" "stream_live (s\<lparr>s_local_goaway := b\<rparr>) = stream_live s"
  "stream_ok (s\<lparr>s_hello_sent := b\<rparr>) = stream_ok s" "stream_live (s\<lparr>s_hello_sent := b\<rparr>) = stream_live s"
  by (auto simp: fun_eq_iff stream_ok_def stream_live_def)

lemma tab_view_count:
  assumes "tab_inv t" "tab_view t sid = Some e" shows "0 < tab_count t"
proof -
  obtain i where "i < tab_cap t" "tab t ! i = e" "st_used e"
    using pt.view_Some [of "tab t" sid e] assms(2) by (auto simp: tab_view_def)
  then show ?thesis using cnt_pos [of i "tab t" st_used] assms(1) by (simp add: tab_inv_def)
qed

lemma core_inv_same: "same_core s s' \<Longrightarrow> core_inv s' = core_inv s"
  by (simp add: core_inv_def stream_ok_def same_core_sel)

lemma live_inv_same: "same_core s s' \<Longrightarrow> live_inv s \<Longrightarrow> live_inv s'"
  using same_core_dead [of s s'] by (auto simp: live_inv_def stream_live_def same_core_sel)

lemma sess_inv_same: "same_core s s' \<Longrightarrow> io_inv s' \<Longrightarrow> sess_inv s \<Longrightarrow> sess_inv s'"
  by (simp add: sess_inv_def core_inv_same live_inv_same)

lemma sess_inv_ev_push [simp, intro]: "sess_inv s \<Longrightarrow> sess_inv (ev_push s e)"
  by (rule sess_inv_same [OF ev_push_same_core(1)]) (simp_all add: sess_inv_def)

lemma sess_inv_raise_fatal [simp, intro]: "sess_inv s \<Longrightarrow> sess_inv (raise_fatal s c)"
  by (rule sess_inv_same [OF raise_fatal_same_core(1)]) (simp_all add: sess_inv_def)

lemma sess_inv_emit_rst [simp, intro]: "sess_inv s \<Longrightarrow> sess_inv (emit_rst s sid c)"
  by (rule sess_inv_same [OF emit_rst_same_core]) (simp_all add: sess_inv_def)

lemma sess_inv_emit:
  assumes "sess_inv s" "emit s ty fl sid payload plen = (r, s')"
    "\<And>p. payload = Some p \<Longrightarrow> unat plen \<le> length p"
  shows "sess_inv s'" "same_core s s'" "r = None \<Longrightarrow> s_dead s' = s_dead s"
  using emit_cases [OF _ assms(2,3)] assms(1) sess_inv_same [of s s'] by (auto simp: sess_inv_def)

text \<open>A failing session need not keep its live part.\<close>

lemma sess_inv_fatal: "io_inv s \<Longrightarrow> core_inv s \<Longrightarrow> sess_inv (raise_fatal s c)"
  by (simp add: sess_inv_def live_inv_def core_inv_same [OF raise_fatal_same_core(1)])

text \<open>An update of the table at one stream.\<close>

lemma core_inv_tab:
  assumes inv: "core_inv s" and at: "at_sid (s_tab s) i sid e" and t: "tab_inv t"
    and v: "tab_view t = (tab_view (s_tab s))(sid := x)" and c: "tab_count t \<le> tab_count (s_tab s)"
    and x: "\<And>e'. x = Some e' \<Longrightarrow> stream_ok s sid e'"
  shows "core_inv (s\<lparr>s_tab := t\<rparr>)"
proof -
  have "s_peer_hello_seen s"
    using inv at_sid_view [of "s_tab s" i sid e] tab_view_count [of "s_tab s" sid e] at
    by (auto simp: core_inv_def)
  then show ?thesis
    using inv t v c x by (auto simp: core_inv_def split: if_splits)
qed

lemma sess_inv_tab:
  assumes inv: "sess_inv s" and at: "at_sid (s_tab s) i sid e" and t: "tab_inv t"
    and v: "tab_view t = (tab_view (s_tab s))(sid := x)" and c: "tab_count t \<le> tab_count (s_tab s)"
    and x: "\<And>e'. x = Some e' \<Longrightarrow> stream_ok s sid e' \<and> (\<not> s_dead s \<longrightarrow> stream_live s e')"
  shows "sess_inv (s\<lparr>s_tab := t\<rparr>)"
proof -
  have "core_inv (s\<lparr>s_tab := t\<rparr>)"
    using core_inv_tab [OF _ at t v c] inv x by (simp add: sess_inv_def)
  moreover have "live_inv (s\<lparr>s_tab := t\<rparr>)"
    using inv v x by (auto simp: sess_inv_def live_inv_def stream_live_def split: if_splits)
  ultimately show ?thesis using inv by (simp add: sess_inv_def io_inv_def)
qed

lemma sess_inv_close_stream:
  assumes "sess_inv s" "at_sid (s_tab s) i sid e" shows "sess_inv (close_stream s i)"
proof -
  have "tab_inv (s_tab s)" using assms(1) by (simp add: sess_inv_def core_inv_def)
  note r = st_remove_spec [OF this assms(2)]
  show ?thesis
    unfolding close_stream_def using sess_inv_tab [OF assms, of "st_remove (s_tab s) i" None] r by auto
qed

lemma sess_inv_st_upd:
  assumes inv: "sess_inv s" and at: "at_sid (s_tab s) i sid e" and f: "keeps_id f"
    and ok: "stream_ok s sid (f e)" "\<not> s_dead s \<Longrightarrow> stream_live s (f e)"
  shows "sess_inv (s\<lparr>s_tab := st_upd (s_tab s) i f\<rparr>)"
proof -
  have "tab_inv (s_tab s)" using inv by (simp add: sess_inv_def core_inv_def)
  note r = st_upd_spec [OF this at f]
  show ?thesis using sess_inv_tab [OF inv at, of "st_upd (s_tab s) i f" "Some (f e)"] r ok by auto
qed

lemma sess_inv_stream:
  assumes "sess_inv s" "at_sid (s_tab s) i sid e"
  shows "stream_ok s sid e" "\<not> s_dead s \<Longrightarrow> stream_live s e" "s_peer_hello_seen s" "tab_inv (s_tab s)"
proof -
  have t: "tab_inv (s_tab s)" using assms(1) by (simp add: sess_inv_def core_inv_def)
  then have v: "tab_view (s_tab s) sid = Some e" using at_sid_view assms(2) by blast
  show "stream_ok s sid e" "\<not> s_dead s \<Longrightarrow> stream_live s e" "s_peer_hello_seen s" "tab_inv (s_tab s)"
    using assms(1) v t tab_view_count [OF t v] by (auto simp: sess_inv_def core_inv_def live_inv_def)
qed

lemma sess_inv_life:
  assumes "sess_inv s" "at_sid (s_tab s) i sid e"
  shows "sess_inv (s\<lparr>s_tab := st_upd (s_tab s) i (\<lambda>e. e\<lparr>st_life := l\<rparr>)\<rparr>)"
  using sess_inv_stream [OF assms]
  by (intro sess_inv_st_upd [OF assms]) (auto simp: keeps_id_def stream_ok_def stream_live_def)

lemma sess_inv_set_blocked:
  assumes "sess_inv s" "at_sid (s_tab s) i sid e"
    and "\<not> s_dead s \<Longrightarrow> b \<Longrightarrow> st_send_win e \<le> 0 \<or> s_sess_send_win s \<le> 0"
  shows "sess_inv (s\<lparr>s_tab := set_blocked (s_tab s) i b\<rparr>)"
  using sess_inv_stream [OF assms(1,2)] set_blocked_spec [OF _ assms(2), of b] assms(3)
  by (intro sess_inv_tab [OF assms(1,2), of _ "Some (e\<lparr>st_send_blocked := b\<rparr>)"])
    (auto simp: stream_ok_def stream_live_def)

section \<open>Opening a stream\<close>

lemma sess_inv_tab_view:
  assumes "sess_inv s" "tab_inv t" "tab_view t = tab_view (s_tab s)" "tab_count t = tab_count (s_tab s)"
  shows "sess_inv (s\<lparr>s_tab := t, s_mem := h\<rparr>)"
  using assms by (simp add: sess_inv_def core_inv_def live_inv_def io_inv_def)

lemma open_fields_fresh:
  "st_send_win (open_stream_fields s e) = uint (s_peer_init_window s)"
  "st_recv_win (open_stream_fields s e) = uint (s_init_window s)"
  "st_send_blocked (open_stream_fields s e) = st_send_blocked e"
  "keeps_id (open_stream_fields s)"
  by (simp_all add: open_stream_fields_def keeps_id_def)

lemma uint_u32_bounds: "0 \<le> uint (w :: u32)" "uint (w :: u32) < 2 ^ 32"
  using uint_lt2p [of w] by simp_all

text \<open>
  A fresh stream enters the table; \<open>m\<close> and \<open>n\<close> are the new id watermarks.
\<close>

lemma sess_inv_insert:
  assumes inv: "sess_inv s" and fresh: "tab_view (s_tab s) sid = None" and hello: "s_peer_hello_seen s"
    and ins: "st_insert (s_tab s) sid (s_mem s) = (Some i, t, h)"
    and room: "tab_count (s_tab s) < max (unat (s_max_streams s)) (unat (s_peer_max_streams s))"
    and sid: "sid \<noteq> 0" "if sid AND 1 = local_bit (s_role s) then n = 0 \<or> sid < n else sid \<le> m"
    and m: "s_max_remote_sid s \<le> m" and n: "n = 0 \<or> s_next_local_sid s \<le> n" "n AND 1 = s_next_local_sid s AND 1"
      "s_next_local_sid s \<noteq> 0 \<or> n = 0"
    and s2: "s2 = s\<lparr>s_next_local_sid := n, s_tab := st_upd t i (open_stream_fields s), s_mem := h, s_max_remote_sid := m\<rparr>"
  shows "sess_inv s2" "at_sid (s_tab s2) i sid (open_stream_fields s (st_fresh sid))"
proof -
  let ?e = "open_stream_fields s (st_fresh sid)"
  have t: "tab_inv (s_tab s)" using inv by (simp add: sess_inv_def core_inv_def)
  note ins' = st_insert_spec [OF t fresh ins, simplified]
  have at: "at_sid t i sid (st_fresh sid)" using ins' by (simp add: at_sid_def)
  note up = st_upd_spec [OF _ at open_fields_fresh(4), of s]
  have t2: "tab_inv (s_tab s2)" "tab_view (s_tab s2) = (tab_view (s_tab s))(sid \<mapsto> ?e)"
    "tab_count (s_tab s2) = tab_count (s_tab s) + 1" "at_sid (s_tab s2) i sid ?e"
    using up ins' by (simp_all add: s2)
  have old: "stream_ok s2 k e" if "stream_ok s k e" for k e
    using that m n by (auto simp: stream_ok_def s2 split: if_splits)
  have new: "stream_ok s2 sid ?e" "stream_live s2 ?e"
    using sid uint_u32_bounds [of "s_peer_init_window s"] uint_u32_bounds [of "s_init_window s"]
    by (auto simp: stream_ok_def stream_live_def open_fields_fresh s2)
  have "\<forall>k e. tab_view (s_tab s2) k = Some e \<longrightarrow> stream_ok s2 k e"
    using inv old new unfolding t2(2) by (auto simp: sess_inv_def core_inv_def)
  moreover have "\<forall>k e. tab_view (s_tab s2) k = Some e \<longrightarrow> \<not> s_dead s \<longrightarrow> stream_live s2 e"
    using inv new unfolding t2(2) by (auto simp: sess_inv_def live_inv_def stream_live_def s2)
  moreover have "s_next_local_sid s AND 1 = local_bit (s_role s)"
    using inv by (simp add: sess_inv_def core_inv_def)
  moreover have "s_ident s2 = s_ident s" "s_dead s2 = s_dead s" "s_sess_send_win s2 = s_sess_send_win s" "io_inv s2 = io_inv s"
    "s_sess_recv_win s2 = s_sess_recv_win s" "s_next_local_sid s2 = n" "s_role s2 = s_role s"
    "s_peer_hello_seen s2" "s_max_streams s2 = s_max_streams s" "s_peer_max_streams s2 = s_peer_max_streams s"
    using hello by (simp_all add: s2 io_inv_def)
  ultimately show "sess_inv s2"
    using inv t2(1,3) room n(2) unfolding sess_inv_def core_inv_def live_inv_def by auto
  show "at_sid (s_tab s2) i sid ?e" by (rule t2(4))
qed

lemma sess_inv_find:
  "sess_inv s \<Longrightarrow> st_find (s_tab s) sid = Some i \<Longrightarrow> at_sid (s_tab s) i sid (tab (s_tab s) ! i)"
  by (rule st_find_Some) (simp_all add: sess_inv_def core_inv_def)

lemma sess_inv_find_None:
  "sess_inv s \<Longrightarrow> st_find (s_tab s) sid = None \<Longrightarrow> tab_view (s_tab s) sid = None"
  by (rule st_find_None) (simp_all add: sess_inv_def core_inv_def)

lemma sess_inv_max_remote:
  assumes "sess_inv s" "s_max_remote_sid s \<le> m"
  shows "sess_inv (s\<lparr>s_max_remote_sid := m\<rparr>)"
proof -
  have "stream_ok (s\<lparr>s_max_remote_sid := m\<rparr>) k e" if "stream_ok s k e" for k e
    using that assms(2) by (auto simp: stream_ok_def)
  then show ?thesis using assms(1) by (auto simp: sess_inv_def core_inv_def live_inv_def io_inv_def stream_live_def)
qed

section \<open>Frame handlers\<close>

lemma on_data_syn_inv:
  assumes inv: "sess_inv s" shows "sess_inv (on_data_syn s f)"
proof (cases "\<not> s_peer_hello_seen s \<or> fr_sid f AND 1 \<noteq> (if s_role s = MUX_DIALER then 0 else 1) \<or>
    fr_sid f = MUX_SID_CONTROL \<or> st_find (s_tab s) (fr_sid f) \<noteq> None \<or> fr_sid f \<le> s_max_remote_sid s \<or>
    fr_len f > MUX_MAX_META")
  case True
  then have "on_data_syn s f = raise_fatal s MUX_CODE_PROTOCOL" by (auto simp: on_data_syn_def Let_def)
  then show ?thesis using inv by simp
next
  case False
  note ok = this
  show ?thesis
  proof (cases "tab_count (s_tab s) \<ge> unat (s_max_streams s) \<or> s_local_goaway s")
    case True
    then have "on_data_syn s f = (emit_rst s (fr_sid f) MUX_CODE_REFUSED)\<lparr>s_max_remote_sid := fr_sid f\<rparr>"
      using ok by (auto simp: on_data_syn_def Let_def)
    moreover have "s_max_remote_sid s \<le> fr_sid f" using ok by auto
    ultimately show ?thesis
      using sess_inv_max_remote [OF sess_inv_emit_rst [OF inv], of "fr_sid f" MUX_CODE_REFUSED "fr_sid f"] by simp
  next
    case False
    obtain r t h where ins: "st_insert (s_tab s) (fr_sid f) (s_mem s) = (r, t, h)"
      by (cases "st_insert (s_tab s) (fr_sid f) (s_mem s)") auto
    have t: "tab_inv (s_tab s)" using inv by (simp add: sess_inv_def core_inv_def)
    have fresh: "tab_view (s_tab s) (fr_sid f) = None" using ok inv sess_inv_find_None by blast
    show ?thesis
    proof (cases r)
      case None
      then have "on_data_syn s f = raise_fatal (s\<lparr>s_tab := t, s_mem := h\<rparr>) MUX_CODE_INTERNAL"
        using ok False ins by (auto simp: on_data_syn_def Let_def)
      then show ?thesis using sess_inv_tab_view [OF inv] st_insert_spec [OF t fresh ins] None by simp
    next
      case (Some i)
      let ?s2 = "s\<lparr>s_next_local_sid := s_next_local_sid s, s_tab := st_upd t i (open_stream_fields s),
        s_mem := h, s_max_remote_sid := fr_sid f\<rparr>"
      have "fr_sid f AND 1 \<noteq> local_bit (s_role s)"
        using ok by (auto simp: local_bit_def split: if_splits)
      then have s2: "sess_inv ?s2" "at_sid (s_tab ?s2) i (fr_sid f) (open_stream_fields s (st_fresh (fr_sid f)))"
        using sess_inv_insert [OF inv fresh _ ins [unfolded Some], of "s_next_local_sid s" "fr_sid f" ?s2] ok False
        by (auto simp: MUX_SID_CONTROL_def)
      let ?s3 = "ev_push ?s2 (EV_STREAM_OPENED (fr_sid f) (fr_payload f))"
      have "on_data_syn s f = (if fr_flags f AND MUX_F_RST \<noteq> 0 then
            close_stream (ev_push ?s3 (EV_STREAM_RESET (fr_sid f) 0)) i
          else if fr_flags f AND MUX_F_FIN \<noteq> 0 then
            ev_push (?s3\<lparr>s_tab := st_upd (s_tab ?s3) i (\<lambda>e. e\<lparr>st_life := LIFE_HCL_REMOTE\<rparr>)\<rparr>)
              (EV_STREAM_CLOSED (fr_sid f))
          else ?s3)"
        using ok False ins Some by (simp add: on_data_syn_def Let_def)
      then show ?thesis
        using s2 sess_inv_close_stream [of "ev_push ?s3 (EV_STREAM_RESET (fr_sid f) 0)" i "fr_sid f"]
          sess_inv_life [of ?s3 i "fr_sid f"] by simp
    qed
  qed
qed

lemma sess_inv_recv_win: "sess_inv s \<Longrightarrow> 0 \<le> w \<Longrightarrow> sess_inv (s\<lparr>s_sess_recv_win := w\<rparr>)"
  by (simp add: sess_inv_def core_inv_def live_inv_def io_inv_def)

lemma on_data_fin_inv:
  assumes "sess_inv s" "at_sid (s_tab s) i sid e" shows "sess_inv (on_data_fin s f i)"
  using assms sess_inv_close_stream [of "ev_push s (EV_STREAM_CLOSED (fr_sid f))" i sid e]
    sess_inv_life [of "ev_push s (EV_STREAM_CLOSED (fr_sid f))" i sid e]
  by (simp add: on_data_fin_def Let_def)

lemma on_data_inv:
  assumes inv: "sess_inv s" shows "sess_inv (on_data s f)"
proof (cases "fr_flags f AND MUX_F_SYN \<noteq> 0 \<or> fr_sid f = MUX_SID_CONTROL \<or> st_find (s_tab s) (fr_sid f) = None")
  case True
  then show ?thesis using inv on_data_syn_inv [OF inv] by (auto simp: on_data_def)
next
  case False
  then obtain i where i: "st_find (s_tab s) (fr_sid f) = Some i" by auto
  let ?e = "tab (s_tab s) ! i" and ?len = "uint (fr_len f)" and ?sid = "fr_sid f"
  note at = sess_inv_find [OF inv i]
  let ?s1 = "s\<lparr>s_tab := st_upd (s_tab s) i (\<lambda>e. e\<lparr>st_recv_win := st_recv_win e - ?len\<rparr>),
                s_sess_recv_win := s_sess_recv_win s - ?len\<rparr>"
  have s1: "sess_inv ?s1" if "?len \<le> s_sess_recv_win s" "?len \<le> st_recv_win ?e"
    using that sess_inv_stream [OF inv at]
    by (intro sess_inv_recv_win sess_inv_st_upd [OF inv at]) (auto simp: keeps_id_def stream_ok_def stream_live_def)
  have at1: "at_sid (s_tab ?s1) i ?sid (?e\<lparr>st_recv_win := st_recv_win ?e - ?len\<rparr>)"
    using st_upd_spec [OF sess_inv_stream(4) [OF inv at] at, of "\<lambda>e. e\<lparr>st_recv_win := st_recv_win e - ?len\<rparr>"]
    by (simp add: keeps_id_def)
  have close: "sess_inv (close_stream (ev_push s' ev) i)" if "sess_inv s'" "s_tab s' = s_tab s" for s' ev
    using sess_inv_close_stream [of "ev_push s' ev" i ?sid ?e] that at by simp
  show ?thesis
    using False i inv close s1 on_data_fin_inv [OF inv at, of f]
      on_data_fin_inv [of "ev_push ?s1 (EV_STREAM_DATA ?sid (fr_payload f))" i ?sid _ f] at1
    by (simp add: on_data_def Let_def)
qed

subsection \<open>Window updates\<close>

text \<open>
  The sweep: every cell is visited once, and a cell that may send is woken. During the sweep
  the live part of the invariant holds up to the cells still to be visited.
\<close>

definition waiting :: "mux_stream \<Rightarrow> bool" where
  "waiting e \<longleftrightarrow> st_used e \<and> st_send_blocked e \<and> st_send_win e > 0"

definition sweep_inv :: "mux_session \<Rightarrow> nat \<Rightarrow> bool" where
  "sweep_inv s k \<longleftrightarrow> io_inv s \<and> core_inv s \<and> \<not> s_dead s \<and> s_sess_send_win s \<le> WIN_CAP \<and>
     (\<forall>i < tab_cap (s_tab s). st_used (tab (s_tab s) ! i) \<longrightarrow> st_send_win (tab (s_tab s) ! i) \<le> WIN_CAP) \<and>
     (\<forall>i < tab_cap (s_tab s). i < k \<longrightarrow> \<not> waiting (tab (s_tab s) ! i))"

lemma core_inv_blocked:
  assumes "core_inv s" "i < tab_cap (s_tab s)" "st_used (tab (s_tab s) ! i)"
  shows "core_inv (s\<lparr>s_tab := set_blocked (s_tab s) i b\<rparr>)"
proof -
  let ?e = "tab (s_tab s) ! i"
  have at: "at_sid (s_tab s) i (st_sid ?e) ?e" using assms by (simp add: at_sid_def)
  have t: "tab_inv (s_tab s)" using assms(1) by (simp add: core_inv_def)
  note sb = set_blocked_spec [OF t at, of b]
  have "stream_ok s (st_sid ?e) ?e"
    using assms(1) at_sid_view [OF t at] by (simp add: core_inv_def)
  then have "stream_ok s (st_sid ?e) (?e\<lparr>st_send_blocked := b\<rparr>)" by (simp add: stream_ok_def)
  then show ?thesis
    using core_inv_tab [OF assms(1) at, of "set_blocked (s_tab s) i b" "Some (?e\<lparr>st_send_blocked := b\<rparr>)"] sb
    by simp
qed

lemma tab_set_blocked:
  "tab (set_blocked t i b) = (tab t)[i := (tab t ! i)\<lparr>st_send_blocked := b\<rparr>]"
proof (cases "st_send_blocked (tab t ! i) = b")
  case True
  then have "(tab t ! i)\<lparr>st_send_blocked := b\<rparr> = tab t ! i" by (cases "tab t ! i") simp
  moreover have "set_blocked t i b = t" using True by (auto simp: set_blocked_def Let_def)
  ultimately show ?thesis by simp
qed (auto simp: set_blocked_def Let_def)

lemma wake_slot_sweep:
  assumes "sweep_inv s i" "i < tab_cap (s_tab s)"
  shows "sweep_inv (wake_slot i s) (Suc i) \<and> tab_cap (s_tab (wake_slot i s)) = tab_cap (s_tab s) \<and>
    s_sess_send_win (wake_slot i s) = s_sess_send_win s"
proof (cases "waiting (tab (s_tab s) ! i)")
  case True
  let ?t = "set_blocked (s_tab s) i False"
  let ?s = "s\<lparr>s_tab := ?t\<rparr>"
  have w: "wake_slot i s = ev_push ?s (EV_WRITABLE (st_sid (tab (s_tab s) ! i)))"
    using True by (simp add: wake_slot_def waiting_def Let_def)
  have "core_inv ?s" using core_inv_blocked assms True by (simp add: sweep_inv_def waiting_def)
  then have "core_inv (wake_slot i s)" unfolding w by (simp add: core_inv_same [OF ev_push_same_core(1)])
  moreover have "io_inv (wake_slot i s)"
    unfolding w by (rule io_inv_ev_push) (use assms(1) in \<open>simp add: sweep_inv_def io_inv_def\<close>)
  moreover have "tab ?t = (tab (s_tab s))[i := (tab (s_tab s) ! i)\<lparr>st_send_blocked := False\<rparr>]"
    by (rule tab_set_blocked)
  ultimately show ?thesis
    using assms by (auto simp: sweep_inv_def w waiting_def nth_list_update less_Suc_eq)
next
  case False
  then have "wake_slot i s = s" by (auto simp: wake_slot_def waiting_def Let_def)
  then show ?thesis using assms False by (auto simp: sweep_inv_def less_Suc_eq)
qed

lemma fold_wake_sweep:
  assumes "sweep_inv s 0" "k \<le> tab_cap (s_tab s)"
  shows "sweep_inv (fold wake_slot [0..<k] s) k \<and>
    tab_cap (s_tab (fold wake_slot [0..<k] s)) = tab_cap (s_tab s) \<and>
    s_sess_send_win (fold wake_slot [0..<k] s) = s_sess_send_win s"
  using assms(2)
proof (induction k)
  case 0
  then show ?case using assms(1) by simp
next
  case (Suc k)
  then show ?case using wake_slot_sweep [of "fold wake_slot [0..<k] s" k] by simp
qed

lemma sweep_inv_done:
  assumes "sweep_inv s (tab_cap (s_tab s))" shows "sess_inv s"
proof -
  have "stream_live s e" if v: "tab_view (s_tab s) sid = Some e" for sid e
  proof -
    obtain i where "i < tab_cap (s_tab s)" "tab (s_tab s) ! i = e" "st_used e"
      using pt.view_Some [of "tab (s_tab s)" sid e] v by (auto simp: tab_view_def)
    then show ?thesis using assms by (auto simp: sweep_inv_def waiting_def stream_live_def)
  qed
  then show ?thesis using assms by (auto simp: sess_inv_def live_inv_def sweep_inv_def)
qed

lemma sess_inv_cells:
  assumes "sess_inv s" "\<not> s_dead s" "i < tab_cap (s_tab s)" "st_used (tab (s_tab s) ! i)"
  shows "stream_live s (tab (s_tab s) ! i)"
  using sess_inv_stream(2) [OF assms(1), of i "st_sid (tab (s_tab s) ! i)"] assms by (simp add: at_sid_def)

lemma on_wu_session_inv:
  assumes inv: "sess_inv s" "\<not> s_dead s" and sid: "fr_sid f = MUX_SID_CONTROL" "fr_len f = 4"
  shows "sess_inv (on_window_update s f)"
proof -
  let ?c = "uint (be_get32 (the (fr_payload f)))"
  let ?s = "s\<lparr>s_sess_send_win := s_sess_send_win s + ?c\<rparr>"
  have c: "0 \<le> ?c" "?c < 2 ^ 32" by (rule uint_u32_bounds)+
  have w: "0 \<le> s_sess_send_win s" "s_sess_send_win s \<le> WIN_CAP"
    using inv by (auto simp: sess_inv_def core_inv_def live_inv_def)
  have core: "core_inv ?s" "io_inv ?s" using inv c w by (auto simp: sess_inv_def core_inv_def io_inv_def)
  consider "s_sess_send_win ?s > WIN_CAP"
    | "s_sess_send_win ?s \<le> WIN_CAP" "s_sess_send_win s \<le> 0" "s_sess_send_win ?s > 0" "blocked_count (s_tab s) > 0"
    | "s_sess_send_win ?s \<le> WIN_CAP"
      "\<not> (s_sess_send_win s \<le> 0 \<and> s_sess_send_win ?s > 0 \<and> blocked_count (s_tab s) > 0)" by linarith
  then show ?thesis
  proof cases
    case 1
    then have "on_window_update s f = raise_fatal ?s MUX_CODE_FLOW_CONTROL"
      using sid by (simp add: on_window_update_def Let_def)
    then show ?thesis using sess_inv_fatal core by simp
  next
    case 2
    have "sweep_inv ?s 0"
      using core 2 inv sess_inv_cells [OF inv] by (auto simp: sweep_inv_def stream_live_def)
    from fold_wake_sweep [OF this, of "tab_cap (s_tab s)"] show ?thesis
      using 2 sid sweep_inv_done by (simp add: on_window_update_def Let_def)
  next
    case 3
    then have wu: "on_window_update s f = ?s" using sid by (auto simp: on_window_update_def Let_def)
    have "st_send_win e \<le> 0 \<or> s_sess_send_win ?s \<le> 0"
      if v: "tab_view (s_tab s) k = Some e" and b: "st_send_blocked e" for k e
    proof -
      have "0 < blocked_count (s_tab s)"
      proof -
        obtain i where "i < tab_cap (s_tab s)" "tab (s_tab s) ! i = e" "st_used e"
          using pt.view_Some [of "tab (s_tab s)" k e] v by (auto simp: tab_view_def)
        then show ?thesis
          using cnt_pos [of i "tab (s_tab s)" st_blk] b inv by (simp add: sess_inv_def core_inv_def tab_inv_def)
      qed
      moreover have "st_send_win e \<le> 0 \<or> s_sess_send_win s \<le> 0"
        using inv v b by (auto simp: sess_inv_def live_inv_def stream_live_def)
      ultimately show ?thesis using 3 by auto
    qed
    then have "live_inv ?s" using inv 3(1) by (auto simp: sess_inv_def live_inv_def stream_live_def)
    then show ?thesis using core unfolding wu by (simp add: sess_inv_def)
  qed
qed

lemma on_wu_stream_inv:
  assumes inv: "sess_inv s" "\<not> s_dead s" and i: "st_find (s_tab s) (fr_sid f) = Some i"
    and sid: "fr_sid f \<noteq> MUX_SID_CONTROL" "fr_len f = 4"
  shows "sess_inv (on_window_update s f)"
proof -
  let ?c = "uint (be_get32 (the (fr_payload f)))" and ?e = "tab (s_tab s) ! i" and ?k = "fr_sid f"
  let ?f = "\<lambda>e. e\<lparr>st_send_win := st_send_win e + ?c\<rparr>"
  let ?t = "st_upd (s_tab s) i ?f"
  have c: "0 \<le> ?c" "?c < 2 ^ 32" by (rule uint_u32_bounds)+
  note at = sess_inv_find [OF inv(1) i]
  note st = sess_inv_stream [OF inv(1) at]
  have kf: "keeps_id ?f" by (simp add: keeps_id_def)
  note u = st_upd_spec [OF st(4) at kf]
  note b = set_blocked_spec [OF u [THEN conjunct1] u [THEN conjunct2, THEN conjunct2, THEN conjunct2], of False]
  have ok: "stream_ok s ?k (?f ?e)" "stream_ok s ?k ((?f ?e)\<lparr>st_send_blocked := False\<rparr>)"
    using st(1,2) c inv(2) by (auto simp: stream_ok_def stream_live_def)
  have cell: "tab ?t ! i = ?f ?e" using at by (simp add: st_upd_def at_sid_def)
  have wu: "on_window_update s f =
      (if st_send_win (?f ?e) > WIN_CAP then raise_fatal (s\<lparr>s_tab := ?t\<rparr>) MUX_CODE_FLOW_CONTROL
       else if st_send_blocked ?e \<and> st_send_win (?f ?e) > 0 \<and> s_sess_send_win s > 0 then
         ev_push (s\<lparr>s_tab := set_blocked ?t i False\<rparr>) (EV_WRITABLE ?k)
       else s\<lparr>s_tab := ?t\<rparr>)"
    using sid i cell by (simp add: on_window_update_def Let_def)
  have "core_inv (s\<lparr>s_tab := ?t\<rparr>)"
    using core_inv_tab [OF _ at, of ?t "Some (?f ?e)"] u ok inv by (simp add: sess_inv_def)
  then have fatal: "sess_inv (raise_fatal (s\<lparr>s_tab := ?t\<rparr>) MUX_CODE_FLOW_CONTROL)"
    using inv by (intro sess_inv_fatal) (simp_all add: sess_inv_def io_inv_def)
  have wake: "sess_inv (s\<lparr>s_tab := set_blocked ?t i False\<rparr>)" if "st_send_win (?f ?e) \<le> WIN_CAP"
    using sess_inv_tab [OF inv(1) at, of "set_blocked ?t i False" "Some ((?f ?e)\<lparr>st_send_blocked := False\<rparr>)"]
      b u ok that by (simp add: stream_live_def)
  have plain: "sess_inv (s\<lparr>s_tab := ?t\<rparr>)" if "st_send_win (?f ?e) \<le> WIN_CAP"
      "\<not> (st_send_blocked ?e \<and> st_send_win (?f ?e) > 0 \<and> s_sess_send_win s > 0)"
    using sess_inv_tab [OF inv(1) at, of ?t "Some (?f ?e)"] u ok that by (auto simp: stream_live_def)
  show ?thesis unfolding wu using fatal wake plain by auto
qed

lemma on_window_update_inv:
  assumes "sess_inv s" "\<not> s_dead s" shows "sess_inv (on_window_update s f)"
proof (cases "fr_len f \<noteq> 4 \<or> (fr_sid f \<noteq> MUX_SID_CONTROL \<and> st_find (s_tab s) (fr_sid f) = None)")
  case True
  then show ?thesis using assms by (auto simp: on_window_update_def Let_def)
next
  case False
  then show ?thesis
    using on_wu_session_inv [OF assms] on_wu_stream_inv [OF assms] by (cases "fr_sid f = MUX_SID_CONTROL") auto
qed

subsection \<open>Handshake and control frames\<close>

lemma hello_tlvs_wf:
  assumes "ident_ok (s_ident s)"
  shows "\<forall>tv \<in> set (hello_tlvs s). tlv_wf tv" "length (concat (map tlv_wire (hello_tlvs s))) \<le> 820"
  using assms by (auto simp: hello_tlvs_def tlv_wf_def ident_ok_def HELLO_BLOB_MAX_def)

text \<open>The HELLO always fits the 1024-byte buffer, so \<open>send_hello\<close> is one \<open>emit\<close>.\<close>

lemma send_hello_emit:
  assumes "ident_ok (s_ident s)"
  shows "\<exists>blob. send_hello s ack =
      (case emit s (if ack then MUX_T_HELLO_ACK else MUX_T_HELLO) 0 MUX_SID_CONTROL (Some blob)
              (of_nat (length (concat (map tlv_wire (hello_tlvs s))))) of
         (None, s') \<Rightarrow> (None, s'\<lparr>s_hello_sent := True\<rparr>) | (Some e, s') \<Rightarrow> (Some e, s')) \<and>
    length blob = 1024 \<and> take (length (concat (map tlv_wire (hello_tlvs s)))) blob = concat (map tlv_wire (hello_tlvs s))"
proof -
  let ?w = "concat (map tlv_wire (hello_tlvs s))"
  let ?blob = "mem_write (replicate 1024 0) 0 ?w :: bytes"
  note wf = hello_tlvs_wf [OF assms]
  have "tlv_puts (replicate 1024 0) 1024 0 (hello_tlvs s) = Inr (length ?w, ?blob)"
    using wf by (subst tlv_puts_eq) auto
  moreover have "length ?blob = 1024" using wf(2) by (subst length_mem_write) auto
  moreover have "take (length ?w) ?blob = ?w" by (simp add: mem_write_def)
  ultimately show ?thesis by (intro exI [of _ ?blob]) (simp add: send_hello_def)
qed

lemma sess_inv_hello_sent: "sess_inv s \<Longrightarrow> sess_inv (s\<lparr>s_hello_sent := b\<rparr>)"
  by (simp add: sess_inv_def core_inv_def live_inv_def io_inv_def)

lemma send_hello_inv:
  assumes "sess_inv s" shows "sess_inv (snd (send_hello s ack))"
proof -
  have id: "ident_ok (s_ident s)" using assms by (simp add: sess_inv_def core_inv_def)
  let ?w = "concat (map tlv_wire (hello_tlvs s))" and ?ty = "if ack then MUX_T_HELLO_ACK else MUX_T_HELLO"
  obtain blob where b: "send_hello s ack =
      (case emit s ?ty 0 MUX_SID_CONTROL (Some blob) (of_nat (length ?w)) of
         (None, s') \<Rightarrow> (None, s'\<lparr>s_hello_sent := True\<rparr>) | (Some e, s') \<Rightarrow> (Some e, s'))" "length blob = 1024"
    using send_hello_emit [OF id, of ack] by blast
  obtain r s' where em: "emit s ?ty 0 MUX_SID_CONTROL (Some blob) (of_nat (length ?w)) = (r, s')"
    by (cases "emit s ?ty 0 MUX_SID_CONTROL (Some blob) (of_nat (length ?w))") auto
  have "sess_inv s'"
    using hello_tlvs_wf(2) [OF id] b(2) by (intro sess_inv_emit(1) [OF assms em]) auto
  then show ?thesis using b(1) em sess_inv_hello_sent by (cases r) auto
qed

lemma sess_inv_empty:
  assumes "sess_inv s" "\<not> s_peer_hello_seen s" shows "tab_view (s_tab s) k = None"
  using assms tab_view_count [of "s_tab s" k] by (cases "tab_view (s_tab s) k") (auto simp: sess_inv_def core_inv_def)

definition hello_state :: "mux_session \<Rightarrow> mux_session \<Rightarrow> bool" where
  "hello_state s0 s \<longleftrightarrow> sess_inv s \<and> \<not> s_peer_hello_seen s \<and> s_role s = s_role s0 \<and> s_dead s = s_dead s0 \<and>
     s_hello_sent s = s_hello_sent s0 \<and> s_tab s = s_tab s0 \<and> s_out s = s_out s0 \<and> s_q s = s_q s0"

lemma hello_tlv_state:
  assumes "hello_state s0 (fst se)" shows "hello_state s0 (fst (hello_tlv se t v))"
proof -
  obtain s e where se: "se = (s, e)" by (cases se)
  have s: "sess_inv s" "\<not> s_peer_hello_seen s" using assms by (auto simp: hello_state_def se)
  note none = sess_inv_empty [OF s]
  have c: "tab_count (s_tab s) = 0" using s by (simp add: sess_inv_def core_inv_def)
  have 1: "sess_inv (s\<lparr>s_peer_max_streams := m\<rparr>)" "sess_inv (s\<lparr>s_peer_init_window := m\<rparr>)" for m
    using s none c by (simp_all add: sess_inv_def core_inv_def live_inv_def io_inv_def)
  have 2: "sess_inv (s\<lparr>s_sess_send_win := uint (m :: u32)\<rparr>)" for m
    using s none uint_u32_bounds [of m] by (simp add: sess_inv_def core_inv_def live_inv_def io_inv_def)
  show ?thesis using assms 1 2 by (auto simp: hello_tlv_def se hello_state_def)
qed

lemma on_hello_inv:
  assumes inv: "sess_inv s" shows "sess_inv (on_hello s f ack)"
proof (cases "fr_sid f \<noteq> MUX_SID_CONTROL \<or> s_peer_hello_seen s")
  case True
  then show ?thesis using inv by (auto simp: on_hello_def)
next
  case False
  obtain ok s' e where fo: "tlv_fold hello_tlv (fr_payload f) 0 (s, hello_info_zero) = (ok, s', e)"
    by (metis prod_cases3)
  have "hello_state s (fst (snd (tlv_fold hello_tlv (fr_payload f) 0 (s, hello_info_zero))))"
    using tlv_fold_inv [where P = "\<lambda>se. hello_state s (fst se)" and body = hello_tlv] hello_tlv_state inv False
    by (simp add: hello_state_def)
  then have s': "sess_inv s'" "\<not> s_peer_hello_seen s'" by (auto simp: fo hello_state_def)
  have "sess_inv (s'\<lparr>s_peer_hello_seen := True\<rparr>)"
    using s' sess_inv_empty [OF s'] by (simp add: sess_inv_def core_inv_def live_inv_def io_inv_def)
  then show ?thesis
    using False fo s'(1) send_hello_inv by (cases ok) (auto simp: on_hello_def Let_def)
qed

lemma sess_inv_ka: "sess_inv s \<Longrightarrow> sess_inv (s\<lparr>s_ka := k\<rparr>)"
  by (simp add: sess_inv_def core_inv_def live_inv_def io_inv_def)

lemma on_ping_inv:
  assumes "sess_inv s" "frame_wf f" shows "sess_inv (on_ping s f)"
proof -
  obtain r s' where em: "emit s MUX_T_PING MUX_F_ACK MUX_SID_CONTROL (fr_payload f) 8 = (r, s')"
    by (cases "emit s MUX_T_PING MUX_F_ACK MUX_SID_CONTROL (fr_payload f) 8") auto
  have "sess_inv s'" if "fr_len f = 8"
    using assms(2) that
    by (intro sess_inv_emit(1) [OF assms(1) em]) (auto simp: frame_wf_def payload_bytes_def)
  then show ?thesis using assms em by (simp add: on_ping_def sess_inv_ka)
qed

lemma process_frame_inv:
  assumes "sess_inv s" "\<not> s_dead s" "frame_wf f" shows "sess_inv (process_frame s f)"
  using assms on_data_inv on_window_update_inv on_ping_inv on_hello_inv
  by (simp add: process_frame_def Let_def on_goaway_def on_capacity_def)

lemma recv_loop_inv:
  assumes "sess_inv s" "\<not> s_dead s" shows "sess_inv (snd (recv_loop s buf cursor))"
  using assms
proof (induction s buf cursor rule: recv_loop.induct)
  case (1 s buf cursor)
  show ?case
  proof (cases "cursor < length buf \<and> \<not> evq_count (s_q s) \<ge> MUX_EVENT_QUEUE_SOFT_CAP")
    case False
    then show ?thesis using "1.prems" by (subst recv_loop.simps) auto
  next
    case go: True
    show ?thesis
    proof (cases "mux_parse (Some (drop cursor buf))")
      case (Inl e)
      then show ?thesis using "1.prems" go by (subst recv_loop.simps) auto
    next
      case (Inr fc)
      obtain f n where fc: "fc = (f, n)" by (cases fc)
      have "frame_wf f" using mux_parse_sound Inr fc by blast
      then have s': "sess_inv (process_frame s f)" using "1.prems" process_frame_inv by blast
      show ?thesis
      proof (cases "s_dead (process_frame s f)")
        case True
        then show ?thesis using s' go Inr fc by (subst recv_loop.simps) (simp add: Let_def)
      next
        case False
        then have "sess_inv (snd (recv_loop (process_frame s f) buf (cursor + n)))"
          using "1.IH" go Inr fc s' by auto
        then show ?thesis using False go Inr fc by (subst recv_loop.simps) (simp add: Let_def)
      qed
    qed
  qed
qed

end
