(* ===== verification/Mux_Session_Reach.thy ===== *)
theory Mux_Session_Reach
  imports Mux_Session_Inv
begin

text \<open>
  The public API as a state machine. \<open>sess_step\<close> has one rule per API function that changes
  the session, with the caller's obligations of the C interface as premises (a pointer covers
  the length passed with it), and \<open>reachable\<close> closes a successful construction under it.
  Every reachable session satisfies \<open>sess_inv\<close>.
\<close>

unbundle bit_operations_syntax

section \<open>Sending\<close>

lemma write_loop_spec:
  assumes "sess_inv s" "want \<le> length p" "sent \<le> want" "write_loop s sid p want sent = (n, s')"
  shows "sess_inv s' \<and> same_core s s' \<and> sent \<le> n \<and> n \<le> want \<and> (n < want \<longrightarrow> s_dead s')"
  using assms
proof (induction s sid p want sent rule: write_loop.induct)
  case (1 s sid p want sent)
  show ?case
  proof (cases "sent < want")
    case False
    then show ?thesis using "1.prems" by (subst (asm) write_loop.simps) auto
  next
    case True
    let ?c = "if want - sent > MUX_MAX_DATA_FRAME then MUX_MAX_DATA_FRAME else want - sent"
    have c: "?c \<le> 65536" "sent + ?c \<le> want" "0 < ?c" using True by (auto simp: MUX_MAX_DATA_FRAME_def)
    obtain r s1 where em: "emit s MUX_T_DATA 0 sid (Some (drop sent p)) (of_nat ?c) = (r, s1)"
      by (cases "emit s MUX_T_DATA 0 sid (Some (drop sent p)) (of_nat ?c)") auto
    have len: "unat (of_nat ?c :: u32) = ?c" using c(1) by (intro unat_len_u32) linarith
    have lq: "\<And>q. Some (drop sent p) = Some q \<Longrightarrow> unat (of_nat ?c :: u32) \<le> length q"
      using len c(2) "1.prems"(2) by auto
    note e = sess_inv_emit [OF "1.prems"(1) em lq]
    show ?thesis
    proof (cases r)
      case (Some x)
      have "s_dead s1"
      proof -
        have "(of_nat ?c :: u32) \<le> MUX_MAX_PAYLOAD" using c(1) len_le_max_payload [of ?c] by linarith
        then show ?thesis
          using emit_fails_dead [OF em [unfolded Some]] "1.prems"(1) by (simp add: sess_inv_def io_inv_def)
      qed
      moreover have "n = sent" "s' = s1" using "1.prems"(4) True em Some
        by (subst (asm) write_loop.simps, simp add: Let_def)+
      ultimately show ?thesis using e True by simp
    next
      case None
      have "write_loop s1 sid p want (sent + ?c) = (n, s')"
        using "1.prems"(4) True em None by (subst (asm) write_loop.simps) (simp add: Let_def)
      then have "sess_inv s' \<and> same_core s1 s' \<and> sent + ?c \<le> n \<and> n \<le> want \<and> (n < want \<longrightarrow> s_dead s')"
        using "1.IH" [OF _ refl em [symmetric]] True None e(1) "1.prems"(2) c(2) by blast
      then show ?thesis using e(2,3) None same_core_trans [of s s1 s'] by auto
    qed
  qed
qed

lemma sess_inv_debit:
  assumes inv: "sess_inv s" and w: "0 \<le> w" "w \<le> s_sess_send_win s"
  shows "sess_inv (s\<lparr>s_sess_send_win := w\<rparr>)"
proof -
  have "stream_live (s\<lparr>s_sess_send_win := w\<rparr>) e" if "stream_live s e" for e
    using that w by (auto simp: stream_live_def)
  then show ?thesis using inv w by (auto simp: sess_inv_def core_inv_def live_inv_def io_inv_def)
qed

text \<open>The three outcomes of \<open>mux_write\<close> on a stream that may send.\<close>

definition write_room :: "mux_session \<Rightarrow> mux_stream \<Rightarrow> int" where
  "write_room s e = min (st_send_win e) (s_sess_send_win s)"

lemma mux_write_cases:
  assumes "st_find (s_tab s) sid = Some i" "\<not> s_dead s" "n \<le> length p"
    "st_life (tab (s_tab s) ! i) \<noteq> LIFE_HCL_LOCAL"
  shows "mux_write s sid (Some p) n =
    (let room = write_room s (tab (s_tab s) ! i)
     in if room \<le> 0 then (Inr 0, s\<lparr>s_tab := set_blocked (s_tab s) i True\<rparr>)
        else case write_loop s sid p (min n (nat room)) 0 of (sent, s1) \<Rightarrow>
          let s2 = s1\<lparr>s_tab := st_upd (s_tab s1) i (\<lambda>e. e\<lparr>st_send_win := st_send_win e - int sent\<rparr>),
                      s_sess_send_win := s_sess_send_win s1 - int sent\<rparr>
          in (Inr sent, if sent < n \<and> (st_send_win (tab (s_tab s2) ! i) \<le> 0 \<or> s_sess_send_win s2 \<le> 0)
                        then s2\<lparr>s_tab := set_blocked (s_tab s2) i True\<rparr> else s2))"
proof -
  let ?e = "tab (s_tab s) ! i"
  have r: "(if s_sess_send_win s < st_send_win ?e then s_sess_send_win s else st_send_win ?e) = write_room s ?e"
    by (simp add: write_room_def min_def)
  have "(if int n > write_room s ?e then nat (write_room s ?e) else n) = min n (nat (write_room s ?e))"
    if "\<not> write_room s ?e \<le> 0" using that by (auto simp: min_def)
  then show ?thesis
    using assms by (simp add: mux_write_def Let_def r split: prod.splits)
qed

lemma mux_write_state:
  assumes inv: "sess_inv s" and i: "st_find (s_tab s) sid = Some i" and alive: "\<not> s_dead s" and n: "n \<le> length p"
    and life: "st_life (tab (s_tab s) ! i) \<noteq> LIFE_HCL_LOCAL" and room: "write_room s (tab (s_tab s) ! i) > 0"
    and w: "write_loop s sid p (min n (nat (write_room s (tab (s_tab s) ! i)))) 0 = (sent, s1)"
    and s2: "s2 = s1\<lparr>s_tab := st_upd (s_tab s1) i (\<lambda>e. e\<lparr>st_send_win := st_send_win e - int sent\<rparr>),
                      s_sess_send_win := s_sess_send_win s1 - int sent\<rparr>"
  shows "sess_inv s2" "at_sid (s_tab s2) i sid ((tab (s_tab s) ! i)\<lparr>st_send_win := st_send_win (tab (s_tab s) ! i) - int sent\<rparr>)"
    "int sent \<le> write_room s (tab (s_tab s) ! i)" "same_core s s1"
proof -
  let ?e = "tab (s_tab s) ! i" and ?f = "\<lambda>e. e\<lparr>st_send_win := st_send_win e - int sent\<rparr>"
  have ws: "sess_inv s1" "same_core s s1" "sent \<le> min n (nat (write_room s ?e))"
    using write_loop_spec [OF inv _ _ w] n by auto
  note sel = same_core_sel [OF ws(2)]
  have bound: "int sent \<le> write_room s ?e" using ws(3) room by linarith
  then have b2: "int sent \<le> st_send_win ?e" "int sent \<le> s_sess_send_win s" by (auto simp: write_room_def)
  have at: "at_sid (s_tab s1) i sid ?e" using sess_inv_find [OF inv i] by (simp add: sel)
  have kf: "keeps_id ?f" by (simp add: keeps_id_def)
  note st = sess_inv_stream [OF ws(1) at]
  have "sess_inv (s1\<lparr>s_tab := st_upd (s_tab s1) i ?f\<rparr>)"
    using st b2 by (intro sess_inv_st_upd [OF ws(1) at kf]) (auto simp: stream_ok_def stream_live_def)
  then show "sess_inv s2" unfolding s2 using b2 sel by (intro sess_inv_debit) auto
  show "at_sid (s_tab s2) i sid (?f ?e)" using st_upd_spec [OF st(4) at kf] by (simp add: s2)
  show "int sent \<le> write_room s ?e" by (rule bound)
  show "same_core s s1" by (rule ws(2))
qed

lemma mux_write_inv:
  assumes inv: "sess_inv s" and n: "\<And>q. p = Some q \<Longrightarrow> n \<le> length q"
  shows "sess_inv (snd (mux_write s sid p n))"
proof (cases "(p = None \<and> n \<noteq> 0) \<or> s_dead s \<or> st_find (s_tab s) sid = None")
  case True
  then show ?thesis using inv by (auto simp: mux_write_def)
next
  case False
  then obtain i where i: "st_find (s_tab s) sid = Some i" and alive: "\<not> s_dead s" by auto
  let ?q = "case p of None \<Rightarrow> [] | Some q \<Rightarrow> q" and ?e = "tab (s_tab s) ! i"
  have nq: "n \<le> length ?q" using n False by (cases p) auto
  have pq: "mux_write s sid p n = mux_write s sid (Some ?q) n"
    using False i by (cases p) (simp_all add: mux_write_def Let_def)
  show ?thesis
  proof (cases "st_life ?e = LIFE_HCL_LOCAL")
    case True
    then show ?thesis using inv alive i False by (auto simp: mux_write_def)
  next
    case life: False
    note at = sess_inv_find [OF inv i]
    note eq = mux_write_cases [OF i alive nq life]
    show ?thesis
    proof (cases "write_room s ?e \<le> 0")
      case True
      then show ?thesis unfolding pq eq using sess_inv_set_blocked [OF inv at, of True]
        by (auto simp: Let_def write_room_def min_le_iff_disj)
    next
      case room: False
      obtain sent s1 where w: "write_loop s sid ?q (min n (nat (write_room s ?e))) 0 = (sent, s1)"
        by (cases "write_loop s sid ?q (min n (nat (write_room s ?e))) 0") auto
      let ?s2 = "s1\<lparr>s_tab := st_upd (s_tab s1) i (\<lambda>e. e\<lparr>st_send_win := st_send_win e - int sent\<rparr>),
                      s_sess_send_win := s_sess_send_win s1 - int sent\<rparr>"
      have s2: "sess_inv ?s2" "at_sid (s_tab ?s2) i sid (?e\<lparr>st_send_win := st_send_win ?e - int sent\<rparr>)"
        using mux_write_state [OF inv i alive nq life _ w refl] room by auto
      have "sess_inv (?s2\<lparr>s_tab := set_blocked (s_tab ?s2) i True\<rparr>)"
        if "st_send_win (tab (s_tab ?s2) ! i) \<le> 0 \<or> s_sess_send_win ?s2 \<le> 0"
        using that s2(2) by (intro sess_inv_set_blocked [OF s2]) (auto simp: at_sid_def)
      then show ?thesis unfolding pq eq using room w s2(1) by (simp add: Let_def)
    qed
  qed
qed

section \<open>Opening, closing, crediting\<close>

text \<open>
  The dialer's ids run through the odd numbers; after \<open>0xFFFFFFFF\<close> the next one is 1 again.
  A host that opens fewer than \<open>2 ^ 31\<close> streams on one session never gets there.
\<close>

definition ids_left :: "mux_session \<Rightarrow> bool" where
  "ids_left s \<longleftrightarrow> s_next_local_sid s \<noteq> 0xFFFFFFFF"

lemma even_plus2: "((x :: u32) + 2) AND 1 = x AND 1"
  by (simp add: and_one_eq mod_2_eq_odd)

lemma next_sid_mono:
  assumes "(x :: u32) \<noteq> 0xFFFFFFFF" shows "x + 2 = 0 \<or> x < x + 2"
proof (cases "x + 2 = 0")
  case False
  have "unat x < 2 ^ 32 - 2"
  proof (rule ccontr)
    assume "\<not> unat x < 2 ^ 32 - 2"
    moreover have "unat x < 2 ^ 32" using unsigned_less [of x] by simp
    ultimately have "unat x = 4294967294 \<or> unat x = 4294967295" by auto
    then have "x = 4294967294 \<or> x = 4294967295" by (simp add: word_unat_eq_iff)
    then show False using assms False by auto
  qed
  then have "unat (x + 2) = unat x + 2" by (subst unat_word_ariths) simp
  then show ?thesis by (simp add: word_less_nat_alt)
qed simp

lemma mux_open_inv:
  assumes inv: "sess_inv s" and ids: "ids_left s" and m: "\<And>q. meta = Some q \<Longrightarrow> n \<le> length q"
  shows "sess_inv (snd (mux_open s meta n))"
proof (cases "s_dead s \<or> \<not> s_peer_hello_seen s \<or> s_local_goaway s \<or> n > unat MUX_MAX_META \<or>
    tab_count (s_tab s) \<ge> unat (s_peer_max_streams s) \<or> s_next_local_sid s = MUX_SID_CONTROL")
  case True
  then show ?thesis using inv by (auto simp: mux_open_def Let_def)
next
  case False
  let ?sid = "s_next_local_sid s"
  have t: "tab_inv (s_tab s)" and par: "?sid AND 1 = local_bit (s_role s)"
    using inv by (auto simp: sess_inv_def core_inv_def)
  have nz: "?sid \<noteq> 0" using False by (simp add: MUX_SID_CONTROL_def)
  have fresh: "tab_view (s_tab s) ?sid = None"
  proof (cases "tab_view (s_tab s) ?sid")
    case (Some e)
    then have "stream_ok s ?sid e" using inv by (simp add: sess_inv_def core_inv_def)
    then show ?thesis using par nz by (simp add: stream_ok_def)
  qed
  have mono: "?sid + 2 = 0 \<or> ?sid < ?sid + 2" using next_sid_mono ids by (simp add: ids_left_def)
  let ?s1 = "s\<lparr>s_next_local_sid := ?sid + 2\<rparr>"
  have next_inv: "sess_inv ?s1"
  proof -
    have "stream_ok ?s1 k e" if "stream_ok s k e" for k e
      using that mono nz by (auto simp: stream_ok_def split: if_splits)
    then show ?thesis
      using inv even_plus2 [of ?sid]
      by (auto simp: sess_inv_def core_inv_def live_inv_def io_inv_def stream_live_def)
  qed
  obtain r t' h where ins: "st_insert (s_tab s) ?sid (s_mem s) = (r, t', h)"
    by (cases "st_insert (s_tab s) ?sid (s_mem s)") auto
  show ?thesis
  proof (cases r)
    case None
    then show ?thesis
      using False ins sess_inv_tab_view [OF next_inv, of t' h] st_insert_spec [OF t fresh ins]
      by (simp add: mux_open_def Let_def)
  next
    case (Some i)
    let ?s2 = "s\<lparr>s_next_local_sid := ?sid + 2, s_tab := st_upd t' i (open_stream_fields s), s_mem := h,
      s_max_remote_sid := s_max_remote_sid s\<rparr>"
    have s2: "sess_inv ?s2" "at_sid (s_tab ?s2) i ?sid (open_stream_fields s (st_fresh ?sid))"
      using sess_inv_insert [OF inv fresh _ ins [unfolded Some], of "?sid + 2" "s_max_remote_sid s" ?s2]
        False mono nz par even_plus2 [of ?sid] by (auto simp: less_imp_le)
    have of: "open_stream_fields ?s1 = open_stream_fields s" by (simp add: fun_eq_iff open_stream_fields_def)
    obtain r' s' where em: "emit ?s2 MUX_T_DATA MUX_F_SYN ?sid (if n \<noteq> 0 then meta else None) (of_nat n) = (r', s')"
      by (cases "emit ?s2 MUX_T_DATA MUX_F_SYN ?sid (if n \<noteq> 0 then meta else None) (of_nat n)") auto
    have len: "n \<le> 8192" using False by (simp add: MUX_MAX_META_def)
    have pl: "\<And>p. (if n \<noteq> 0 then meta else None) = Some p \<Longrightarrow> unat (of_nat n :: u32) \<le> length p"
      using m len by (auto split: if_splits)
    note e = sess_inv_emit [OF s2(1) em pl]
    have "at_sid (s_tab s') i ?sid (open_stream_fields s (st_fresh ?sid))"
      using s2(2) same_core_sel(16) [OF e(2)] by simp
    then have "sess_inv (close_stream s' i)" using sess_inv_close_stream e(1) by blast
    then show ?thesis
      using False ins Some em e(1) of by (cases r') (simp_all add: mux_open_def Let_def close_stream_def)
  qed
qed

lemma mux_close_inv:
  assumes inv: "sess_inv s" shows "sess_inv (snd (mux_close s sid))"
proof (cases "s_dead s \<or> st_find (s_tab s) sid = None")
  case True
  then show ?thesis using inv by (auto simp: mux_close_def)
next
  case False
  then obtain i where i: "st_find (s_tab s) sid = Some i" by auto
  obtain r s' where em: "emit s MUX_T_DATA MUX_F_FIN sid None 0 = (r, s')"
    by (cases "emit s MUX_T_DATA MUX_F_FIN sid None 0") auto
  note e = sess_inv_emit [OF inv em, simplified]
  have "at_sid (s_tab s') i sid (tab (s_tab s) ! i)"
    using sess_inv_find [OF inv i] same_core_sel(16) [OF e(2)] by simp
  then show ?thesis
    using False i em e(1) inv sess_inv_close_stream sess_inv_life by (cases r) (auto simp: mux_close_def)
qed

lemma mux_reset_inv:
  assumes inv: "sess_inv s" shows "sess_inv (snd (mux_reset s sid code))"
proof (cases "s_dead s \<or> st_find (s_tab s) sid = None")
  case True
  then show ?thesis using inv by (auto simp: mux_reset_def)
next
  case False
  then obtain i where i: "st_find (s_tab s) sid = Some i" by auto
  show ?thesis
    using sess_inv_close_stream [of "emit_rst s sid code" i sid] sess_inv_find [OF inv i] inv False i
    by (simp add: mux_reset_def)
qed

lemma credit_emit_spec:
  assumes "sess_inv s" "credit_emit s sid win pend = (s', win', pend')"
  shows "sess_inv s' \<and> same_core s s' \<and> win \<le> win' \<and> win' + pend' = win + pend"
  using assms
proof (induction s sid win pend rule: credit_emit.induct)
  case (1 s sid win pend)
  show ?case
  proof (cases "pend \<le> 0")
    case True
    then show ?thesis using "1.prems" by (subst (asm) credit_emit.simps) auto
  next
    case False
    let ?c = "if pend > 0xFFFFFFFF then 0xFFFFFFFF else pend"
    obtain r s1 where em: "emit s MUX_T_WINDOW_UPDATE 0 sid (Some (be_put32 (word_of_int ?c))) 4 = (r, s1)"
      by (cases "emit s MUX_T_WINDOW_UPDATE 0 sid (Some (be_put32 (word_of_int ?c))) 4") auto
    have "\<And>p. Some (be_put32 (word_of_int ?c)) = Some p \<Longrightarrow> unat (4 :: u32) \<le> length p" by auto
    note e = sess_inv_emit [OF "1.prems"(1) em this]
    show ?thesis
    proof (cases r)
      case (Some x)
      then show ?thesis using "1.prems"(2) False em e by (subst (asm) credit_emit.simps) (simp add: Let_def)
    next
      case None
      have "credit_emit s1 sid (win + ?c) (pend - ?c) = (s', win', pend')"
        using "1.prems"(2) False em None by (subst (asm) credit_emit.simps) (simp add: Let_def)
      then have "sess_inv s' \<and> same_core s1 s' \<and> win + ?c \<le> win' \<and> win' + pend' = win + ?c + (pend - ?c)"
        using "1.IH" [OF False refl em [symmetric] None] e(1) by blast
      then show ?thesis using e(2) same_core_trans [of s s1 s'] False by (auto split: if_splits)
    qed
  qed
qed

lemma sess_inv_recv_pending: "sess_inv s \<Longrightarrow> sess_inv (s\<lparr>s_sess_recv_pending := w\<rparr>)"
  by (simp add: sess_inv_def core_inv_def live_inv_def io_inv_def)

lemma credit_session_inv:
  assumes "sess_inv s" shows "sess_inv (credit_session s) \<and> s_tab (credit_session s) = s_tab s"
proof (cases "s_sess_recv_pending s \<le> 0 \<or> s_sess_recv_pending s * 2 < uint (s_session_window s)")
  case True
  then show ?thesis using assms by (auto simp: credit_session_def)
next
  case False
  obtain s' w p where c: "credit_emit s MUX_SID_CONTROL (s_sess_recv_win s) (s_sess_recv_pending s) = (s', w, p)"
    by (metis prod_cases3)
  note cs = credit_emit_spec [OF assms c]
  have "0 \<le> s_sess_recv_win s" using assms by (simp add: sess_inv_def core_inv_def)
  then have "sess_inv (s'\<lparr>s_sess_recv_win := w, s_sess_recv_pending := p\<rparr>)"
    using cs by (intro sess_inv_recv_pending sess_inv_recv_win) auto
  then show ?thesis using False c cs same_core_sel(16) by (simp add: credit_session_def)
qed

lemma credit_stream_inv:
  assumes inv: "sess_inv s" and at: "at_sid (s_tab s) i sid e" shows "sess_inv (credit_stream s i)"
proof (cases "st_recv_pending e \<le> 0 \<or> st_recv_pending e * 2 < uint (s_init_window s)")
  case True
  then show ?thesis using inv at by (auto simp: credit_stream_def Let_def at_sid_def)
next
  case False
  obtain s' w p where c: "credit_emit s (st_sid e) (st_recv_win e) (st_recv_pending e) = (s', w, p)"
    by (metis prod_cases3)
  note cs = credit_emit_spec [OF inv c]
  have at': "at_sid (s_tab s') i sid e" using at cs same_core_sel(16) [of s s'] by simp
  have "0 \<le> st_recv_win e" using sess_inv_stream(1) [OF inv at] by (simp add: stream_ok_def)
  then have "sess_inv (s'\<lparr>s_tab := st_upd (s_tab s') i (\<lambda>e. e\<lparr>st_recv_win := w, st_recv_pending := p\<rparr>)\<rparr>)"
    using cs sess_inv_stream [OF _ at']
    by (intro sess_inv_st_upd [OF _ at']) (auto simp: keeps_id_def stream_ok_def stream_live_def)
  then show ?thesis using False c at by (simp add: credit_stream_def Let_def at_sid_def)
qed

lemma mux_consume_inv:
  assumes inv: "sess_inv s" shows "sess_inv (snd (mux_consume s sid n))"
proof (cases "s_dead s \<or> n = 0")
  case True
  then show ?thesis using inv by (auto simp: mux_consume_def)
next
  case False
  let ?s1 = "credit_session (s\<lparr>s_sess_recv_pending := s_sess_recv_pending s + sint n\<rparr>)"
  let ?f = "\<lambda>e. e\<lparr>st_recv_pending := st_recv_pending e + sint n\<rparr>"
  have s1: "sess_inv ?s1" using credit_session_inv [OF sess_inv_recv_pending [OF inv]] by blast
  show ?thesis
  proof (cases "st_find (s_tab ?s1) sid")
    case None
    then show ?thesis using s1 False by (simp add: mux_consume_def Let_def)
  next
    case (Some i)
    note at = sess_inv_find [OF s1 Some]
    have kf: "keeps_id ?f" by (simp add: keeps_id_def)
    note st = sess_inv_stream [OF s1 at]
    have "sess_inv (?s1\<lparr>s_tab := st_upd (s_tab ?s1) i ?f\<rparr>)"
      using st by (intro sess_inv_st_upd [OF s1 at kf]) (auto simp: stream_ok_def stream_live_def)
    moreover have "at_sid (st_upd (s_tab ?s1) i ?f) i sid (?f (tab (s_tab ?s1) ! i))"
      using st_upd_spec [OF st(4) at kf] by blast
    ultimately show ?thesis
      using False Some credit_stream_inv [of "?s1\<lparr>s_tab := st_upd (s_tab ?s1) i ?f\<rparr>" i sid]
      by (simp add: mux_consume_def Let_def)
  qed
qed

section \<open>Control and transport\<close>

lemma emit_snd_inv:
  assumes "sess_inv s" "\<And>p. payload = Some p \<Longrightarrow> unat plen \<le> length p"
  shows "sess_inv (snd (emit s ty fl sid payload plen))"
  using sess_inv_emit(1) [OF assms(1) _ assms(2)] by (metis prod.collapse)

lemma mux_send_capacity_inv: "sess_inv s \<Longrightarrow> sess_inv (snd (mux_send_capacity s w))"
  by (auto simp: mux_send_capacity_def intro!: emit_snd_inv)

lemma mux_goaway_inv: "sess_inv s \<Longrightarrow> sess_inv (snd (mux_goaway s reason))"
proof -
  assume "sess_inv s"
  then have "sess_inv (s\<lparr>s_local_goaway := True\<rparr>)"
    by (simp add: sess_inv_def core_inv_def live_inv_def io_inv_def)
  with \<open>sess_inv s\<close> show ?thesis by (auto simp: mux_goaway_def Let_def intro!: emit_snd_inv)
qed

lemma timer_ping_inv:
  assumes "sess_inv s" shows "sess_inv (timer_ping s now)"
proof -
  let ?b = "be_put32 (ucast (drop_bit 32 (ka_ping_nonce (s_ka s)))) @ be_put32 (ucast (ka_ping_nonce (s_ka s)))"
  have "sess_inv (snd (emit s MUX_T_PING 0 MUX_SID_CONTROL (Some ?b) 8))"
    using assms by (intro emit_snd_inv) auto
  then show ?thesis
    by (auto simp: timer_ping_def Let_def sess_inv_ka split: prod.splits option.splits)
qed

lemma mux_on_timer_inv: "sess_inv s \<Longrightarrow> sess_inv (snd (mux_on_timer s now))"
  by (simp add: mux_on_timer_def Let_def sess_inv_ka timer_ping_inv)

lemma mux_send_advance_inv: "sess_inv s \<Longrightarrow> sess_inv (mux_send_advance s n)"
  using ob_advance_spec [of "s_out s" n]
  by (simp add: mux_send_advance_def sess_inv_def core_inv_def live_inv_def io_inv_def)

lemma mux_next_event_inv:
  assumes "sess_inv s" "mux_next_event s = Some (e, s')" shows "sess_inv s'"
proof -
  obtain q where q: "evq_next (s_q s) = Some (e, q)" "s' = s\<lparr>s_q := q\<rparr>"
    using assms(2) by (auto simp: mux_next_event_def split: option.splits)
  have "evq_inv q"
    using evq_next_spec [of "s_q s"] assms(1) q(1) by (cases "evq_content (s_q s)") (auto simp: sess_inv_def io_inv_def)
  then show ?thesis using assms(1) by (simp add: q(2) sess_inv_def core_inv_def live_inv_def io_inv_def)
qed

lemma mux_recv_inv: "sess_inv s \<Longrightarrow> sess_inv (snd (mux_recv s bufp len))"
  using recv_loop_inv [of s "case bufp of None \<Rightarrow> [] | Some b \<Rightarrow> take len b" 0]
  by (auto simp: mux_recv_def split: prod.splits)

section \<open>Construction\<close>

lemma own_blob_length: "own_blob p n h = (Some b, h') \<Longrightarrow> length b \<le> n"
  by (auto simp: own_blob_def dup_blob_def split: if_splits option.splits prod.splits)

lemma session_init_inv:
  assumes g: "st_grow (s_tab (session_init cfg role h)) want h2 = (None, t, h')"
    and b: "length pid \<le> 256" "length au \<le> 256" "length no \<le> 256"
  shows "sess_inv ((session_init cfg role h)\<lparr>s_tab := t, s_mem := h'',
    s_ident := (s_ident (session_init cfg role h))\<lparr>id_peer_id := pid, id_auth := au, id_nonce := no\<rparr>\<rparr>)"
proof -
  have z: "s_tab (session_init cfg role h) = stream_tab_zero" by (simp add: session_init_def)
  have t: "tab_inv t" "tab_view t k = None" "tab_count t = 0" for k
    using st_grow_spec [OF _ g] by (simp_all add: z) (simp add: stream_tab_zero_def)
  show ?thesis
    using t b uint_u32_bounds [of "nz (cfg_session_window cfg) MUX_DEFAULT_SESSION_WINDOW"]
    by (simp add: sess_inv_def core_inv_def live_inv_def io_inv_def session_init_def local_bit_def
        ident_ok_def HELLO_BLOB_MAX_def MUX_DEFAULT_SESSION_WINDOW_def)
qed

lemma mux_session_new_inv:
  assumes "mux_session_new (Some cfg) role h = Some s"
  shows "sess_inv s"
proof -
  obtain pid h1 au h2 no h3 h0 t h4 where
    b: "own_blob (cfg_peer_id cfg) (cfg_peer_id_len cfg) h0 = (Some pid, h1)"
      "own_blob (cfg_auth cfg) (cfg_auth_len cfg) h1 = (Some au, h2)"
      "own_blob (cfg_nonce cfg) (cfg_nonce_len cfg) h2 = (Some no, h3)"
    and len: "cfg_peer_id_len cfg \<le> 256" "cfg_auth_len cfg \<le> 256" "cfg_nonce_len cfg \<le> 256"
    and g: "st_grow (s_tab (session_init cfg role h3))
       (let want = unat (s_max_streams (session_init cfg role h3)) * 2 in if want < 64 then 64 else want)
       (s_mem (session_init cfg role h3)) = (None, t, h4)"
    and s: "(let s1 = (session_init cfg role h3)\<lparr>s_tab := t, s_mem := h4,
        s_ident := (s_ident (session_init cfg role h3))\<lparr>id_peer_id := pid, id_auth := au, id_nonce := no\<rparr>\<rparr>
       in if role = MUX_DIALER then (case send_hello s1 False of (None, s) \<Rightarrow> Some s | (Some _, s) \<Rightarrow> None)
          else Some s1) = Some s"
    using assms
    by (auto simp: mux_session_new_def HELLO_BLOB_MAX_def Let_def
        split: if_splits prod.splits bool.splits option.splits)
  let ?s1 = "(session_init cfg role h3)\<lparr>s_tab := t, s_mem := h4,
        s_ident := (s_ident (session_init cfg role h3))\<lparr>id_peer_id := pid, id_auth := au, id_nonce := no\<rparr>\<rparr>"
  have inv: "sess_inv ?s1"
    using session_init_inv [OF g] own_blob_length [OF b(1)] own_blob_length [OF b(2)] own_blob_length [OF b(3)] len
    by (meson order_trans)
  have "s = ?s1 \<or> s = snd (send_hello ?s1 False)"
    using s by (auto simp: Let_def split: if_splits prod.splits option.splits)
  then show ?thesis using inv send_hello_inv [OF inv] by auto
qed

section \<open>The state machine\<close>

inductive sess_step :: "mux_session \<Rightarrow> mux_session \<Rightarrow> bool" where
  step_recv: "sess_step s (snd (mux_recv s bufp len))"
| step_open: "\<lbrakk>ids_left s; \<And>q. meta = Some q \<Longrightarrow> n \<le> length q\<rbrakk> \<Longrightarrow> sess_step s (snd (mux_open s meta n))"
| step_write: "(\<And>q. p = Some q \<Longrightarrow> n \<le> length q) \<Longrightarrow> sess_step s (snd (mux_write s sid p n))"
| step_close: "sess_step s (snd (mux_close s sid))"
| step_reset: "sess_step s (snd (mux_reset s sid code))"
| step_consume: "sess_step s (snd (mux_consume s sid k))"
| step_capacity: "sess_step s (snd (mux_send_capacity s w))"
| step_goaway: "sess_step s (snd (mux_goaway s reason))"
| step_timer: "sess_step s (snd (mux_on_timer s now))"
| step_advance: "sess_step s (mux_send_advance s n)"
| step_event: "mux_next_event s = Some (e, s') \<Longrightarrow> sess_step s s'"

inductive reachable :: "mux_session \<Rightarrow> bool" where
  reach_new: "mux_session_new (Some cfg) role h = Some s \<Longrightarrow> reachable s"
| reach_step: "reachable s \<Longrightarrow> sess_step s s' \<Longrightarrow> reachable s'"

lemma sess_step_inv: "sess_step s s' \<Longrightarrow> sess_inv s \<Longrightarrow> sess_inv s'"
proof (induction rule: sess_step.induct)
  case (step_open s meta n)
  then show ?case using mux_open_inv by blast
next
  case (step_write p n s sid)
  then show ?case using mux_write_inv by blast
next
  case (step_event s e s')
  then show ?case using mux_next_event_inv by blast
qed (simp_all add: mux_recv_inv mux_close_inv mux_reset_inv mux_consume_inv mux_send_capacity_inv
    mux_goaway_inv mux_on_timer_inv mux_send_advance_inv)

lemma reachable_inv: "reachable s \<Longrightarrow> sess_inv s"
  by (induction rule: reachable.induct) (auto intro: mux_session_new_inv sess_step_inv)

end
