(* ===== verification/Mux_Example_Session.thy ===== *)
theory Mux_Example_Session
  imports Mux_Session_Reach
begin

text \<open>
  A concrete session for the witnesses of the session properties: an acceptor with small
  windows that received the peer's HELLO_ACK (initial window 50) and a SYN for stream 1. It
  is given both as the result of the API calls and as the explicit record they compute.
\<close>

definition wit_cfg :: mux_config where
  "wit_cfg = \<lparr>cfg_init_window = 100, cfg_session_window = 200, cfg_max_streams = 4, cfg_heartbeat_ms = 1000,
     cfg_keepalive_timeout_ms = 0, cfg_weight = 1, cfg_max_out_buffer = 0, cfg_peer_id = None,
     cfg_peer_id_len = 0, cfg_auth = None, cfg_auth_len = 0, cfg_nonce = None, cfg_nonce_len = 0\<rparr>"

definition wit_acc :: mux_session where
  "wit_acc = the (mux_session_new (Some wit_cfg) MUX_ACCEPTOR [])"

definition wit_hello :: bytes where
  "wit_hello = [1, 0x11, 0, 0, 0, 0, 0, 0, 0, 0, 0, 8, 0, 5, 0, 4, 0, 0, 0, 50]"

definition wit_syn :: bytes where
  "wit_syn = [1, 0, 0, 1, 0, 0, 0, 1, 0, 0, 0, 0]"

definition wit_live :: mux_session where
  "wit_live = snd (mux_recv wit_acc (Some (wit_hello @ wit_syn)) 32)"

lemma wit_live_eq:
  "wit_live =
   \<lparr>s_role = MUX_ACCEPTOR, s_dead = False, s_init_window = 100, s_session_window = 200, s_max_streams = 4,
    s_peer_init_window = 50, s_peer_max_streams = 65536, s_sess_send_win = 16777216, s_sess_recv_win = 200,
    s_sess_recv_pending = 0, s_peer_hello_seen = True, s_hello_sent = False, s_local_goaway = False,
    s_ident = \<lparr>id_peer_id = [], id_auth = [], id_nonce = [], id_weight = 1\<rparr>,
    s_next_local_sid = 2, s_max_remote_sid = 1,
    s_tab = \<lparr>tab = (replicate 64 st_zero)[57 := \<lparr>st_sid = 1, st_slot = SLOT_USED, st_life = LIFE_OPEN,
        st_send_blocked = False, st_send_win = 50, st_recv_win = 100, st_recv_pending = 0\<rparr>],
      tab_count = 1, tab_tombs = 0, blocked_count = 0\<rparr>,
    s_ka = \<lparr>ka_heartbeat_ms = 1000, ka_timeout_ms = 3000, ka_timer_started = False,
      ka_ping_outstanding = False, ka_ping_due_ms = 0, ka_ping_sent_ms = 0, ka_ping_nonce = 0\<rparr>,
    s_max_out_buffer = 67108864, s_out = outbuf_zero,
    s_q = \<lparr>evq_ev = [Some (EV_PEER_HELLO \<lparr>hi_weight = 0, hi_max_streams = 0, hi_init_window = 50,
        hi_peer_id = None, hi_auth = None, hi_nonce = None\<rparr>), Some (EV_STREAM_OPENED 1 None)] @ replicate 62 None,
      evq_head = 0, evq_count = 2\<rparr>,
    s_mem = []\<rparr>"
  by code_simp

lemma wit_live_find: "st_find (s_tab wit_live) 1 = Some 57"
  unfolding wit_live_eq by code_simp

lemma wit_acc_new: "mux_session_new (Some wit_cfg) MUX_ACCEPTOR [] = Some wit_acc"
proof -
  have "mux_session_new (Some wit_cfg) MUX_ACCEPTOR [] \<noteq> None" by code_simp
  then show ?thesis by (simp add: wit_acc_def)
qed

lemma wit_live_reachable: "reachable wit_live"
  unfolding wit_live_def by (rule reach_step [OF reach_new [OF wit_acc_new] step_recv])

lemma wit_live_cell:
  "tab (s_tab wit_live) ! 57 = \<lparr>st_sid = 1, st_slot = SLOT_USED, st_life = LIFE_OPEN,
     st_send_blocked = False, st_send_win = 50, st_recv_win = 100, st_recv_pending = 0\<rparr>"
  by (simp add: wit_live_eq)

lemma wit_live_view: "tab_view (s_tab wit_live) 1 = Some (tab (s_tab wit_live) ! 57)"
  using st_find_spec [of "s_tab wit_live" 1] wit_live_find reachable_inv [OF wit_live_reachable]
  by (simp add: sess_inv_def core_inv_def)

text \<open>
  The same with an advertised connection window of 0: the first write on stream 1 is refused
  and the stream waits. \<open>wit_wu\<close> is the connection credit that reopens the window.
\<close>

definition wit_hello_shut :: bytes where
  "wit_hello_shut = [1, 0x11, 0, 0, 0, 0, 0, 0, 0, 0, 0, 16, 0, 5, 0, 4, 0, 0, 0, 50, 0, 7, 0, 4, 0, 0, 0, 0]"

definition wit_shut0 :: mux_session where
  "wit_shut0 = snd (mux_recv wit_acc (Some (wit_hello_shut @ wit_syn)) 40)"

definition wit_shut :: mux_session where
  "wit_shut = snd (mux_write wit_shut0 1 (Some [7, 8, 9]) 3)"

definition wit_wu :: mux_frame where
  "wit_wu = frame_of MUX_T_WINDOW_UPDATE 0 0 [0, 0, 0, 9]"

lemma wit_shut_eq:
  "wit_shut = wit_live\<lparr>s_sess_send_win := 0,
    s_tab := \<lparr>tab = (replicate 64 st_zero)[57 := \<lparr>st_sid = 1, st_slot = SLOT_USED, st_life = LIFE_OPEN,
        st_send_blocked = True, st_send_win = 50, st_recv_win = 100, st_recv_pending = 0\<rparr>],
      tab_count = 1, tab_tombs = 0, blocked_count = 1\<rparr>\<rparr>"
  unfolding wit_live_eq by code_simp

lemma wit_shut_reachable: "reachable wit_shut"
  unfolding wit_shut_def wit_shut0_def
  by (rule reach_step [OF reach_step [OF reach_new [OF wit_acc_new] step_recv] step_write]) simp

lemma wit_shut_view: "tab_view (s_tab wit_shut) 1 = Some (tab (s_tab wit_shut) ! 57)"
  unfolding wit_shut_eq by code_simp

text \<open>And with an advertised connection window of 150, for a session that can write.\<close>

definition wit_writer :: mux_session where
  "wit_writer = snd (mux_recv wit_acc (Some ([1, 0x11, 0, 0, 0, 0, 0, 0, 0, 0, 0, 16, 0, 5, 0, 4, 0, 0, 0, 50,
     0, 7, 0, 4, 0, 0, 0, 150] @ wit_syn)) 40)"

lemma wit_writer_eq: "wit_writer = wit_live\<lparr>s_sess_send_win := 150\<rparr>"
  unfolding wit_live_eq by code_simp

lemma wit_writer_reachable: "reachable wit_writer"
  unfolding wit_writer_def by (rule reach_step [OF reach_new [OF wit_acc_new] step_recv])

text \<open>And a session past the handshake that has no stream.\<close>

definition wit_gone :: mux_session where
  "wit_gone = snd (mux_recv wit_acc (Some wit_hello) 20)"

lemma wit_gone_reachable: "reachable wit_gone"
  unfolding wit_gone_def by (rule reach_step [OF reach_new [OF wit_acc_new] step_recv])

end
