(* ===== verification/Mux_Flow.thy ===== *)
theory Mux_Flow
  imports Mux_Example_Session
begin

text \<open>
  Flow control: what \<open>mux_write\<close> puts on the wire and takes from the windows, what
  \<open>mux_consume\<close> credits back, how a reopened window wakes the streams that wait for it, and
  the ranges the windows stay in. The frames a call appends to the output buffer are given by
  their wire form, \<open>frame_bytes\<close>.
\<close>

unbundle bit_operations_syntax

section \<open>Emission under an allocator that does not fail\<close>

lemma ob_reserve_room:
  assumes inv: "ob_inv ob" and room: "ob_len ob + need \<le> limit"
  shows "\<exists>ob'. ob_reserve ob need limit [] = (None, ob', []) \<and> ob_len ob' \<le> ob_len ob"
proof -
  have c: "ob_len (ob_compact ob) \<le> ob_len ob" by (simp add: ob_compact_def)
  have g: "\<exists>ob'. ob_grow ob1 need limit [] = (None, ob', []) \<and> ob_len ob' \<le> ob_len ob"
    if "ob_len ob1 \<le> ob_len ob" for ob1
    using that room by (simp add: ob_grow_def Let_def)
  show ?thesis
    using c g [of ob] g [of "ob_compact ob"] by (auto simp: ob_reserve_def Let_def)
qed

lemma emit_room:
  assumes io: "io_inv s" and mem: "s_mem s = []"
    and pl: "\<And>p. payload = Some p \<Longrightarrow> unat plen \<le> length p" "plen = 0 \<or> payload \<noteq> None" "plen \<le> MUX_MAX_PAYLOAD"
    and room: "ob_len (s_out s) + 12 + unat plen \<le> unat (s_max_out_buffer s)"
  shows "\<exists>s'. emit s ty fl sid payload plen = (None, s') \<and> s_mem s' = [] \<and>
    ob_len (s_out s') \<le> ob_len (s_out s) + 12 + unat plen"
proof -
  have inv: "ob_inv (s_out s)" using io by (simp add: io_inv_def)
  obtain ob where res: "ob_reserve (s_out s) (12 + unat plen) (unat (s_max_out_buffer s)) [] = (None, ob, [])"
    and le: "ob_len ob \<le> ob_len (s_out s)"
    using ob_reserve_room [OF inv] room by (metis add.assoc)
  let ?dst = "drop (ob_len ob) (ob_buf ob)"
  have "12 + unat plen \<le> length ?dst" using ob_reserve_spec [OF inv res] by (simp add: le_diff_conv2)
  then obtain n region where c: "mux_craft (Some ?dst) (length ?dst) ty fl sid payload plen = Inr (n, region)"
    using mux_craft_ok [OF _ pl(2,3)] by blast
  then show ?thesis
    using res le mem mux_craft_region [OF c] by (simp add: emit_def MUX_HEADER_SIZE_def)
qed

lemma frame_bytes_eq:
  assumes "length p < 4294967296"
  shows "frame_bytes ty fl sid p = craft_header_bytes ty fl sid (of_nat (length p)) @ p"
  by (simp add: frame_bytes_def frame_wire_def)

section \<open>Writing\<close>

text \<open>The bytes a write loop appends: whole DATA frames that carry the next bytes of \<open>p\<close>.\<close>

definition data_frames :: "u32 \<Rightarrow> bytes list \<Rightarrow> bytes" where
  "data_frames sid cs = concat (map (frame_bytes MUX_T_DATA 0 sid) cs)"

lemma write_loop_wire:
  assumes "io_inv s" "want \<le> length p" "sent \<le> want" "write_loop s sid p want sent = (n, s')"
  shows "\<exists>cs. ob_pending (s_out s') = ob_pending (s_out s) @ data_frames sid cs \<and>
    concat cs = take (n - sent) (drop sent p) \<and> (\<forall>c \<in> set cs. 0 < length c \<and> length c \<le> 65536) \<and>
    sent \<le> n \<and> n \<le> want"
  using assms
proof (induction s sid p want sent rule: write_loop.induct)
  case (1 s sid p want sent)
  show ?case
  proof (cases "sent < want")
    case False
    then show ?thesis using "1.prems" by (subst (asm) write_loop.simps) (auto simp: data_frames_def intro: exI [of _ "[]"])
  next
    case True
    let ?c = "if want - sent > MUX_MAX_DATA_FRAME then MUX_MAX_DATA_FRAME else want - sent"
    let ?p = "take ?c (drop sent p)"
    have c: "?c \<le> 65536" "sent + ?c \<le> want" "0 < ?c" using True by (auto simp: MUX_MAX_DATA_FRAME_def)
    obtain r s1 where em: "emit s MUX_T_DATA 0 sid (Some (drop sent p)) (of_nat ?c) = (r, s1)"
      by (cases "emit s MUX_T_DATA 0 sid (Some (drop sent p)) (of_nat ?c)") auto
    have len: "unat (of_nat ?c :: u32) = ?c" using c(1) by (intro unat_len_u32) linarith
    have lp: "length ?p = ?c" using c(2) "1.prems"(2) by auto
    have lq: "\<And>q. Some (drop sent p) = Some q \<Longrightarrow> unat (of_nat ?c :: u32) \<le> length q"
      using len c(2) "1.prems"(2) by auto
    note e = emit_cases [OF "1.prems"(1) em lq]
    show ?thesis
    proof (cases r)
      case (Some x)
      then have "n = sent" "s' = s1" using "1.prems"(4) True em
        by (subst (asm) write_loop.simps, simp add: Let_def)+
      then show ?thesis using e Some True by (intro exI [of _ "[]"]) (simp add: data_frames_def)
    next
      case None
      have "write_loop s1 sid p want (sent + ?c) = (n, s')"
        using "1.prems"(4) True em None by (subst (asm) write_loop.simps) (simp add: Let_def)
      then obtain cs where cs: "ob_pending (s_out s') = ob_pending (s_out s1) @ data_frames sid cs"
        "concat cs = take (n - (sent + ?c)) (drop (sent + ?c) p)" "\<forall>c \<in> set cs. 0 < length c \<and> length c \<le> 65536"
        "sent + ?c \<le> n" "n \<le> want"
        using "1.IH" [OF _ refl em [symmetric] None] True e "1.prems"(2) c(2) by blast
      have "frame_bytes MUX_T_DATA 0 sid ?p = craft_header_bytes MUX_T_DATA 0 sid (of_nat ?c) @ ?p"
        using frame_bytes_eq [of ?p MUX_T_DATA 0 sid] lp c(1) by simp
      then have "ob_pending (s_out s1) = ob_pending (s_out s) @ frame_bytes MUX_T_DATA 0 sid ?p"
        using e None len by simp
      moreover have "take (n - sent) (drop sent p) = ?p @ concat cs"
        using cs(2,4) take_add [of ?c "n - (sent + ?c)" "drop sent p"] by (simp add: add.commute)
      ultimately show ?thesis
        using cs lp c by (intro exI [of _ "?p # cs"]) (auto simp: data_frames_def)
    qed
  qed
qed

text \<open>The space that the frames for \<open>m\<close> payload bytes take in the output buffer.\<close>

definition write_space :: "nat \<Rightarrow> nat" where
  "write_space m = m + 12 * ((m + 65535) div 65536)"

lemma write_space_step:
  assumes "0 < m" "c = (if m > MUX_MAX_DATA_FRAME then MUX_MAX_DATA_FRAME else m)"
  shows "write_space m = 12 + c + write_space (m - c)"
proof (cases "m > 65536")
  case True
  then have "(m + 65535) div 65536 = Suc ((m - 65536 + 65535) div 65536)"
    using div_add_self1 [of 65536 "m - 65536 + 65535"] by simp
  then show ?thesis using True assms(2) by (simp add: write_space_def MUX_MAX_DATA_FRAME_def)
next
  case False
  then have "(m + 65535) div 65536 = 1" using assms(1) by (intro div_nat_eqI) auto
  then show ?thesis using False assms(2) by (simp add: write_space_def MUX_MAX_DATA_FRAME_def)
qed

lemma write_loop_room:
  assumes "sess_inv s" "s_mem s = []" "want \<le> length p" "sent \<le> want"
    "ob_len (s_out s) + write_space (want - sent) \<le> unat (s_max_out_buffer s)"
  shows "\<exists>s'. write_loop s sid p want sent = (want, s') \<and> s_dead s' = s_dead s"
  using assms
proof (induction s sid p want sent rule: write_loop.induct)
  case (1 s sid p want sent)
  show ?case
  proof (cases "sent < want")
    case False
    then show ?thesis using "1.prems" by (subst write_loop.simps) auto
  next
    case True
    let ?c = "if want - sent > MUX_MAX_DATA_FRAME then MUX_MAX_DATA_FRAME else want - sent"
    have c: "?c \<le> 65536" "sent + ?c \<le> want" "0 < ?c" using True by (auto simp: MUX_MAX_DATA_FRAME_def)
    have len: "unat (of_nat ?c :: u32) = ?c" using c(1) by (intro unat_len_u32) linarith
    have lq: "\<And>q. Some (drop sent p) = Some q \<Longrightarrow> unat (of_nat ?c :: u32) \<le> length q"
      using len c(2) "1.prems"(3) by auto
    have max: "(of_nat ?c :: u32) \<le> MUX_MAX_PAYLOAD" using c(1) len_le_max_payload [of ?c] by linarith
    have sp: "write_space (want - sent) = 12 + ?c + write_space (want - (sent + ?c))"
      using write_space_step [OF _ refl, of "want - sent"] True by simp
    have io: "io_inv s" using "1.prems"(1) by (simp add: sess_inv_def)
    have rm: "ob_len (s_out s) + 12 + unat (of_nat ?c :: u32) \<le> unat (s_max_out_buffer s)"
      using "1.prems"(5) sp len by linarith
    obtain s1 where em: "emit s MUX_T_DATA 0 sid (Some (drop sent p)) (of_nat ?c) = (None, s1)" "s_mem s1 = []"
      "ob_len (s_out s1) \<le> ob_len (s_out s) + 12 + ?c"
      using emit_room [OF io "1.prems"(2) lq _ max rm, where ty = MUX_T_DATA and fl = 0 and sid = sid] len by auto
    have e: "sess_inv s1" "same_core s s1" "s_dead s1 = s_dead s"
      using sess_inv_emit [OF "1.prems"(1) em(1)] lq by blast+
    have "ob_len (s_out s1) + write_space (want - (sent + ?c)) \<le> unat (s_max_out_buffer s1)"
      unfolding same_core_sel(18) [OF e(2)] using em(3) "1.prems"(5) sp by linarith
    then obtain s' where "write_loop s1 sid p want (sent + ?c) = (want, s')" "s_dead s' = s_dead s1"
      using "1.IH" [OF _ refl em(1) [symmetric] refl] True e(1) em(2) "1.prems"(3) c(2) by blast
    then show ?thesis using True em(1) e(3) by (subst write_loop.simps) (simp add: Let_def)
  qed
qed

text \<open>
  Whatever the allocator does, the bytes a successful write reports are on the wire, in DATA
  frames of the stream, and within both windows.
\<close>

lemma mux_write_wire:
  assumes inv: "sess_inv s" and alive: "\<not> s_dead s" and v: "tab_view (s_tab s) sid = Some e" and n: "n \<le> length p"
    and w: "mux_write s sid (Some p) n = (Inr sent, s')"
  shows "\<exists>cs. ob_pending (s_out s') = ob_pending (s_out s) @ data_frames sid cs \<and> concat cs = take sent p \<and>
    length (concat cs) = sent \<and> (\<forall>c \<in> set cs. 0 < length c \<and> length c \<le> 65536) \<and>
    int sent \<le> st_send_win e \<and> int sent \<le> s_sess_send_win s \<and> sent \<le> n \<and>
    s_sess_send_win s' = s_sess_send_win s - int sent"
proof -
  have t: "tab_inv (s_tab s)" using inv by (simp add: sess_inv_def core_inv_def)
  obtain i where i: "st_find (s_tab s) sid = Some i" using v st_find_None [OF t, of sid] by fastforce
  have e: "tab (s_tab s) ! i = e" using st_find_spec [OF t, of sid] i v by simp
  have life: "st_life e \<noteq> LIFE_HCL_LOCAL" using w alive i e by (auto simp: mux_write_def)
  note eq = mux_write_cases [OF i alive n, unfolded e, OF life]
  have ok: "0 \<le> st_send_win e" "0 \<le> s_sess_send_win s"
    using sess_inv_stream(1) [OF inv sess_inv_find [OF inv i, unfolded e]] inv
    by (auto simp: stream_ok_def sess_inv_def core_inv_def)
  show ?thesis
  proof (cases "write_room s e \<le> 0")
    case True
    then have "sent = 0" "s_out s' = s_out s" "s_sess_send_win s' = s_sess_send_win s"
      using w unfolding eq by (auto simp: Let_def)
    then show ?thesis using ok by (intro exI [of _ "[]"]) (simp add: data_frames_def)
  next
    case False
    let ?w = "min n (nat (write_room s e))"
    obtain k s1 where l: "write_loop s sid p ?w 0 = (k, s1)" by (cases "write_loop s sid p ?w 0")
    then have k: "k = sent" "s_out s' = s_out s1" "s_sess_send_win s' = s_sess_send_win s1 - int sent"
      using w False unfolding eq by (auto simp: Let_def split: if_splits)
    have "same_core s s1" using mux_write_state [OF inv i alive n _ _ _ refl, unfolded e, OF life _ l] False by auto
    note sw = same_core_sel(7) [OF this]
    obtain cs where cs: "ob_pending (s_out s1) = ob_pending (s_out s) @ data_frames sid cs"
      "concat cs = take sent p" "\<forall>c \<in> set cs. 0 < length c \<and> length c \<le> 65536" "sent \<le> ?w"
      using write_loop_wire [OF _ _ _ l] inv min.coboundedI1 [OF n] k by (auto simp: sess_inv_def)
    have "length (concat cs) = sent" using cs(2,4) n by simp
    then show ?thesis using cs k sw False by (intro exI [of _ cs]) (auto simp: write_room_def)
  qed
qed

text \<open>
  C4. What a write does, exactly. On a live stream that is not locally closed, with room in
  the output buffer and an allocator that does not fail, \<open>mux_write\<close> accepts as many bytes as
  the request, the stream's send window and the connection's send window all allow. It
  appends them to the output as DATA frames of at most 64 KiB, in order and with nothing
  else, takes exactly that many bytes from both windows, and leaves the stream flagged for
  a wake-up exactly when bytes remain and a window is exhausted.
\<close>

theorem mux_write_exact:
  assumes r: "reachable s" and alive: "\<not> s_dead s" and v: "tab_view (s_tab s) sid = Some e"
    and life: "st_life e \<noteq> LIFE_HCL_LOCAL" and n: "n \<le> length p" and mem: "s_mem s = []"
    and room: "ob_len (s_out s) + write_space n \<le> unat (s_max_out_buffer s)"
    and sent: "sent = min n (nat (min (st_send_win e) (s_sess_send_win s)))"
  shows "\<exists>s' e' cs. mux_write s sid (Some p) n = (Inr sent, s') \<and> \<not> s_dead s' \<and>
    tab_view (s_tab s') = (tab_view (s_tab s))(sid \<mapsto> e') \<and>
    st_send_win e' = st_send_win e - int sent \<and> s_sess_send_win s' = s_sess_send_win s - int sent \<and>
    (st_send_blocked e' \<longleftrightarrow> (st_send_win e' \<le> 0 \<or> s_sess_send_win s' \<le> 0) \<and>
       (sent < n \<or> st_send_win e \<le> 0 \<or> s_sess_send_win s \<le> 0)) \<and>
    ob_pending (s_out s') = ob_pending (s_out s) @ data_frames sid cs \<and>
    concat cs = take sent p \<and> (\<forall>c \<in> set cs. 0 < length c \<and> length c \<le> 65536)"
proof -
  have inv: "sess_inv s" by (rule reachable_inv [OF r])
  have t: "tab_inv (s_tab s)" using inv by (simp add: sess_inv_def core_inv_def)
  obtain i where i: "st_find (s_tab s) sid = Some i"
    using v st_find_None [OF t, of sid] by fastforce
  have e: "tab (s_tab s) ! i = e" using st_find_spec [OF t, of sid] i v by simp
  note at = sess_inv_find [OF inv i, unfolded e]
  have ok: "stream_ok s sid e" "stream_live s e" using sess_inv_stream [OF inv at] alive by auto
  note eq = mux_write_cases [OF i alive n, unfolded e, OF life]
  show ?thesis
  proof (cases "write_room s e \<le> 0")
    case True
    then have z: "sent = 0" by (simp add: sent write_room_def)
    let ?s' = "s\<lparr>s_tab := set_blocked (s_tab s) i True\<rparr>"
    have w: "mux_write s sid (Some p) n = (Inr sent, ?s')" unfolding eq using True z by (simp add: Let_def)
    show ?thesis
      using w z alive set_blocked_spec [OF t at, of True] True
      by (intro exI [of _ ?s'] exI [of _ "e\<lparr>st_send_blocked := True\<rparr>"] exI [of _ "[]"])
        (auto simp: data_frames_def write_room_def min_le_iff_disj)
  next
    case False
    let ?w = "min n (nat (write_room s e))"
    have sw: "sent = ?w" by (simp add: sent write_room_def)
    have "write_space ?w \<le> write_space n"
      unfolding write_space_def by (intro add_mono mult_le_mono div_le_mono) auto
    then have "ob_len (s_out s) + write_space (?w - 0) \<le> unat (s_max_out_buffer s)" using room by simp
    then obtain s1 where w: "write_loop s sid p ?w 0 = (?w, s1)" "s_dead s1 = s_dead s"
      using write_loop_room [OF inv mem, of ?w p 0 sid] min.coboundedI1 [OF n] by auto
    let ?s2 = "s1\<lparr>s_tab := st_upd (s_tab s1) i (\<lambda>e. e\<lparr>st_send_win := st_send_win e - int sent\<rparr>),
                      s_sess_send_win := s_sess_send_win s1 - int sent\<rparr>"
    let ?e2 = "e\<lparr>st_send_win := st_send_win e - int sent\<rparr>"
    have s2: "sess_inv ?s2" "at_sid (s_tab ?s2) i sid ?e2" "same_core s s1"
      using mux_write_state [OF inv i alive n _ _ _ refl, unfolded e, OF life _ w(1)] False sw by auto
    obtain cs where cs: "ob_pending (s_out s1) = ob_pending (s_out s) @ data_frames sid cs"
      "concat cs = take sent p" "\<forall>c \<in> set cs. 0 < length c \<and> length c \<le> 65536"
      using write_loop_wire [OF _ _ _ w(1)] inv min.coboundedI1 [OF n] sw by (auto simp: sess_inv_def)
    have v2: "tab_view (s_tab ?s2) = (tab_view (s_tab s))(sid \<mapsto> ?e2)"
      using st_upd_spec [OF t at, of "\<lambda>e. e\<lparr>st_send_win := st_send_win e - int sent\<rparr>"] same_core_sel(16) [OF s2(3)]
      by (simp add: keeps_id_def)
    have c2: "tab (s_tab ?s2) ! i = ?e2" using s2(2) by (simp add: at_sid_def)
    have win: "s_sess_send_win ?s2 = s_sess_send_win s - int sent" using same_core_sel(7) [OF s2(3)] by simp
    have nb: "\<not> st_send_blocked e"
      using ok(2) False by (auto simp: stream_live_def write_room_def min_le_iff_disj)
    let ?blk = "sent < n \<and> (st_send_win ?e2 \<le> 0 \<or> s_sess_send_win ?s2 \<le> 0)"
    let ?s' = "if ?blk then ?s2\<lparr>s_tab := set_blocked (s_tab ?s2) i True\<rparr> else ?s2"
    have w': "mux_write s sid (Some p) n = (Inr sent, ?s')"
    proof -
      have "write_loop s sid p ?w 0 = (sent, s1)" using w(1) sw by simp
      then show ?thesis unfolding eq using False c2 by (simp add: Let_def)
    qed
    have t2: "tab_inv (s_tab ?s2)" using s2(1) by (simp add: sess_inv_def core_inv_def)
    have vv: "tab_view (s_tab ?s') = (tab_view (s_tab s))(sid \<mapsto> ?e2\<lparr>st_send_blocked := ?blk\<rparr>)"
      using set_blocked_spec [OF t2 s2(2), of True] v2 nb by auto
    show ?thesis
      using w' vv win alive w(2) cs False
      by (intro exI [of _ ?s'] exI [of _ "?e2\<lparr>st_send_blocked := ?blk\<rparr>"] exI [of _ cs])
        (auto simp: write_room_def)
  qed
qed

lemma wit_write_space: "ob_len (s_out wit_live) + write_space 3 \<le> unat (s_max_out_buffer wit_live)"
  by (simp add: wit_live_eq outbuf_zero_def write_space_def)

theorem mux_write_exact_witness:
  "\<exists>s' cs. mux_write wit_live 1 (Some [7, 8, 9]) 3 = (Inr 3, s') \<and> \<not> s_dead s' \<and>
    s_sess_send_win s' = 16777213 \<and> concat cs = [7, 8, 9] \<and> ob_pending (s_out s') = data_frames 1 cs"
proof -
  have w: "\<not> s_dead wit_live" "s_mem wit_live = []" "s_sess_send_win wit_live = 16777216"
    "ob_pending (s_out wit_live) = []" by (simp_all add: wit_live_eq)
  have len: "3 \<le> length [7, 8, 9 :: u8]" by simp
  have life: "st_life (tab (s_tab wit_live) ! 57) \<noteq> LIFE_HCL_LOCAL" by (simp add: wit_live_cell)
  obtain s' cs where "mux_write wit_live 1 (Some [7, 8, 9]) 3 = (Inr 3, s')" "\<not> s_dead s'"
    "s_sess_send_win s' = s_sess_send_win wit_live - int 3"
    "ob_pending (s_out s') = ob_pending (s_out wit_live) @ data_frames 1 cs" "concat cs = take 3 [7, 8, 9]"
    using mux_write_exact [OF wit_live_reachable w(1) wit_live_view life len w(2) wit_write_space, of 3]
    by (auto simp: wit_live_cell w(3))
  then show ?thesis using w by (intro exI [of _ s'] exI [of _ cs]) simp
qed

section \<open>Crediting\<close>

text \<open>WINDOW_UPDATE frames for the given credits.\<close>

definition wu_frames :: "u32 \<Rightarrow> u32 list \<Rightarrow> bytes" where
  "wu_frames sid cs = concat (map (\<lambda>c. frame_bytes MUX_T_WINDOW_UPDATE 0 sid (be_put32 c)) cs)"

definition credit_sum :: "u32 list \<Rightarrow> int" where
  "credit_sum cs = sum_list (map uint cs)"

lemma credit_emit_wire:
  assumes "sess_inv s" "credit_emit s sid win pend = (s', win', pend')"
  shows "\<exists>cs. ob_pending (s_out s') = ob_pending (s_out s) @ wu_frames sid cs \<and> win' = win + credit_sum cs \<and>
    (\<forall>c \<in> set cs. c \<noteq> 0) \<and> (s_dead s' \<or> pend' \<le> 0)"
  using assms
proof (induction s sid win pend rule: credit_emit.induct)
  case (1 s sid win pend)
  show ?case
  proof (cases "pend \<le> 0")
    case True
    then show ?thesis using "1.prems"
      by (subst (asm) credit_emit.simps) (auto simp: wu_frames_def credit_sum_def intro: exI [of _ "[]"])
  next
    case False
    let ?c = "if pend > 0xFFFFFFFF then 0xFFFFFFFF else pend"
    let ?w = "word_of_int ?c :: u32"
    obtain r s1 where em: "emit s MUX_T_WINDOW_UPDATE 0 sid (Some (be_put32 ?w)) 4 = (r, s1)"
      by (cases "emit s MUX_T_WINDOW_UPDATE 0 sid (Some (be_put32 ?w)) 4") auto
    have uw: "uint ?w = ?c" using False by (auto simp: uint_word_of_int)
    have lq: "\<And>p. Some (be_put32 ?w) = Some p \<Longrightarrow> unat (4 :: u32) \<le> length p" by auto
    have e: "sess_inv s1" using sess_inv_emit(1) [OF "1.prems"(1) em] lq by blast
    have io: "io_inv s" "ob_inv (s_out s)" using "1.prems"(1) by (auto simp: sess_inv_def io_inv_def)
    note ec = emit_cases [OF io(1) em] lq
    show ?thesis
    proof (cases r)
      case (Some x)
      have "s_dead s1"
        using emit_fails_dead [OF em [unfolded Some] _ _ io(2)] by (simp add: MUX_MAX_PAYLOAD_def)
      moreover have "s' = s1" "win' = win" "pend' = pend" using "1.prems"(2) False em Some
        by (subst (asm) credit_emit.simps, simp add: Let_def)+
      moreover have "ob_pending (s_out s1) = ob_pending (s_out s)" using ec Some by auto
      ultimately show ?thesis by (intro exI [of _ "[]"]) (simp add: wu_frames_def credit_sum_def)
    next
      case None
      have "credit_emit s1 sid (win + ?c) (pend - ?c) = (s', win', pend')"
        using "1.prems"(2) False em None by (subst (asm) credit_emit.simps) (simp add: Let_def)
      then obtain cs where cs: "ob_pending (s_out s') = ob_pending (s_out s1) @ wu_frames sid cs"
        "win' = win + ?c + credit_sum cs" "\<forall>c \<in> set cs. c \<noteq> 0" "s_dead s' \<or> pend' \<le> 0"
        using "1.IH" [OF False refl em [symmetric] None e] by blast
      have "frame_bytes MUX_T_WINDOW_UPDATE 0 sid (be_put32 ?w) =
          craft_header_bytes MUX_T_WINDOW_UPDATE 0 sid 4 @ be_put32 ?w"
        by (simp add: frame_bytes_eq)
      then have "ob_pending (s_out s1) = ob_pending (s_out s) @ frame_bytes MUX_T_WINDOW_UPDATE 0 sid (be_put32 ?w)"
        using ec None by simp
      moreover have "uint ?w \<noteq> 0" unfolding uw using False by simp
      then have "?w \<noteq> 0" by auto
      ultimately show ?thesis
        using cs uw by (intro exI [of _ "?w # cs"]) (auto simp: wu_frames_def credit_sum_def)
    qed
  qed
qed

lemma credit_session_wire:
  assumes inv: "sess_inv s"
  shows "\<exists>cs. ob_pending (s_out (credit_session s)) = ob_pending (s_out s) @ wu_frames MUX_SID_CONTROL cs \<and>
    s_sess_recv_win (credit_session s) = s_sess_recv_win s + credit_sum cs \<and>
    s_sess_recv_win (credit_session s) + s_sess_recv_pending (credit_session s) =
      s_sess_recv_win s + s_sess_recv_pending s \<and>
    (s_dead (credit_session s) \<or> s_sess_recv_pending (credit_session s) \<le> 0 \<or>
       s_sess_recv_pending (credit_session s) * 2 < uint (s_session_window s)) \<and>
    same_core (s\<lparr>s_sess_recv_win := s_sess_recv_win (credit_session s),
      s_sess_recv_pending := s_sess_recv_pending (credit_session s)\<rparr>) (credit_session s)"
proof (cases "s_sess_recv_pending s \<le> 0 \<or> s_sess_recv_pending s * 2 < uint (s_session_window s)")
  case True
  then have "credit_session s = s" by (auto simp: credit_session_def)
  then show ?thesis using True by (intro exI [of _ "[]"]) (simp add: wu_frames_def credit_sum_def)
next
  case False
  obtain s' w p where c: "credit_emit s MUX_SID_CONTROL (s_sess_recv_win s) (s_sess_recv_pending s) = (s', w, p)"
    by (metis prod_cases3)
  have eq: "credit_session s = s'\<lparr>s_sess_recv_win := w, s_sess_recv_pending := p\<rparr>"
    using False c by (simp add: credit_session_def)
  have sp: "same_core s s'" "w + p = s_sess_recv_win s + s_sess_recv_pending s"
    using credit_emit_spec [OF inv c] by auto
  have "same_core (s\<lparr>s_sess_recv_win := w, s_sess_recv_pending := p\<rparr>) (credit_session s)"
    using sp(1) unfolding eq by (cases s; cases s') (simp add: same_core_def)
  then show ?thesis using credit_emit_wire [OF inv c] sp(2) by (auto simp: eq)
qed

lemma credit_stream_wire:
  assumes inv: "sess_inv s" and at: "at_sid (s_tab s) i sid e"
  shows "\<exists>ds e'. ob_pending (s_out (credit_stream s i)) = ob_pending (s_out s) @ wu_frames sid ds \<and>
    tab_view (s_tab (credit_stream s i)) = (tab_view (s_tab s))(sid \<mapsto> e') \<and>
    e' = e\<lparr>st_recv_win := st_recv_win e', st_recv_pending := st_recv_pending e'\<rparr> \<and>
    st_recv_win e' = st_recv_win e + credit_sum ds \<and>
    st_recv_win e' + st_recv_pending e' = st_recv_win e + st_recv_pending e \<and>
    (s_dead (credit_stream s i) \<or> st_recv_pending e' \<le> 0 \<or> st_recv_pending e' * 2 < uint (s_init_window s)) \<and>
    s_sess_recv_win (credit_stream s i) = s_sess_recv_win s \<and>
    s_sess_recv_pending (credit_stream s i) = s_sess_recv_pending s \<and> (s_dead s \<longrightarrow> s_dead (credit_stream s i))"
proof (cases "st_recv_pending e \<le> 0 \<or> st_recv_pending e * 2 < uint (s_init_window s)")
  case True
  then have "credit_stream s i = s" using at by (auto simp: credit_stream_def Let_def at_sid_def)
  moreover have "tab_view (s_tab s) sid = Some e"
    using at_sid_view [OF sess_inv_stream(4) [OF inv at] at] .
  ultimately show ?thesis using True
    by (intro exI [of _ "[]"] exI [of _ e]) (auto simp: wu_frames_def credit_sum_def fun_upd_idem)
next
  case False
  obtain s' w p where c: "credit_emit s (st_sid e) (st_recv_win e) (st_recv_pending e) = (s', w, p)"
    by (metis prod_cases3)
  let ?f = "\<lambda>e. e\<lparr>st_recv_win := w, st_recv_pending := p\<rparr>"
  have eq: "credit_stream s i = s'\<lparr>s_tab := st_upd (s_tab s') i ?f\<rparr>"
    using False c at by (simp add: credit_stream_def Let_def at_sid_def)
  have sp: "same_core s s'" "w + p = st_recv_win e + st_recv_pending e" "sess_inv s'"
    using credit_emit_spec [OF inv c] by auto
  note sel = same_core_sel [OF sp(1)]
  have sid: "st_sid e = sid" using at by (simp add: at_sid_def)
  obtain ds where ds: "ob_pending (s_out s') = ob_pending (s_out s) @ wu_frames sid ds" "w = st_recv_win e + credit_sum ds"
    "s_dead s' \<or> p \<le> 0"
    using credit_emit_wire [OF inv c] sid by auto
  have "tab_view (st_upd (s_tab s') i ?f) = (tab_view (s_tab s))(sid \<mapsto> ?f e)"
    using st_upd_spec [OF sess_inv_stream(4) [OF inv at] at, of ?f] by (simp add: sel keeps_id_def)
  then show ?thesis
    using ds sp(2) same_core_dead [OF sp(1)] by (intro exI [of _ ds] exI [of _ "?f e"]) (auto simp: eq sel)
qed



end
