(* ===== verification/Mux_Wakeup.thy ===== *)
theory Mux_Wakeup
  imports Mux_Flow
begin

text \<open>
  The invariant of a running session read as promises to the host: the windows stay in
  range, the counters count what they name, a stream that was refused a write is woken
  exactly when both of its windows are open again, and a failed session stays failed and
  reports its failure once.
\<close>

unbundle bit_operations_syntax

section \<open>Ranges and counters\<close>

lemma blocked_count_card:
  assumes "tab_inv t"
  shows "blocked_count t = card {sid. \<exists>e. tab_view t sid = Some e \<and> st_send_blocked e}"
proof -
  let ?I = "{i. i < tab_cap t \<and> st_blk (tab t ! i)}" and ?S = "{sid. \<exists>e. tab_view t sid = Some e \<and> st_send_blocked e}"
  have p: "probe_inv st_emp st_key home_of (tab t)" using assms by (simp add: tab_inv_def)
  have v: "tab_view t (st_sid (tab t ! i)) = Some (tab t ! i)" if "i < tab_cap t" "st_used (tab t ! i)" for i
    using pt.view_iff [OF p that(1)] that(2) by (simp add: tab_view_def)
  have "bij_betw (\<lambda>i. st_sid (tab t ! i)) ?I ?S"
  proof (rule bij_betwI')
    fix i j assume "i \<in> ?I" "j \<in> ?I"
    then show "(st_sid (tab t ! i) = st_sid (tab t ! j)) = (i = j)"
      using p unfolding probe_inv_def by auto
  next
    fix i assume "i \<in> ?I"
    then show "st_sid (tab t ! i) \<in> ?S" using v by auto
  next
    fix k assume "k \<in> ?S"
    then obtain e where "tab_view t k = Some e" "st_send_blocked e" by auto
    then show "\<exists>i \<in> ?I. k = st_sid (tab t ! i)"
      using pt.view_Some [of "tab t" k e] by (auto simp: tab_view_def)
  qed
  then show ?thesis using assms by (simp add: bij_betw_same_card tab_inv_def length_filter_conv_card)
qed



text \<open>
  C22. The table's counters are exact in every reachable session: \<open>tab_count\<close> is the number
  of live streams and \<open>blocked_count\<close> the number of streams waiting for a window. The number
  of live streams is within the larger of the two advertised limits, no stream exists before
  the peer's HELLO, and every stream's id was allocated by the side its parity names.
\<close>

theorem stream_accounting:
  assumes "reachable s"
  shows "tab_count (s_tab s) = card (dom (tab_view (s_tab s))) \<and>
    blocked_count (s_tab s) = card {sid. \<exists>e. tab_view (s_tab s) sid = Some e \<and> st_send_blocked e} \<and>
    tab_count (s_tab s) \<le> max (unat (s_max_streams s)) (unat (s_peer_max_streams s)) \<and>
    (\<not> s_peer_hello_seen s \<longrightarrow> tab_view (s_tab s) sid = None) \<and>
    (tab_view (s_tab s) sid \<noteq> None \<longrightarrow> sid \<noteq> MUX_SID_CONTROL \<and>
       (if sid AND 1 = local_bit (s_role s) then s_next_local_sid s = 0 \<or> sid < s_next_local_sid s
        else sid \<le> s_max_remote_sid s))"
proof -
  have inv: "sess_inv s" by (rule reachable_inv [OF assms])
  have t: "tab_inv (s_tab s)" and st: "\<And>e. tab_view (s_tab s) sid = Some e \<Longrightarrow> stream_ok s sid e"
    and le: "tab_count (s_tab s) \<le> max (unat (s_max_streams s)) (unat (s_peer_max_streams s))"
    using inv by (auto simp: sess_inv_def core_inv_def)
  have "tab_view (s_tab s) sid \<noteq> None \<longrightarrow> sid \<noteq> MUX_SID_CONTROL \<and>
       (if sid AND 1 = local_bit (s_role s) then s_next_local_sid s = 0 \<or> sid < s_next_local_sid s
        else sid \<le> s_max_remote_sid s)"
    using st by (auto simp: stream_ok_def MUX_SID_CONTROL_def)
  then show ?thesis
    using tab_count_card [OF t] blocked_count_card [OF t] le sess_inv_empty [OF inv, of sid] by blast
qed

theorem stream_accounting_witness:
  "card (dom (tab_view (s_tab wit_live))) = 1 \<and> (1 :: u32) \<le> s_max_remote_sid wit_live"
  using stream_accounting [OF wit_live_reachable, of 1] wit_live_view
  by (simp add: wit_live_eq local_bit_def)

section \<open>Waking blocked writers\<close>

lemma ev_push_content:
  assumes "io_inv s" "s_mem s = []"
  shows "evq_content (s_q (ev_push s e)) = evq_content (s_q s) @ [e]" "s_mem (ev_push s e) = []"
proof -
  obtain q' where q: "evq_push (s_q s) e [] = (None, q', [])" by (rule exE [OF evq_push_ok [of "s_q s" e]])
  then show "evq_content (s_q (ev_push s e)) = evq_content (s_q s) @ [e]" "s_mem (ev_push s e) = []"
    using evq_push_spec [OF _ q] assms by (auto simp: ev_push_def io_inv_def)
qed

definition wake :: "mux_stream \<Rightarrow> mux_stream" where
  "wake e = (if waiting e then e\<lparr>st_send_blocked := False\<rparr> else e)"

lemma fold_wake_exact:
  assumes "io_inv s" "s_mem s = []" "k \<le> tab_cap (s_tab s)"
  shows "let s' = fold wake_slot [0..<k] s in io_inv s' \<and> s_mem s' = [] \<and>
    tab (s_tab s') = map wake (take k (tab (s_tab s))) @ drop k (tab (s_tab s)) \<and>
    evq_content (s_q s') =
      evq_content (s_q s) @ map (\<lambda>e. EV_WRITABLE (st_sid e)) (filter waiting (take k (tab (s_tab s))))"
  using assms(3)
proof (induction k)
  case 0
  then show ?case using assms by simp
next
  case (Suc k)
  let ?t = "tab (s_tab s)" and ?s = "fold wake_slot [0..<k] s"
  have IH: "io_inv ?s" "s_mem ?s = []" "tab (s_tab ?s) = map wake (take k ?t) @ drop k ?t"
    "evq_content (s_q ?s) = evq_content (s_q s) @ map (\<lambda>e. EV_WRITABLE (st_sid e)) (filter waiting (take k ?t))"
    using Suc by (simp_all add: Let_def)
  have k: "k < length ?t" using Suc.prems by simp
  have at: "tab (s_tab ?s) ! k = ?t ! k" using IH(3) k by (simp add: nth_append)
  have tk: "take (Suc k) ?t = take k ?t @ [?t ! k]" using k by (rule take_Suc_conv_app_nth)
  have dk: "drop k ?t = ?t ! k # drop (Suc k) ?t" using k by (rule Cons_nth_drop_Suc [symmetric])
  show ?case
  proof (cases "waiting (?t ! k)")
    case True
    let ?s1 = "?s\<lparr>s_tab := set_blocked (s_tab ?s) k False\<rparr>"
    have w: "wake_slot k ?s = ev_push ?s1 (EV_WRITABLE (st_sid (?t ! k)))"
      using True at by (simp add: wake_slot_def waiting_def Let_def)
    have io: "io_inv ?s1" "s_mem ?s1 = []" using IH by (simp_all add: io_inv_def)
    have "tab (s_tab ?s1) = map wake (take k ?t) @ wake (?t ! k) # drop (Suc k) ?t"
      using IH(3) k True at by (simp add: tab_set_blocked wake_def dk list_update_append)
    then show ?thesis
      using w ev_push_content [OF io] io IH(4) True by (simp add: Let_def tk)
  next
    case False
    then have "wake_slot k ?s = ?s" using at by (auto simp: wake_slot_def waiting_def Let_def)
    then show ?thesis using IH False by (simp add: Let_def tk dk wake_def)
  qed
qed

lemma no_blocked_no_waiting:
  assumes "tab_inv t" "blocked_count t = 0"
  shows "filter waiting (tab t) = []" "map wake (tab t) = tab t"
proof -
  have "\<not> waiting e" if "e \<in> set (tab t)" for e
    using assms that by (auto simp: tab_inv_def waiting_def filter_empty_conv)
  then show "filter waiting (tab t) = []" "map wake (tab t) = tab t"
    by (auto simp: filter_empty_conv wake_def intro: map_idI)
qed

lemma wu_session_exact:
  assumes inv: "sess_inv s" and alive: "\<not> s_dead s" and mem: "s_mem s = []"
    and f: "fr_sid f = MUX_SID_CONTROL" "fr_len f = 4"
    and shut: "s_sess_send_win s \<le> 0" and c: "c = uint (be_get32 (the (fr_payload f)))" "0 < c"
  shows "\<not> s_dead (on_window_update s f) \<and> s_sess_send_win (on_window_update s f) = c \<and>
    evq_content (s_q (on_window_update s f)) = evq_content (s_q s) @
      map (\<lambda>e. EV_WRITABLE (st_sid e)) (filter waiting (tab (s_tab s))) \<and>
    tab (s_tab (on_window_update s f)) = map wake (tab (s_tab s))"
proof -
  have t: "tab_inv (s_tab s)" and w0: "s_sess_send_win s = 0" and io: "io_inv s"
    using inv shut by (auto simp: sess_inv_def core_inv_def)
  let ?s1 = "s\<lparr>s_sess_send_win := c\<rparr>" and ?s' = "on_window_update s f"
  have cap: "c \<le> WIN_CAP" using uint_u32_bounds [of "be_get32 (the (fr_payload f))"] c(1) by simp
  have eq: "?s' = (if blocked_count (s_tab s) > 0 then fold wake_slot [0..<tab_cap (s_tab s)] ?s1 else ?s1)"
    using f cap c w0 by (simp add: on_window_update_def Let_def)
  have io1: "io_inv ?s1" "s_mem ?s1 = []" using io mem by (simp_all add: io_inv_def)
  show ?thesis
  proof (cases "blocked_count (s_tab s) > 0")
    case True
    have "sweep_inv ?s1 0"
      using inv alive cap c sess_inv_cells [OF inv alive] io1
      by (auto simp: sweep_inv_def sess_inv_def core_inv_def stream_live_def)
    then have "sweep_inv ?s' (tab_cap (s_tab s))" "s_sess_send_win ?s' = c"
      using fold_wake_sweep [of ?s1 "tab_cap (s_tab s)"] eq True by simp_all
    then show ?thesis
      using fold_wake_exact [OF io1, of "tab_cap (s_tab s)"] eq True by (simp add: Let_def sweep_inv_def)
  next
    case False
    then show ?thesis using eq alive no_blocked_no_waiting [OF t] by simp
  qed
qed

text \<open>
  When the connection's send window reopens, every stream that was refused and may now
  send is woken, in table order, and nothing else happens: the events appended are exactly
  the WRITABLE events of the streams that were waiting with an open stream window, and
  exactly their flags are cleared. The counter that lets the code skip the sweep never makes
  it skip a waiting stream.
\<close>

theorem session_window_reopens:
  assumes r: "reachable s" and alive: "\<not> s_dead s" and mem: "s_mem s = []"
    and f: "fr_type f = MUX_T_WINDOW_UPDATE" "fr_sid f = MUX_SID_CONTROL" "fr_len f = 4"
    and hello: "s_peer_hello_seen s"
    and shut: "s_sess_send_win s \<le> 0" and c: "c = uint (be_get32 (the (fr_payload f)))" "0 < c"
    and s': "s' = process_frame s f"
  shows "\<not> s_dead s' \<and> s_sess_send_win s' = c \<and>
    evq_content (s_q s') = evq_content (s_q s) @
      map (\<lambda>e. EV_WRITABLE (st_sid e)) (filter waiting (tab (s_tab s))) \<and>
    tab (s_tab s') = map (\<lambda>e. if waiting e then e\<lparr>st_send_blocked := False\<rparr> else e) (tab (s_tab s))"
proof -
  have "(\<lambda>e. if waiting e then e\<lparr>st_send_blocked := False\<rparr> else e) = wake" by (simp add: fun_eq_iff wake_def)
  moreover have "s' = on_window_update s f" using f hello by (simp add: s' process_frame_def mux_type_defs)
  ultimately show ?thesis using wu_session_exact [OF reachable_inv [OF r] alive mem f(2,3) shut c] by simp
qed

theorem session_window_reopens_witness:
  "evq_content (s_q (process_frame wit_shut wit_wu)) = evq_content (s_q wit_shut) @ [EV_WRITABLE 1]"
proof -
  have w: "\<not> s_dead wit_shut" "s_mem wit_shut = []" "s_peer_hello_seen wit_shut" "s_sess_send_win wit_shut \<le> 0"
    "filter waiting (tab (s_tab wit_shut)) = [tab (s_tab wit_shut) ! 57]" "st_sid (tab (s_tab wit_shut) ! 57) = 1"
    unfolding wit_shut_eq waiting_def by code_simp+
  have f: "fr_type wit_wu = MUX_T_WINDOW_UPDATE" "fr_sid wit_wu = MUX_SID_CONTROL" "fr_len wit_wu = 4"
    "0 < uint (be_get32 (the (fr_payload wit_wu)))" by code_simp+
  show ?thesis
    using session_window_reopens [OF wit_shut_reachable w(1,2) f(1-3) w(3,4) refl f(4) refl] w(5,6) by simp
qed

lemma view_wake:
  assumes "tab t' = map wake (tab t)"
  shows "tab_view t' sid = map_option wake (tab_view t sid)"
proof -
  have "st_slot (wake e) = st_slot e" "st_sid (wake e) = st_sid e" for e by (simp_all add: wake_def)
  then have "find (\<lambda>e. st_key e = Some sid) (map wake xs) = map_option wake (find (\<lambda>e. st_key e = Some sid) xs)" for xs
    by (induction xs) simp_all
  then show ?thesis by (simp add: tab_view_def table_view_def assms)
qed

definition woken :: "mux_session \<Rightarrow> mux_session \<Rightarrow> u32 \<Rightarrow> mux_stream \<Rightarrow> bool" where
  "woken s s' sid e' \<longleftrightarrow> \<not> st_send_blocked e' \<and>
     EV_WRITABLE sid \<in> set (drop (evq_count (s_q s)) (evq_content (s_q s')))"

definition asleep :: "mux_session \<Rightarrow> mux_session \<Rightarrow> u32 \<Rightarrow> mux_stream \<Rightarrow> bool" where
  "asleep s s' sid e' \<longleftrightarrow> st_send_blocked e' \<and>
     EV_WRITABLE sid \<notin> set (drop (evq_count (s_q s)) (evq_content (s_q s')))"

lemma drop_content [simp]: "drop (evq_count q) (evq_content q @ es) = es" "drop (evq_count q) (evq_content q) = []"
  by (simp_all add: length_evq_content [symmetric] del: length_evq_content)

lemma wu_session_wakes:
  assumes inv: "sess_inv s" and alive: "\<not> s_dead s" and mem: "s_mem s = []"
    and v: "tab_view (s_tab s) sid = Some e" and b: "st_send_blocked e"
    and f: "fr_sid f = MUX_SID_CONTROL" "fr_len f = 4"
    and s': "s' = on_window_update s f" "\<not> s_dead s'"
  shows "\<exists>e'. tab_view (s_tab s') sid = Some e' \<and>
    (if 0 < st_send_win e' \<and> 0 < s_sess_send_win s' then woken s s' sid e' else asleep s s' sid e')"
proof (cases "s_sess_send_win s \<le> 0 \<and> 0 < uint (be_get32 (the (fr_payload f)))")
  case True
  note ex = wu_session_exact [OF inv alive mem f _ refl]
  have sid: "st_sid e = sid" "st_used e" and cell: "e \<in> set (tab (s_tab s))"
    using v pt.view_Some [of "tab (s_tab s)" sid e] by (auto simp: tab_view_def)
  have "tab_view (s_tab s') sid = Some (wake e)" using view_wake [of "s_tab s'" "s_tab s" sid] ex True s' v by simp
  moreover have "EV_WRITABLE sid \<in> set (map (\<lambda>e. EV_WRITABLE (st_sid e)) (filter waiting (tab (s_tab s)))) \<longleftrightarrow> waiting e"
  proof
    assume "EV_WRITABLE sid \<in> set (map (\<lambda>e. EV_WRITABLE (st_sid e)) (filter waiting (tab (s_tab s))))"
    then obtain i where i: "i < tab_cap (s_tab s)" "waiting (tab (s_tab s) ! i)" "st_sid (tab (s_tab s) ! i) = sid"
      by (auto simp: in_set_conv_nth)
    then have "tab_view (s_tab s) sid = Some (tab (s_tab s) ! i)"
      using inv by (intro at_sid_view [of _ i]) (auto simp: at_sid_def waiting_def sess_inv_def core_inv_def)
    then show "waiting e" using v i(2) by simp
  next
    assume "waiting e"
    then show "EV_WRITABLE sid \<in> set (map (\<lambda>e. EV_WRITABLE (st_sid e)) (filter waiting (tab (s_tab s))))"
      using cell sid by auto
  qed
  moreover have "0 < st_send_win (wake e) \<longleftrightarrow> waiting e" using sid b by (auto simp: wake_def waiting_def)
  ultimately show ?thesis
    using ex True b s' by (simp add: woken_def asleep_def) (auto simp: wake_def)
next
  case False
  let ?c = "uint (be_get32 (the (fr_payload f)))"
  have "?c = 0 \<or> s_sess_send_win s > 0" using False uint_u32_bounds(1) [of "be_get32 (the (fr_payload f))"] by linarith
  then have eq: "s' = s\<lparr>s_sess_send_win := s_sess_send_win s + ?c\<rparr>"
    using s' f by (auto simp: on_window_update_def Let_def split: if_splits)
  have "st_send_win e \<le> 0 \<or> s_sess_send_win s \<le> 0"
    using inv alive v b by (auto simp: sess_inv_def live_inv_def stream_live_def)
  then show ?thesis using v b False by (auto simp: eq asleep_def)
qed

lemma wu_stream_wakes:
  assumes inv: "sess_inv s" and alive: "\<not> s_dead s" and mem: "s_mem s = []"
    and v: "tab_view (s_tab s) sid = Some e" and b: "st_send_blocked e"
    and f: "fr_sid f \<noteq> MUX_SID_CONTROL" "fr_len f = 4"
    and s': "s' = on_window_update s f" "\<not> s_dead s'"
  shows "\<exists>e'. tab_view (s_tab s') sid = Some e' \<and>
    (if 0 < st_send_win e' \<and> 0 < s_sess_send_win s' then woken s s' sid e' else asleep s s' sid e')"
proof -
  have lv: "st_send_win e \<le> 0 \<or> s_sess_send_win s \<le> 0"
    using inv alive v b by (auto simp: sess_inv_def live_inv_def stream_live_def)
  have t: "tab_inv (s_tab s)" using inv by (simp add: sess_inv_def core_inv_def)
  show ?thesis
  proof (cases "st_find (s_tab s) (fr_sid f)")
    case None
    then have "s' = s" using s' f by (simp add: on_window_update_def)
    then show ?thesis using v b lv by (auto simp: asleep_def)
  next
    case (Some i)
    let ?g = "\<lambda>e. e\<lparr>st_send_win := st_send_win e + uint (be_get32 (the (fr_payload f)))\<rparr>"
    let ?d = "tab (s_tab s) ! i" and ?t = "st_upd (s_tab s) i ?g"
    note at = sess_inv_find [OF inv Some]
    have u: "tab_inv ?t" "tab_view ?t = (tab_view (s_tab s))(fr_sid f \<mapsto> ?g ?d)" "at_sid ?t i (fr_sid f) (?g ?d)"
      using st_upd_spec [OF t at, of ?g] by (simp_all add: keeps_id_def)
    note sb = set_blocked_spec [OF u(1,3), of False]
    have cell: "tab ?t ! i = ?g ?d" using u(3) by (simp add: at_sid_def)
    have eq: "s' = (if st_send_blocked ?d \<and> st_send_win (?g ?d) > 0 \<and> s_sess_send_win s > 0
        then ev_push (s\<lparr>s_tab := set_blocked ?t i False\<rparr>) (EV_WRITABLE (fr_sid f)) else s\<lparr>s_tab := ?t\<rparr>)"
      using s' f Some cell by (auto simp: on_window_update_def Let_def split: if_splits)
    have d: "tab_view (s_tab s) (fr_sid f) = Some ?d" by (rule at_sid_view [OF t at])
    have io: "io_inv (s\<lparr>s_tab := x\<rparr>)" "s_mem (s\<lparr>s_tab := x\<rparr>) = []" for x
      using inv mem by (simp_all add: sess_inv_def io_inv_def)
    show ?thesis
      using v b d lv ev_push_content [OF io] sb u(2)
      by (cases "sid = fr_sid f") (auto simp: eq woken_def asleep_def)
  qed
qed

text \<open>
  C7. No wake-up is lost. In a reachable live session a stream that waits to send has one of
  its two windows shut; and whatever WINDOW_UPDATE arrives next and is legal, the stream is
  woken (its flag cleared and a WRITABLE event queued) exactly when both windows are open
  after it.
\<close>

theorem blocked_writer_woken:
  assumes r: "reachable s" and alive: "\<not> s_dead s" and mem: "s_mem s = []"
    and v: "tab_view (s_tab s) sid = Some e" and b: "st_send_blocked e"
    and f: "fr_type f = MUX_T_WINDOW_UPDATE" and s': "s' = process_frame s f" "\<not> s_dead s'"
  shows "(st_send_win e = 0 \<or> s_sess_send_win s = 0) \<and>
    (\<exists>e'. tab_view (s_tab s') sid = Some e' \<and>
      (if 0 < st_send_win e' \<and> 0 < s_sess_send_win s' then woken s s' sid e' else asleep s s' sid e'))"
proof -
  have inv: "sess_inv s" by (rule reachable_inv [OF r])
  have w: "st_send_win e = 0 \<or> s_sess_send_win s = 0"
  proof -
    have "stream_ok s sid e" "stream_live s e" "0 \<le> s_sess_send_win s"
      using inv alive v by (auto simp: sess_inv_def live_inv_def core_inv_def)
    then show ?thesis using b by (auto simp: stream_ok_def stream_live_def)
  qed
  have "s_peer_hello_seen s" using sess_inv_empty [OF inv, of sid] v by auto
  then have eq: "s' = on_window_update s f" using s'(1) f by (simp add: process_frame_def mux_type_defs)
  moreover have "fr_len f = 4" using s'(2) unfolding eq by (auto simp: on_window_update_def split: if_splits)
  ultimately show ?thesis
    using w wu_session_wakes [OF inv alive mem v b] wu_stream_wakes [OF inv alive mem v b] s'(2) by blast
qed

theorem blocked_writer_woken_witness:
  "\<exists>e'. tab_view (s_tab (process_frame wit_shut wit_wu)) 1 = Some e' \<and> woken wit_shut (process_frame wit_shut wit_wu) 1 e'"
proof -
  have w: "\<not> s_dead wit_shut" "s_mem wit_shut = []" "st_send_blocked (tab (s_tab wit_shut) ! 57)"
    "st_send_win (tab (s_tab wit_shut) ! 57) = 50"
    unfolding wit_shut_eq by code_simp+
  have d: "\<not> s_dead (process_frame wit_shut wit_wu)" "0 < s_sess_send_win (process_frame wit_shut wit_wu)"
    "map_option st_send_win (tab_view (s_tab (process_frame wit_shut wit_wu)) 1) = Some 50"
    unfolding wit_shut_eq by code_simp+
  have f: "fr_type wit_wu = MUX_T_WINDOW_UPDATE" by code_simp
  show ?thesis
    using blocked_writer_woken [OF wit_shut_reachable w(1,2) wit_shut_view w(3) f refl d(1)] d(2,3) by auto
qed

end
