(* ===== verification/Mux_Events.thy ===== *)
theory Mux_Events
  imports Mux_Session_Reach
begin

text \<open>
  Invariants of the event queue. What a session promises about its events (a failure is
  reported once, streams are announced in the order of their ids) is an invariant of the
  queue, the flag \<open>dead\<close>, the highest id the peer has used and the next id of this side. The
  locales name the ways in which the engine changes these: \<open>output_inv\<close> those of the calls
  that only produce output, \<open>open_inv\<close> adds the opening of a stream, \<open>notice_inv\<close> the frames
  that open none, \<open>event_inv\<close> all frames, and \<open>api_inv\<close> puts them together. What they keep is
  shown once to be kept by every call. They are interpreted for \<open>ids_fresh\<close>, \<open>ids_below\<close>,
  \<open>few_events\<close>, \<open>few_opens\<close> and the id counter here and for \<open>fatal_once\<close> in Mux_Fatal.
\<close>

unbundle bit_operations_syntax

fun is_fatal :: "mux_event \<Rightarrow> bool" where
  "is_fatal (EV_FATAL c) = True"
| "is_fatal _ = False"

fun opened_sid :: "mux_event \<Rightarrow> u32 option" where
  "opened_sid (EV_STREAM_OPENED sid m) = Some sid"
| "opened_sid _ = None"

lemma ev_push_queue:
  assumes "evq_inv (s_q s)"
  shows "evq_inv (s_q (ev_push s e)) \<and>
    (evq_content (s_q (ev_push s e)) = evq_content (s_q s) \<or> evq_content (s_q (ev_push s e)) = evq_content (s_q s) @ [e])"
  using evq_push_spec [OF assms, of e "s_mem s"]
  by (cases "evq_push (s_q s) e (s_mem s)") (auto simp: ev_push_def split: if_splits)

section \<open>The interface\<close>

locale output_inv =
  fixes I :: "mux_session \<Rightarrow> bool"
  assumes inv_reads: "\<lbrakk>s_q s' = s_q s; s_dead s' = s_dead s; s_max_remote_sid s' = s_max_remote_sid s;
      s_next_local_sid s' = s_next_local_sid s\<rbrakk> \<Longrightarrow> I s' = I s"
    and inv_raise [simp]: "I s \<Longrightarrow> I (raise_fatal s c)"
begin

lemma inv_upd [simp]:
  "I (s\<lparr>s_out := ob\<rparr>) = I s" "I (s\<lparr>s_mem := h\<rparr>) = I s"
  "I (s\<lparr>s_tab := t\<rparr>) = I s" "I (s\<lparr>s_ka := k\<rparr>) = I s"
  "I (s\<lparr>s_sess_recv_win := w\<rparr>) = I s" "I (s\<lparr>s_sess_recv_pending := w\<rparr>) = I s"
  "I (s\<lparr>s_sess_send_win := w\<rparr>) = I s" "I (s\<lparr>s_local_goaway := b\<rparr>) = I s"
  "I (s\<lparr>s_hello_sent := b\<rparr>) = I s" "I (s\<lparr>s_peer_hello_seen := b\<rparr>) = I s"
  "I (s\<lparr>s_peer_max_streams := n\<rparr>) = I s" "I (s\<lparr>s_peer_init_window := n\<rparr>) = I s"
  by (rule inv_reads; simp)+

lemma inv_emit:
  "I s \<Longrightarrow> emit s ty fl sid p n = (r, s') \<Longrightarrow> I s'"
  by (auto simp: emit_def split: prod.splits option.splits sum.splits)

lemma inv_emit_snd [simp]: "I s \<Longrightarrow> I (snd (emit s ty fl sid p n))"
  using inv_emit by (metis prod.collapse)

lemma inv_emit_rst [simp]: "I s \<Longrightarrow> I (emit_rst s sid c)"
  by (simp add: emit_rst_def)

lemma inv_close [simp]: "I (close_stream s i) = I s"
  by (simp add: close_stream_def)

lemma inv_send_hello [simp]: "I s \<Longrightarrow> I (snd (send_hello s ack))"
  using inv_emit [of s]
  by (auto simp: send_hello_def split: sum.splits prod.splits option.splits)

lemma inv_write_loop: "I s \<Longrightarrow> I (snd (write_loop s sid p want sent))"
proof (induction s sid p want sent rule: write_loop.induct)
  case (1 s sid p want sent)
  show ?case
    using "1.IH" inv_emit [OF "1.prems"] "1.prems"
    by (subst write_loop.simps) (auto simp: Let_def split: option.splits prod.splits)
qed

lemma inv_credit_emit: "I s \<Longrightarrow> I (fst (credit_emit s sid w p))"
proof (induction s sid w p rule: credit_emit.induct)
  case (1 s sid w p)
  show ?case
    using "1.IH" inv_emit [OF "1.prems"] "1.prems"
    by (subst credit_emit.simps) (auto simp: Let_def split: option.splits prod.splits)
qed

lemma inv_credit [simp]:
  "I s \<Longrightarrow> I (credit_session s)" "I s \<Longrightarrow> I (credit_stream s i)"
  using inv_credit_emit [of s]
  by (auto simp: credit_session_def credit_stream_def Let_def split: prod.splits) (metis fst_conv)+

lemma inv_write: "I s \<Longrightarrow> I (snd (mux_write s sid p n))"
  using inv_write_loop [of s]
  by (auto simp: mux_write_def Let_def split: option.splits prod.splits) (metis snd_conv)+

lemma inv_timer: "I s \<Longrightarrow> I (snd (mux_on_timer s now))"
  using inv_emit [of s]
  by (auto simp: mux_on_timer_def timer_ping_def Let_def split: option.splits prod.splits)

lemma inv_calls:
  "I s \<Longrightarrow> I (snd (mux_close s sid))" "I s \<Longrightarrow> I (snd (mux_reset s sid code))" "I s \<Longrightarrow> I (snd (mux_consume s sid k))"
  "I s \<Longrightarrow> I (snd (mux_send_capacity s w))" "I s \<Longrightarrow> I (snd (mux_goaway s reason))" "I s \<Longrightarrow> I (mux_send_advance s m)"
  using inv_emit [of s]
  by (auto simp: mux_close_def mux_reset_def mux_consume_def mux_send_capacity_def mux_goaway_def mux_send_advance_def Let_def
      split: option.splits prod.splits)

end

text \<open>Opening a stream advances the id counter.\<close>

locale open_inv = output_inv +
  assumes inv_local: "\<lbrakk>I s; ids_left s; s_next_local_sid s \<noteq> 0\<rbrakk> \<Longrightarrow> I (s\<lparr>s_next_local_sid := s_next_local_sid s + 2\<rparr>)"
begin

lemma inv_open: "I s \<Longrightarrow> ids_left s \<Longrightarrow> I (snd (mux_open s meta n))"
  by (auto simp: mux_open_def Let_def inv_local case_prod_beta MUX_SID_CONTROL_def split: option.splits)

end

text \<open>Frames of the peer, and the host taking an event.\<close>

locale notice_inv = output_inv +
  assumes inv_ev_push [simp]: "\<lbrakk>I s; \<not> is_fatal e; opened_sid e = None\<rbrakk> \<Longrightarrow> I (ev_push s e)"
    and inv_refused: "\<lbrakk>I s; s_max_remote_sid s < sid\<rbrakk> \<Longrightarrow> I (s\<lparr>s_max_remote_sid := sid\<rparr>)"
    and inv_taken: "\<lbrakk>I s; evq_next (s_q s) = Some (ev, q)\<rbrakk> \<Longrightarrow> I (s\<lparr>s_q := q\<rparr>)"
begin

lemma inv_data_old: "I s \<Longrightarrow> fr_flags f AND MUX_F_SYN = 0 \<Longrightarrow> I (on_data s f)"
  by (auto simp: on_data_def on_data_fin_def Let_def split: option.splits prod.splits)

lemma inv_wake: "I s \<Longrightarrow> I (fold wake_slot is s)"
  by (induction "is" arbitrary: s) (auto simp: wake_slot_def Let_def)

lemma inv_wu: "I s \<Longrightarrow> I (on_window_update s f)"
  by (auto simp: on_window_update_def Let_def inv_wake split: option.splits)

lemma inv_hello: "I s \<Longrightarrow> I (on_hello s f ack)"
proof -
  assume s: "I s"
  obtain ok s' e where fo: "tlv_fold hello_tlv (fr_payload f) 0 (s, hello_info_zero) = (ok, s', e)"
    by (metis prod_cases3)
  have "I (fst (snd (tlv_fold hello_tlv (fr_payload f) 0 (s, hello_info_zero))))"
    using s by (intro tlv_fold_inv [where P = "\<lambda>se. I (fst se)"])
      (auto simp: hello_tlv_def split: prod.splits)
  then have "I s'" by (simp add: fo)
  then show ?thesis using s by (auto simp: on_hello_def fo Let_def split: bool.splits)
qed

lemma inv_next_event: "I s \<Longrightarrow> mux_next_event s = Some (e, s') \<Longrightarrow> I s'"
  using inv_taken by (auto simp: mux_next_event_def split: option.splits)

lemma inv_frame_old:
  "I s \<Longrightarrow> fr_type f = MUX_T_DATA \<longrightarrow> fr_flags f AND MUX_F_SYN = 0 \<Longrightarrow> I (process_frame s f)"
  by (simp add: process_frame_def Let_def inv_data_old inv_wu inv_hello on_ping_def on_goaway_def on_capacity_def)

end

locale event_inv = notice_inv +
  assumes inv_opened: "\<lbrakk>I s; s_max_remote_sid s < sid\<rbrakk> \<Longrightarrow>
      I (ev_push (s\<lparr>s_tab := t, s_mem := h, s_max_remote_sid := sid\<rparr>) (EV_STREAM_OPENED sid m))"
begin

lemma inv_syn: "I s \<Longrightarrow> I (on_data_syn s f)"
  by (auto simp: on_data_syn_def Let_def not_le inv_refused inv_opened split: option.splits prod.splits)

lemma inv_frame: "I s \<Longrightarrow> I (process_frame s f)"
proof (cases "fr_type f = MUX_T_DATA \<and> fr_flags f AND MUX_F_SYN \<noteq> 0")
  case True
  then show "I s \<Longrightarrow> I (process_frame s f)" by (simp add: process_frame_def Let_def on_data_def inv_syn)
qed (simp add: inv_frame_old)

lemma inv_recv_loop: "I s \<Longrightarrow> I (snd (recv_loop s buf c))"
proof (induction s buf c rule: recv_loop.induct)
  case (1 s buf c)
  show ?case
    using "1.IH" inv_frame [OF "1.prems"] "1.prems"
    by (subst recv_loop.simps) (auto simp: Let_def split: sum.splits prod.splits)
qed

lemma inv_recv: "I s \<Longrightarrow> I (snd (mux_recv s bufp len))"
  using inv_recv_loop [of s "case bufp of None \<Rightarrow> [] | Some b \<Rightarrow> take len b" 0]
  by (auto simp: mux_recv_def split: prod.splits)

end

text \<open>All calls of the API.\<close>

locale api_inv = open_inv I + event_inv I for I
begin

lemma inv_step: "sess_step s s' \<Longrightarrow> I s \<Longrightarrow> I s'"
  by (induction rule: sess_step.induct)
    (simp_all add: inv_recv inv_open inv_write inv_timer inv_next_event inv_calls)

end

text \<open>An invariant that a new session has, too.\<close>

locale api_inv_start = api_inv +
  assumes inv_start: "\<lbrakk>s_q s = evq_zero; \<not> s_dead s; s_max_remote_sid s = 0; s_next_local_sid s \<in> {1, 2}\<rbrakk> \<Longrightarrow> I s"
begin

lemma inv_new:
  assumes "mux_session_new (Some cfg) role h = Some s" shows "I s"
proof -
  have z: "I ((session_init cfg role h1)\<lparr>s_tab := t, s_mem := h2, s_ident := d\<rparr>)" for h1 t h2 d
    by (rule inv_start) (simp_all add: session_init_def)
  have "I s2" if "send_hello ((session_init cfg role h1)\<lparr>s_tab := t, s_mem := h2, s_ident := d\<rparr>) False = (r, s2)"
    for h1 t h2 d r s2
    using inv_send_hello [OF z] that by (metis snd_conv)
  then show ?thesis
    using assms z unfolding mux_session_new_def
    by (auto simp: Let_def split: if_splits prod.splits bool.splits option.splits)
qed

lemma reachable_inv_holds: "reachable s \<Longrightarrow> I s"
  by (induction rule: reachable.induct) (auto intro: inv_new inv_step)

end

section \<open>Announced ids\<close>

text \<open>
  \<open>L\<close> are the ids already announced to the host. Together with those still queued they are
  strictly increasing, and none is above the highest id the peer has used.
\<close>

definition queued_sids :: "mux_session \<Rightarrow> u32 list" where
  "queued_sids s = List.map_filter opened_sid (evq_content (s_q s))"

definition ids_fresh :: "u32 list \<Rightarrow> mux_session \<Rightarrow> bool" where
  "ids_fresh L s \<longleftrightarrow> evq_inv (s_q s) \<and> sorted_wrt (<) (L @ queued_sids s) \<and>
     (\<forall>k \<in> set (L @ queued_sids s). k \<le> s_max_remote_sid s)"

lemma map_filter_append [simp]: "List.map_filter f (xs @ ys) = List.map_filter f xs @ List.map_filter f ys"
  by (simp add: map_filter_def)

lemma queued_sids_push:
  assumes "evq_inv (s_q s)"
  shows "queued_sids (ev_push s e) = queued_sids s \<or> queued_sids (ev_push s e) = queued_sids s @ (case opened_sid e of None \<Rightarrow> [] | Some k \<Rightarrow> [k])"
  using ev_push_queue [OF assms, of e] by (auto simp: queued_sids_def map_filter_def split: option.splits)

lemma ids_fresh_push:
  assumes "ids_fresh L s" "opened_sid e = None" shows "ids_fresh L (ev_push s e)"
  using assms queued_sids_push [of s e] ev_push_queue [of s e] by (auto simp: ids_fresh_def)

lemma ids_fresh_opened:
  assumes f: "ids_fresh L s" and k: "s_max_remote_sid s < sid" and s': "s_q s' = s_q s" "s_max_remote_sid s' = sid"
  shows "ids_fresh L (ev_push s' (EV_STREAM_OPENED sid m))"
proof -
  have q: "evq_inv (s_q s')" and qs: "queued_sids s' = queued_sids s" using f s' by (simp_all add: ids_fresh_def queued_sids_def)
  have lt: "x < sid" if "x \<in> set (L @ queued_sids s)" for x
    using f that k unfolding ids_fresh_def by (meson le_less_trans)
  have "queued_sids (ev_push s' (EV_STREAM_OPENED sid m)) = queued_sids s \<or>
      queued_sids (ev_push s' (EV_STREAM_OPENED sid m)) = queued_sids s @ [sid]"
    using queued_sids_push [OF q, of "EV_STREAM_OPENED sid m"] qs by simp
  then show ?thesis
    using f lt ev_push_queue [OF q] s'(2) by (auto simp: ids_fresh_def sorted_wrt_append less_imp_le)
qed

lemma ids_fresh_taken:
  assumes f: "ids_fresh L s" and n: "evq_next (s_q s) = Some (e, q)"
  shows "ids_fresh (L @ (case Option.bind e opened_sid of None \<Rightarrow> [] | Some k \<Rightarrow> [k])) (s\<lparr>s_q := q\<rparr>) \<and> ids_fresh L (s\<lparr>s_q := q\<rparr>)"
proof -
  have q: "evq_inv (s_q s)" using f by (simp add: ids_fresh_def)
  obtain x xs where x: "evq_content (s_q s) = x # xs" "e = Some x" "evq_inv q" "evq_content q = xs"
    using evq_next_spec [OF q] n by (cases "evq_content (s_q s)") auto
  have "queued_sids s = (case opened_sid x of None \<Rightarrow> [] | Some k \<Rightarrow> [k]) @ queued_sids (s\<lparr>s_q := q\<rparr>)"
    using x by (simp add: queued_sids_def map_filter_def split: option.splits)
  then show ?thesis
    using f x(2,3) by (auto simp: ids_fresh_def sorted_wrt_append split: option.splits)
qed

interpretation fresh: api_inv "ids_fresh L" for L
proof unfold_locales
  show "ids_fresh L (raise_fatal s c)" if "ids_fresh L s" for s c
    using that ids_fresh_push [of L "s\<lparr>s_dead := True\<rparr>" "EV_FATAL c"]
    by (simp add: raise_fatal_def ids_fresh_def queued_sids_def)
  show "ids_fresh L (s\<lparr>s_max_remote_sid := sid\<rparr>)" if "ids_fresh L s" "s_max_remote_sid s < sid" for s sid
    using that by (auto simp: ids_fresh_def queued_sids_def intro: le_less_trans [THEN less_imp_le])
qed (simp_all add: ids_fresh_push ids_fresh_opened ids_fresh_taken, simp_all add: ids_fresh_def queued_sids_def)

interpretation fresh_start: api_inv_start "ids_fresh []"
  by unfold_locales (simp add: ids_fresh_def queued_sids_def map_filter_def)

lemma next_opened:
  assumes "ids_fresh L s" "mux_next_event s = Some (e, s')"
  shows "ids_fresh (L @ (case Option.bind e opened_sid of None \<Rightarrow> [] | Some k \<Rightarrow> [k])) s'"
  using assms ids_fresh_taken [of L s] by (auto simp: mux_next_event_def split: option.splits)

section \<open>Ids of this side\<close>

text \<open>An id handed out by \<open>mux_open\<close> stays below the next one; 0 is the exhausted counter.\<close>

definition ids_below :: "u32 \<Rightarrow> mux_session \<Rightarrow> bool" where
  "ids_below k s \<longleftrightarrow> s_next_local_sid s = 0 \<or> k < s_next_local_sid s"

interpretation below: api_inv "ids_below k" for k
proof unfold_locales
  show "ids_below k (s\<lparr>s_next_local_sid := s_next_local_sid s + 2\<rparr>)"
    if "ids_below k s" "ids_left s" "s_next_local_sid s \<noteq> 0" for s
    using that next_sid_mono [of "s_next_local_sid s"] by (auto simp: ids_below_def ids_left_def)
qed (simp_all add: ids_below_def)

lemma mux_open_id:
  assumes "mux_open s meta n = (Inr k, s')" "ids_left s"
  shows "k = s_next_local_sid s \<and> \<not> ids_below k s \<and> ids_below k s'"
proof -
  have k: "k = s_next_local_sid s" "s_next_local_sid s \<noteq> 0" "s_next_local_sid s' = s_next_local_sid s + 2"
    using assms(1)
    by (auto simp: mux_open_def Let_def MUX_SID_CONTROL_def split: if_splits option.splits prod.splits dest!: emit_same_core same_core_sel(14))
  then show ?thesis
    using next_sid_mono [of "s_next_local_sid s"] assms(2) by (auto simp: ids_below_def ids_left_def)
qed

section \<open>Events left\<close>

text \<open>
  A call that only produces output queues at most one event, a failure, and a session fails
  at most once.
\<close>

definition few_events :: "nat \<Rightarrow> mux_session \<Rightarrow> bool" where
  "few_events n s \<longleftrightarrow> evq_count (s_q s) + of_bool (\<not> s_dead s) \<le> n"

lemma ev_push_count: "evq_count (s_q (ev_push s e)) \<le> Suc (evq_count (s_q s))"
  by (auto simp: ev_push_def evq_push_def evq_store_def evq_regrow_def Let_def split: prod.splits bool.splits)

interpretation few: open_inv "few_events n" for n
proof unfold_locales
  show "few_events n (raise_fatal s c)" if "few_events n s" for s c
    using that ev_push_count [of "s\<lparr>s_dead := True\<rparr>" "EV_FATAL c"] by (auto simp: few_events_def raise_fatal_def)
qed (simp_all add: few_events_def)

lemma next_event_few:
  assumes "evq_inv (s_q s)" "mux_next_event s = Some (e, s')" "few_events n s" shows "0 < n \<and> few_events (n - 1) s'"
  using assms(2,3) evq_next_spec [OF assms(1)] length_evq_content [of "s_q s"] length_evq_content [of "s_q s'"]
  by (cases "evq_content (s_q s)") (auto simp: mux_next_event_def few_events_def split: option.splits)

section \<open>Streams announced and ids used\<close>

text \<open>Every announcement takes a frame of the peer, and only \<open>mux_open\<close> moves the id counter.\<close>

definition few_opens :: "nat \<Rightarrow> mux_session \<Rightarrow> bool" where
  "few_opens n s \<longleftrightarrow> evq_inv (s_q s) \<and> length (queued_sids s) \<le> n"

lemma few_opens_push:
  assumes "few_opens n s" "s_q s' = s_q s"
  shows "few_opens (n + (if opened_sid e = None then 0 else 1)) (ev_push s' e)"
proof -
  have q: "evq_inv (s_q s')" "queued_sids s' = queued_sids s" using assms by (simp_all add: few_opens_def queued_sids_def)
  show ?thesis
    using assms ev_push_queue [OF q(1), of e] queued_sids_push [OF q(1), of e] q(2)
    by (auto simp: few_opens_def split: option.splits)
qed

interpretation opens: notice_inv "few_opens n" for n
proof unfold_locales
  show "few_opens n (raise_fatal s c)" if "few_opens n s" for s c
    using that few_opens_push [OF that, of "s\<lparr>s_dead := True\<rparr>" "EV_FATAL c"] by (simp add: raise_fatal_def)
  show "few_opens n (ev_push s e)" if "few_opens n s" "opened_sid e = None" for s e
    using few_opens_push [OF that(1) refl, of e] that(2) by simp
  show "few_opens n (s\<lparr>s_q := q\<rparr>)" if f: "few_opens n s" "evq_next (s_q s) = Some (e, q)" for s e q
  proof -
    have "evq_inv (s_q s)" using f(1) by (simp add: few_opens_def)
    then obtain x xs where x: "evq_content (s_q s) = x # xs" "evq_inv q" "evq_content q = xs"
      using evq_next_spec [of "s_q s"] f(2) by (cases "evq_content (s_q s)") auto
    then show ?thesis using f(1) by (auto simp: few_opens_def queued_sids_def map_filter_def split: if_splits)
  qed
qed (simp_all add: few_opens_def queued_sids_def)

lemma syn_few_opens: "few_opens n s \<Longrightarrow> few_opens (Suc n) (on_data_syn s f)"
proof -
  assume f: "few_opens n s"
  have w: "few_opens (Suc n) s" using f by (simp add: few_opens_def)
  have "few_opens (Suc n) (ev_push (s\<lparr>s_tab := t, s_mem := h, s_max_remote_sid := sid\<rparr>) (EV_STREAM_OPENED sid m))" for t h sid m
    using few_opens_push [OF f, of "s\<lparr>s_tab := t, s_mem := h, s_max_remote_sid := sid\<rparr>" "EV_STREAM_OPENED sid m"] by simp
  then show ?thesis
    using w by (auto simp: on_data_syn_def Let_def not_le opens.inv_refused split: option.splits prod.splits)
qed

lemma frame_few_opens: "few_opens n s \<Longrightarrow> few_opens (Suc n) (process_frame s f)"
proof (cases "fr_type f = MUX_T_DATA \<and> fr_flags f AND MUX_F_SYN \<noteq> 0")
  case True
  assume f: "few_opens n s"
  then have "few_opens (Suc n) s" by (simp add: few_opens_def)
  then show ?thesis using True syn_few_opens [OF f] by (simp add: process_frame_def Let_def on_data_def)
next
  case False
  assume "few_opens n s"
  then have "few_opens (Suc n) s" by (simp add: few_opens_def)
  then show ?thesis using False by (simp add: opens.inv_frame_old)
qed

text \<open>
  A session that survives its input has taken twelve bytes for each stream announced; one
  that fails has at least been given them.
\<close>

lemma recv_loop_opens:
  assumes "few_opens n s" "recv_loop s buf c = (m, s')" "c \<le> length buf"
  shows "c \<le> m \<and> m \<le> length buf \<and> few_opens (n + ((if s_dead s' then length buf else m) - c) div 12) s'"
  using assms
proof (induction s buf c arbitrary: n rule: recv_loop.induct)
  case (1 s buf c)
  have w: "few_opens (n + k) s" for k using "1.prems"(1) by (simp add: few_opens_def)
  show ?case
  proof (cases "c < length buf \<and> \<not> evq_count (s_q s) \<ge> MUX_EVENT_QUEUE_SOFT_CAP")
    case False
    then show ?thesis using "1.prems" w by (subst (asm) recv_loop.simps) (auto split: if_splits)
  next
    case go: True
    show ?thesis
    proof (cases "mux_parse (Some (drop c buf))")
      case (Inl e)
      then show ?thesis using "1.prems" go w by (subst (asm) recv_loop.simps) (auto split: if_splits)
    next
      case (Inr fk)
      obtain f k where fk: "fk = (f, k)" by (cases fk)
      have k: "12 \<le> k" "k \<le> length (drop c buf)"
        using Inr fk mux_parse_le [of "drop c buf" f k] by (auto simp: mux_parse_def MUX_HEADER_SIZE_def Let_def split: if_splits)
      have f1: "few_opens (n + 1) (process_frame s f)" using frame_few_opens [OF "1.prems"(1)] by simp
      show ?thesis
      proof (cases "s_dead (process_frame s f)")
        case True
        have "m = c" "s' = process_frame s f"
          using "1.prems"(2) go Inr fk True by (subst (asm) recv_loop.simps, simp add: Let_def)+
        moreover have "1 \<le> (length buf - c) div 12" using k by (simp add: Suc_le_eq div_greater_zero_iff)
        then have "few_opens (n + (length buf - c) div 12) (process_frame s f)" using f1 by (simp add: few_opens_def)
        ultimately show ?thesis using True "1.prems"(3) by simp
      next
        case False
        have r: "recv_loop (process_frame s f) buf (c + k) = (m, s')"
          using "1.prems"(2) go Inr fk False by (subst (asm) recv_loop.simps) (simp add: Let_def)
        have le: "c + k \<le> length buf" using k(2) go by (simp add: le_diff_conv2)
        have IH: "c + k \<le> m \<and> m \<le> length buf \<and> few_opens (n + 1 + ((if s_dead s' then length buf else m) - (c + k)) div 12) s'"
          using "1.IH" [OF _ _ Inr fk [symmetric] refl False f1 r le] go by simp
        have "1 + (x - (c + k)) div 12 \<le> (x - c) div 12" if "c + k \<le> x" for x
        proof -
          have "1 + (x - (c + k)) div 12 = (x - (c + k) + 12) div 12" by simp
          also have "\<dots> \<le> (x - c) div 12" by (rule div_le_mono) (use that k(1) in linarith)
          finally show ?thesis .
        qed
        from this [of "length buf"] this [of m] show ?thesis using IH le by (auto simp: few_opens_def)
      qed
    qed
  qed
qed

interpretation counter: event_inv "\<lambda>s. s_next_local_sid s = k" for k
  by unfold_locales simp_all

end
