(* ===== verification/Mux_Fatal.thy ===== *)
theory Mux_Fatal
  imports Mux_Wakeup Mux_Events
begin

text \<open>
  The failure of a session: it is reported once, and a failed session refuses every call
  and changes no more. The report is an invariant of the event queue that every operation keeps: the
  queue holds no FATAL event while the session is alive and at most one afterwards.
\<close>

unbundle bit_operations_syntax

section \<open>The invariant\<close>

definition fatal_once :: "mux_session \<Rightarrow> bool" where
  "fatal_once s \<longleftrightarrow> evq_inv (s_q s) \<and> cnt is_fatal (evq_content (s_q s)) \<le> of_bool (s_dead s)"

lemma fatal_once_push:
  assumes "fatal_once s" "s_q s' = s_q s" "s_dead s' = s_dead s" "\<not> is_fatal e" shows "fatal_once (ev_push s' e)"
  using assms ev_push_queue [of s' e] by (auto simp: fatal_once_def)

interpretation once: api_inv_start fatal_once
proof unfold_locales
  show "fatal_once (raise_fatal s c)" if "fatal_once s" for s c
    using that ev_push_queue [of "s\<lparr>s_dead := True\<rparr>" "EV_FATAL c"] by (auto simp: fatal_once_def raise_fatal_def)
  show "fatal_once (s\<lparr>s_q := q\<rparr>)" if "fatal_once s" "evq_next (s_q s) = Some (e, q)" for s e q
    using that evq_next_spec [of "s_q s"]
    by (cases "evq_content (s_q s)") (auto simp: fatal_once_def split: if_splits)
qed (simp_all add: fatal_once_push, simp_all add: fatal_once_def)

section \<open>Failure is reported once and is final\<close>

text \<open>
  C23. A session reports its failure at most once: in every reachable state the event queue
  holds no FATAL event while the session is alive and at most one once it is dead.
\<close>

theorem fatal_reported_once:
  assumes "reachable s"
  shows "(\<not> s_dead s \<longrightarrow> EV_FATAL c \<notin> set (evq_content (s_q s))) \<and>
    cnt is_fatal (evq_content (s_q s)) \<le> 1"
proof -
  have f: "cnt is_fatal (evq_content (s_q s)) \<le> of_bool (s_dead s)"
    using once.reachable_inv_holds [OF assms] by (simp add: fatal_once_def)
  moreover have "cnt is_fatal (evq_content (s_q s)) \<noteq> 0" if "EV_FATAL c \<in> set (evq_content (s_q s))"
    using that by (force simp: filter_empty_conv)
  ultimately show ?thesis by (cases "s_dead s") auto
qed

theorem fatal_reported_once_witness:
  "EV_FATAL 1 \<notin> set (evq_content (s_q wit_live)) \<and> cnt is_fatal (evq_content (s_q wit_live)) \<le> 1"
proof -
  have "\<not> s_dead wit_live" by (simp add: wit_live_eq)
  then show ?thesis using fatal_reported_once [OF wit_live_reachable, of 1] by simp
qed

text \<open>
  C24. A failed session is final. Every call of the API is refused with \<open>MUX_ERR_STATE\<close> (the
  timer reports that it never wants to run again) and leaves the session exactly as it was;
  the host can only drain the output buffer and the event queue. In particular no second
  failure is ever raised and no frame is ever added to the output.
\<close>

theorem dead_session_is_final:
  assumes dead: "s_dead s"
  shows "mux_recv s (Some b) n = (Inl MUX_ERR_STATE, s) \<and> mux_open s meta k = (Inl MUX_ERR_STATE, s) \<and>
    mux_write s sid (Some b) n = (Inl MUX_ERR_STATE, s) \<and> mux_close s sid = (Some MUX_ERR_STATE, s) \<and>
    mux_reset s sid code = (Some MUX_ERR_STATE, s) \<and> mux_consume s sid m = (Some MUX_ERR_STATE, s) \<and>
    mux_send_capacity s w = (Some MUX_ERR_STATE, s) \<and> mux_goaway s w = (Some MUX_ERR_STATE, s) \<and>
    mux_on_timer s now = (UINT64_MAX, s) \<and>
    (\<forall>s'. sess_step s s' \<longrightarrow> s' = s \<or> (\<exists>n. s' = mux_send_advance s n) \<or> (\<exists>e. mux_next_event s = Some (e, s')))"
proof -
  have "s' = s \<or> (\<exists>n. s' = mux_send_advance s n) \<or> (\<exists>e. mux_next_event s = Some (e, s'))"
    if "sess_step s s'" for s'
    using that dead
    by (cases rule: sess_step.cases)
      (auto simp: mux_recv_def mux_open_def mux_write_def mux_close_def mux_reset_def mux_consume_def
        mux_send_capacity_def mux_goaway_def mux_on_timer_def)
  then show ?thesis
    using dead by (auto simp: mux_recv_def mux_open_def mux_write_def mux_close_def mux_reset_def
        mux_consume_def mux_send_capacity_def mux_goaway_def mux_on_timer_def)
qed

theorem dead_session_is_final_witness:
  "mux_open (raise_fatal wit_live MUX_CODE_PROTOCOL) None 0 =
     (Inl MUX_ERR_STATE, raise_fatal wit_live MUX_CODE_PROTOCOL)"
  using dead_session_is_final [of "raise_fatal wit_live MUX_CODE_PROTOCOL"] by simp

end
