(* ===== verification/Mux_Receive.thy ===== *)
theory Mux_Receive
  imports Mux_Fatal
begin

text \<open>
  The receiving side of a session: \<open>mux_recv\<close> does not depend on how the transport cuts the
  byte stream, nothing but a HELLO is taken before the handshake, and the decisions on a
  SYN and on a DATA frame, branch by branch.
\<close>

unbundle bit_operations_syntax

section \<open>Chunks\<close>

lemma mux_parse_prefix:
  assumes "mux_parse (Some a) \<noteq> Inl MUX_ERR_SHORT" shows "mux_parse (Some (a @ b)) = mux_parse (Some a)"
  using assms mux_parse_err [of a] mux_parse_proto_append [of a b] fc.dec_extend [of a]
  by (cases "mux_parse (Some a)") auto

text \<open>Where the loop starts in the buffer does not matter.\<close>

lemma recv_loop_shift:
  "recv_loop s (p @ buf) (length p + c) = (case recv_loop s buf c of (n, s') \<Rightarrow> (length p + n, s'))"
proof (induction s buf c rule: recv_loop.induct)
  case (1 s buf c)
  show ?case
  proof (cases "mux_parse (Some (drop c buf))")
    case (Inl e)
    then show ?thesis by (subst (1 2) recv_loop.simps) simp
  next
    case (Inr fc)
    obtain f n where fc: "fc = (f, n)" by (cases fc)
    show ?thesis
    proof (cases "c < length buf \<and> \<not> MUX_EVENT_QUEUE_SOFT_CAP \<le> evq_count (s_q s) \<and> \<not> s_dead (process_frame s f)")
      case True
      then have "recv_loop (process_frame s f) (p @ buf) (length p + (c + n)) =
          (case recv_loop (process_frame s f) buf (c + n) of (n, s') \<Rightarrow> (length p + n, s'))"
        using "1.IH" Inr fc by auto
      then show ?thesis using True Inr fc by (subst (1 2) recv_loop.simps) (simp add: Let_def add.assoc)
    next
      case False
      then show ?thesis using Inr fc by (subst (1 2) recv_loop.simps) (auto simp: Let_def)
    qed
  qed
qed

text \<open>The loop on a prefix, then on the rest from where it stopped, is the loop on the whole.\<close>

lemma recv_loop_append:
  "recv_loop s a c = (n, s1) \<Longrightarrow> c \<le> length a \<Longrightarrow>
   recv_loop s (a @ b) c = (if s_dead s1 then (n, s1) else recv_loop s1 (a @ b) n) \<and> n \<le> length a \<or> s_dead s"
proof (induction s a c rule: recv_loop.induct)
  case (1 s a c)
  show ?case
  proof (cases "s_dead s \<or> \<not> (c < length a \<and> \<not> MUX_EVENT_QUEUE_SOFT_CAP \<le> evq_count (s_q s))")
    case True
    then show ?thesis using "1.prems" by (subst (asm) recv_loop.simps) (auto split: if_splits)
  next
    case go: False
    show ?thesis
    proof (cases "mux_parse (Some (drop c a))")
      case (Inl e)
      show ?thesis
      proof (cases "e = MUX_ERR_SHORT")
        case True
        then have "n = c" "s1 = s" using "1.prems"(1) go Inl by (subst (asm) recv_loop.simps, simp)+
        then show ?thesis using go by simp
      next
        case False
        then have p: "mux_parse (Some (drop c (a @ b))) = Inl e" using mux_parse_prefix Inl go by simp
        have "n = c" "s1 = raise_fatal s MUX_CODE_PROTOCOL"
          using "1.prems"(1) go Inl False by (subst (asm) recv_loop.simps, simp)+
        then show ?thesis using go False p by (subst recv_loop.simps) simp
      qed
    next
      case (Inr fk)
      obtain f k where fk: "fk = (f, k)" by (cases fk)
      have p: "mux_parse (Some (drop c (a @ b))) = Inr (f, k)" using mux_parse_prefix [of "drop c a" b] Inr fk go by simp
      have k: "c + k \<le> length a" using mux_parse_le [of "drop c a" f k] Inr fk go by auto
      show ?thesis
      proof (cases "s_dead (process_frame s f)")
        case True
        then have "n = c" "s1 = process_frame s f"
          using "1.prems"(1) go Inr fk by (subst (asm) recv_loop.simps, simp add: Let_def)+
        then show ?thesis using go True p by (subst recv_loop.simps) (simp add: Let_def)
      next
        case False
        then have r: "recv_loop (process_frame s f) a (c + k) = (n, s1)"
          using "1.prems"(1) go Inr fk by (subst (asm) recv_loop.simps) (simp add: Let_def)
        have "recv_loop s (a @ b) c = recv_loop (process_frame s f) (a @ b) (c + k)"
          using go False p by (subst recv_loop.simps) (simp add: Let_def)
        then show ?thesis using "1.IH" [OF _ _ _ _ refl False r k] go Inr fk False by auto
      qed
    qed
  qed
qed

text \<open>
  C12. The transport may cut the byte stream anywhere. Receiving \<open>a\<close> followed by \<open>b\<close> in one
  call gives the same count, the same events, the same session as receiving \<open>a\<close> and then the
  bytes of \<open>a\<close> that were not consumed together with \<open>b\<close>; a failure in the first part ends both.
\<close>

theorem mux_recv_chunked:
  "mux_recv s (Some (a @ b)) (length (a @ b)) =
     (case mux_recv s (Some a) (length a) of
        (Inr n, s1) \<Rightarrow>
          if s_dead s1 then (Inr n, s1)
          else (case mux_recv s1 (Some (drop n a @ b)) (length (drop n a @ b)) of
                  (Inr m, s2) \<Rightarrow> (Inr (n + m), s2)
                | r \<Rightarrow> r)
      | r \<Rightarrow> r)"
proof (cases "s_dead s")
  case True
  then show ?thesis by (simp add: mux_recv_def)
next
  case False
  obtain n s1 where r: "recv_loop s a 0 = (n, s1)" by (cases "recv_loop s a 0")
  have ap: "recv_loop s (a @ b) 0 = (if s_dead s1 then (n, s1) else recv_loop s1 (a @ b) n)" "n \<le> length a"
    using recv_loop_append [OF r, of b] False by auto
  have "recv_loop s1 (a @ b) n = (case recv_loop s1 (drop n a @ b) 0 of (m, s') \<Rightarrow> (n + m, s'))"
  proof -
    have "take n a @ drop n a @ b = a @ b" "length (take n a) = n" using ap(2) by simp_all
    then show ?thesis using recv_loop_shift [of s1 "take n a" "drop n a @ b" 0] by (simp only: add_0_right)
  qed
  then show ?thesis using False r ap by (auto simp: mux_recv_def split: prod.splits)
qed

section \<open>The handshake comes first\<close>

text \<open>
  C25. Before the peer's HELLO nothing but a HELLO or HELLO_ACK is taken: any other frame,
  of whatever type, flags and size, ends the session with a protocol failure and touches
  neither the stream table, the windows, nor the output. Opening a stream is refused, and
  there is none.
\<close>

theorem handshake_first:
  assumes r: "reachable s" and nh: "\<not> s_peer_hello_seen s" and alive: "\<not> s_dead s"
  shows "(fr_type f \<notin> {MUX_T_HELLO, MUX_T_HELLO_ACK} \<longrightarrow>
       (let s' = process_frame s f in s_dead s' \<and> s_tab s' = s_tab s \<and> s_out s' = s_out s \<and>
          s_sess_send_win s' = s_sess_send_win s \<and> s_sess_recv_win s' = s_sess_recv_win s \<and>
          (s_mem s = [] \<longrightarrow> evq_content (s_q s') = evq_content (s_q s) @ [EV_FATAL MUX_CODE_PROTOCOL]))) \<and>
    mux_open s meta n = (Inl MUX_ERR_STATE, s) \<and> tab_view (s_tab s) sid = None"
proof -
  have inv: "sess_inv s" by (rule reachable_inv [OF r])
  have "io_inv (s\<lparr>s_dead := True\<rparr>)" using inv by (simp add: sess_inv_def io_inv_def)
  then have "s_mem s = [] \<longrightarrow>
      evq_content (s_q (raise_fatal s MUX_CODE_PROTOCOL)) = evq_content (s_q s) @ [EV_FATAL MUX_CODE_PROTOCOL]"
    using ev_push_content [of "s\<lparr>s_dead := True\<rparr>"] alive by (simp add: raise_fatal_def)
  then show ?thesis
    using nh alive sess_inv_empty [OF inv nh] by (simp add: process_frame_def Let_def mux_open_def)
qed

theorem handshake_first_witness:
  "s_dead (process_frame wit_acc wit_wu) \<and>
   evq_content (s_q (process_frame wit_acc wit_wu)) = evq_content (s_q wit_acc) @ [EV_FATAL MUX_CODE_PROTOCOL]"
proof -
  have w: "\<not> s_peer_hello_seen wit_acc" "\<not> s_dead wit_acc" "s_mem wit_acc = []" by code_simp+
  have "fr_type wit_wu \<notin> {MUX_T_HELLO, MUX_T_HELLO_ACK}" by (simp add: wit_wu_def mux_type_defs)
  then show ?thesis
    using handshake_first [OF reach_new [OF wit_acc_new] w(1,2), of wit_wu None 0 0] w(3) by (simp add: Let_def)
qed

section \<open>Admission of a remote stream\<close>

definition syn_legal :: "mux_session \<Rightarrow> mux_frame \<Rightarrow> bool" where
  "syn_legal s f \<longleftrightarrow> fr_sid f AND 1 \<noteq> local_bit (s_role s) \<and> fr_sid f \<noteq> MUX_SID_CONTROL \<and>
     tab_view (s_tab s) (fr_sid f) = None \<and> s_max_remote_sid s < fr_sid f \<and> fr_len f \<le> MUX_MAX_META"

lemma st_find_iff_view: "sess_inv s \<Longrightarrow> st_find (s_tab s) sid = None \<longleftrightarrow> tab_view (s_tab s) sid = None"
  using st_find_spec [of "s_tab s" sid] by (auto simp: sess_inv_def core_inv_def split: option.splits)

lemma and_one_cases: "(x :: u32) AND 1 = 0 \<or> x AND 1 = 1"
  by (simp add: and_one_eq mod_2_eq_odd)

lemma on_data_syn_guard:
  assumes "sess_inv s" "s_peer_hello_seen s"
  shows "syn_legal s f \<longleftrightarrow> \<not> (\<not> s_peer_hello_seen s \<or> fr_sid f AND 1 \<noteq> (if s_role s = MUX_DIALER then 0 else 1) \<or>
    fr_sid f = MUX_SID_CONTROL \<or> st_find (s_tab s) (fr_sid f) \<noteq> None \<or> fr_sid f \<le> s_max_remote_sid s \<or>
    fr_len f > MUX_MAX_META)"
  using assms st_find_iff_view [OF assms(1), of "fr_sid f"] and_one_cases [of "fr_sid f"]
  by (auto simp: syn_legal_def local_bit_def)

lemma emit_rst_cases:
  assumes io: "io_inv s"
  shows "s_dead (emit_rst s sid code) \<or>
    (s_q (emit_rst s sid code) = s_q s \<and> ob_pending (s_out (emit_rst s sid code)) = ob_pending (s_out s) @
       frame_bytes MUX_T_DATA MUX_F_RST sid (be_put32 code))"
proof -
  let ?e = "emit s MUX_T_DATA MUX_F_RST sid (Some (be_put32 code)) 4"
  obtain r1 s1 where em: "?e = (r1, s1)" by (cases ?e)
  have "r1 = None \<Longrightarrow> s_q s1 = s_q s \<and> ob_pending (s_out s1) = ob_pending (s_out s) @
      craft_header_bytes MUX_T_DATA MUX_F_RST sid 4 @ take 4 (be_put32 code)"
    using emit_cases [OF io em] by auto
  moreover have "s_dead s1" if "r1 \<noteq> None"
    using emit_fails_dead [of s _ _ _ _ 4] em that io by (fastforce simp: MUX_MAX_PAYLOAD_def io_inv_def)
  moreover have "length (be_put32 code) = 4" by (simp add: be_put32_def)
  ultimately show ?thesis using em by (cases r1) (auto simp: emit_rst_def frame_bytes_eq)
qed


definition wit_syn_frame :: mux_frame where
  "wit_syn_frame = frame_of MUX_T_DATA MUX_F_SYN 3 [104, 105]"


section \<open>Data\<close>

text \<open>Refusing data: RST to the peer, RESET to the host, and the stream is gone.\<close>

definition stream_refused :: "mux_session \<Rightarrow> u32 \<Rightarrow> u32 \<Rightarrow> mux_session \<Rightarrow> bool" where
  "stream_refused s sid code s' \<longleftrightarrow> tab_view (s_tab s') = (tab_view (s_tab s))(sid := None) \<and>
     s_sess_recv_win s' = s_sess_recv_win s \<and>
     (s_dead s' \<or> ob_pending (s_out s') = ob_pending (s_out s) @ frame_bytes MUX_T_DATA MUX_F_RST sid (be_put32 code) \<and>
        (s_mem s = [] \<longrightarrow>
          evq_content (s_q s') = evq_content (s_q s) @ [EV_STREAM_RESET sid 0]))"

lemma emit_mem_nil:
  assumes "s_mem s = []" "emit s ty fl sid p n = (None, s')" shows "s_mem s' = []"
proof -
  have "\<And>ob need limit r ob' h'. ob_reserve ob need limit [] = (r, ob', h') \<Longrightarrow> h' = []"
    by (auto simp: ob_reserve_def ob_grow_def Let_def split: if_splits)
  then show ?thesis using assms by (auto simp: emit_def split: prod.splits option.splits sum.splits)
qed

lemma refuse_spec:
  assumes inv: "sess_inv s" and at: "at_sid (s_tab s) i sid e"
  shows "stream_refused s sid code (close_stream (ev_push (emit_rst s sid code) (EV_STREAM_RESET sid 0)) i)"
proof -
  have io: "io_inv s" and t: "tab_inv (s_tab s)" using inv by (auto simp: sess_inv_def core_inv_def)
  let ?s1 = "emit_rst s sid code" and ?ev = "EV_STREAM_RESET sid 0"
  have v: "tab_view (st_remove (s_tab s) i) = (tab_view (s_tab s))(sid := None)" using st_remove_spec [OF t at] by simp
  have mem: "s_mem ?s1 = []" if "s_mem s = []" "\<not> s_dead ?s1"
  proof -
    obtain r1 s1 where em: "emit s MUX_T_DATA MUX_F_RST sid (Some (be_put32 code)) 4 = (r1, s1)"
      by (cases "emit s MUX_T_DATA MUX_F_RST sid (Some (be_put32 code)) 4")
    have "r1 = None"
      using emit_fails_dead [of s MUX_T_DATA MUX_F_RST sid "Some (be_put32 code)" 4] em that(2) io
      by (cases r1) (auto simp: MUX_MAX_PAYLOAD_def io_inv_def emit_rst_def)
    then show ?thesis using emit_mem_nil [OF that(1)] em by (auto simp: emit_rst_def)
  qed
  show ?thesis
    using v emit_rst_cases [OF io, of sid code] ev_push_content(1) [of ?s1 ?ev] mem io
    by (auto simp: stream_refused_def close_stream_def)
qed

lemma plain_data_spec:
  assumes inv: "sess_inv s" and alive: "\<not> s_dead s" and v: "tab_view (s_tab s) (fr_sid f) = Some e"
    and f: "fr_type f = MUX_T_DATA" "fr_flags f = 0" "0 < fr_len f" and n: "n = uint (fr_len f)"
    and s': "s' = process_frame s f"
  shows "(if st_life e = LIFE_HCL_REMOTE then stream_refused s (fr_sid f) MUX_CODE_PROTOCOL s'
     else if s_sess_recv_win s < n then s_dead s' \<and> s_tab s' = s_tab s \<and> s_out s' = s_out s
     else if st_recv_win e < n then stream_refused s (fr_sid f) MUX_CODE_FLOW_CONTROL s'
     else \<not> s_dead s' \<and> s_out s' = s_out s \<and> 0 \<le> s_sess_recv_win s' \<and> s_sess_recv_win s' = s_sess_recv_win s - n \<and>
       tab_view (s_tab s') = (tab_view (s_tab s))(fr_sid f \<mapsto> e\<lparr>st_recv_win := st_recv_win e - n\<rparr>) \<and>
       (s_mem s = [] \<longrightarrow> evq_content (s_q s') = evq_content (s_q s) @ [EV_STREAM_DATA (fr_sid f) (fr_payload f)]))"
proof -
  have t: "tab_inv (s_tab s)" and io: "io_inv s" using inv by (auto simp: sess_inv_def core_inv_def)
  have hello: "s_peer_hello_seen s" using sess_inv_empty [OF inv, of "fr_sid f"] v by auto
  have ok: "stream_ok s (fr_sid f) e" using inv v by (simp add: sess_inv_def core_inv_def)
  obtain i where i: "st_find (s_tab s) (fr_sid f) = Some i"
    using st_find_iff_view [OF inv, of "fr_sid f"] v by auto
  note at' = sess_inv_find [OF inv i]
  have e: "tab (s_tab s) ! i = e" using at_sid_view [OF t at'] v by simp
  note at = at' [unfolded e]
  let ?g = "\<lambda>e. e\<lparr>st_recv_win := st_recv_win e - n\<rparr>"
  let ?s1 = "s\<lparr>s_tab := st_upd (s_tab s) i ?g, s_sess_recv_win := s_sess_recv_win s - n\<rparr>"
  have u: "tab_view (st_upd (s_tab s) i ?g) = (tab_view (s_tab s))(fr_sid f \<mapsto> ?g e)"
    using st_upd_spec [OF t at, of ?g] by (simp add: keeps_id_def)
  have eq: "s' = (if st_life e = LIFE_HCL_REMOTE then
        close_stream (ev_push (emit_rst s (fr_sid f) MUX_CODE_PROTOCOL) (EV_STREAM_RESET (fr_sid f) 0)) i
      else if n > s_sess_recv_win s then raise_fatal s MUX_CODE_FLOW_CONTROL
      else if n > st_recv_win e then
        close_stream (ev_push (emit_rst s (fr_sid f) MUX_CODE_FLOW_CONTROL) (EV_STREAM_RESET (fr_sid f) 0)) i
      else ev_push ?s1 (EV_STREAM_DATA (fr_sid f) (fr_payload f)))"
    using f hello i e ok n
    by (simp add: s' process_frame_def on_data_def on_data_fin_def Let_def mux_type_defs mux_flag_defs stream_ok_def
        MUX_SID_CONTROL_def)
  have io1: "io_inv ?s1" using io by (simp add: io_inv_def)
  show ?thesis
    using refuse_spec [OF inv at] alive u ev_push_content(1) [OF io1] by (simp add: eq)
qed


definition wit_data :: mux_frame where
  "wit_data = frame_of MUX_T_DATA 0 1 [65, 66, 67]"


end
