(* ===== verification/Mux_Peers.thy ===== *)
theory Mux_Peers
  imports Mux_Receive
begin

text \<open>
  Two sessions and the byte stream between them: the handshake makes each side's credit the
  window the other advertised, and what one side writes the other delivers.
\<close>

unbundle bit_operations_syntax

section \<open>Construction in detail\<close>

lemma own_blob_nil: "own_blob p n [] = (r, h) \<Longrightarrow> h = []"
  by (auto simp: own_blob_def dup_blob_def split: if_splits option.splits prod.splits)

lemma st_grow_nil: "st_grow t want [] = (r, t', h) \<Longrightarrow> r = None \<and> h = []"
  by (auto simp: st_grow_def Let_def)

lemma mux_session_new_form:
  assumes new: "mux_session_new (Some cfg) role [] = Some s"
  shows "\<exists>t d s1. s1 = (session_init cfg role [])\<lparr>s_tab := t, s_mem := [], s_ident := d\<rparr> \<and>
    id_weight d = cfg_weight cfg \<and> sess_inv s1 \<and>
    (if role = MUX_DIALER then send_hello s1 False = (None, s) else s = s1)"
proof -
  obtain pid h1 au h2 no h3 t h4 where
    b: "own_blob (cfg_peer_id cfg) (cfg_peer_id_len cfg) [] = (Some pid, h1)"
      "own_blob (cfg_auth cfg) (cfg_auth_len cfg) h1 = (Some au, h2)"
      "own_blob (cfg_nonce cfg) (cfg_nonce_len cfg) h2 = (Some no, h3)"
    and len: "cfg_peer_id_len cfg \<le> 256" "cfg_auth_len cfg \<le> 256" "cfg_nonce_len cfg \<le> 256"
    and g: "st_grow (s_tab (session_init cfg role h3))
       (let want = unat (s_max_streams (session_init cfg role h3)) * 2 in if want < 64 then 64 else want)
       (s_mem (session_init cfg role h3)) = (None, t, h4)"
    and s: "(let s1 = (session_init cfg role h3)\<lparr>s_tab := t, s_mem := h4,
        s_ident := (s_ident (session_init cfg role h3))\<lparr>id_peer_id := pid, id_auth := au, id_nonce := no\<rparr>\<rparr>
       in if role = MUX_DIALER then (case send_hello s1 False of (None, s) \<Rightarrow> Some s | (Some _, s) \<Rightarrow> None)
          else Some s1) = Some s"
    using new
    by (auto simp: mux_session_new_def HELLO_BLOB_MAX_def Let_def
        split: if_splits prod.splits bool.splits option.splits)
  have h: "h1 = []" "h2 = []" "h3 = []" using b own_blob_nil by metis+
  have h4: "h4 = []" using g st_grow_nil by (metis h(3) mux_session.select_convs(22) session_init_def)
  let ?d = "(s_ident (session_init cfg role []))\<lparr>id_peer_id := pid, id_auth := au, id_nonce := no\<rparr>"
  let ?s1 = "(session_init cfg role [])\<lparr>s_tab := t, s_mem := [], s_ident := ?d\<rparr>"
  have "sess_inv ?s1"
    using session_init_inv [OF g] own_blob_length [OF b(1)] own_blob_length [OF b(2)] own_blob_length [OF b(3)] len h
    by (meson order_trans)
  moreover have "if role = MUX_DIALER then send_hello ?s1 False = (None, s) else s = ?s1"
    using s h h4 by (auto simp: Let_def split: if_splits prod.splits option.splits)
  moreover have "id_weight ?d = cfg_weight cfg" by (simp add: session_init_def)
  ultimately show ?thesis by blast
qed

section \<open>The HELLO exchange\<close>

definition hello_wire :: "mux_session \<Rightarrow> bytes" where
  "hello_wire s = concat (map tlv_wire (hello_tlvs s))"

definition hello_of :: "mux_session \<Rightarrow> hello_info" where
  "hello_of s = \<lparr>hi_weight = id_weight (s_ident s), hi_max_streams = s_max_streams s, hi_init_window = s_init_window s,
     hi_peer_id = ptr (id_peer_id (s_ident s)), hi_auth = ptr (id_auth (s_ident s)), hi_nonce = ptr (id_nonce (s_ident s))\<rparr>"

lemma hello_same:
  assumes "same_core s s'" shows "hello_wire (s'\<lparr>s_hello_sent := b\<rparr>) = hello_wire s" "hello_of (s'\<lparr>s_hello_sent := b\<rparr>) = hello_of s"
  using same_core_sel [OF assms] by (simp_all add: hello_wire_def hello_of_def hello_tlvs_def)

lemma send_hello_wire:
  assumes inv: "sess_inv s" and sh: "send_hello s ack = (None, s')"
  shows "\<exists>s1. same_core s s1 \<and> s_dead s1 = s_dead s \<and> s_q s1 = s_q s \<and> s' = s1\<lparr>s_hello_sent := True\<rparr> \<and>
    (s_mem s = [] \<longrightarrow> s_mem s' = []) \<and>
    ob_pending (s_out s') = ob_pending (s_out s) @
      frame_bytes (if ack then MUX_T_HELLO_ACK else MUX_T_HELLO) 0 MUX_SID_CONTROL (hello_wire s)"
proof -
  have id: "ident_ok (s_ident s)" and io: "io_inv s" using inv by (auto simp: sess_inv_def core_inv_def)
  let ?w = "hello_wire s" and ?ty = "if ack then MUX_T_HELLO_ACK else MUX_T_HELLO"
  have len: "length ?w \<le> 820" using hello_tlvs_wf(2) [OF id] by (simp add: hello_wire_def)
  obtain blob where b: "send_hello s ack =
      (case emit s ?ty 0 MUX_SID_CONTROL (Some blob) (of_nat (length ?w)) of
         (None, s') \<Rightarrow> (None, s'\<lparr>s_hello_sent := True\<rparr>) | (Some e, s') \<Rightarrow> (Some e, s'))" "length blob = 1024" "take (length ?w) blob = ?w"
    using send_hello_emit [OF id, of ack] unfolding hello_wire_def by blast
  obtain r s1 where em: "emit s ?ty 0 MUX_SID_CONTROL (Some blob) (of_nat (length ?w)) = (r, s1)"
    by (cases "emit s ?ty 0 MUX_SID_CONTROL (Some blob) (of_nat (length ?w))")
  have r: "r = None" "s' = s1\<lparr>s_hello_sent := True\<rparr>" using sh b(1) em by (cases r; simp)+
  have u: "unat (of_nat (length ?w) :: u32) = length ?w" using len by simp
  have "\<And>p. Some blob = Some p \<Longrightarrow> unat (of_nat (length ?w) :: u32) \<le> length p" using u len b(2) by auto
  note e = emit_cases [OF io em this]
  have "frame_bytes ?ty 0 MUX_SID_CONTROL ?w = craft_header_bytes ?ty 0 MUX_SID_CONTROL (of_nat (length ?w)) @ ?w"
    using len by (intro frame_bytes_eq) simp
  then show ?thesis
    using e r u b(3) emit_mem_nil [of s] em by (intro exI [of _ s1]) auto
qed

lemma be_get32_put32_nil [simp]: "be_get32 (be_put32 v) = v"
  using be_get32_put32 [of v "[]"] by simp

lemma hello_fold:
  assumes "ident_ok (s_ident d)"
  shows "tlv_fold hello_tlv (Some (hello_wire d)) 0 (s, hello_info_zero) =
    (True, s\<lparr>s_peer_max_streams := s_max_streams d, s_peer_init_window := s_init_window d,
             s_sess_send_win := uint (s_session_window d)\<rparr>, hello_of d)"
proof -
  have "tlv_fold hello_tlv (Some ([] @ concat (map tlv_wire (hello_tlvs d)))) (length ([] :: bytes)) (s, hello_info_zero) =
      (True, foldl (\<lambda>s (t, v). hello_tlv s t v) (s, hello_info_zero) (hello_tlvs d))"
    by (rule tlv_fold_wire [OF hello_tlvs_wf(1) [OF assms]])
  moreover have "foldl (\<lambda>s (t, v). hello_tlv s t v) (s, hello_info_zero) (hello_tlvs d) =
      (s\<lparr>s_peer_max_streams := s_max_streams d, s_peer_init_window := s_init_window d,
         s_sess_send_win := uint (s_session_window d)\<rparr>, hello_of d)"
    by (simp add: hello_tlvs_def hello_tlv_def mux_tlv_defs hello_of_def hello_info_zero_def ptr_def)
  ultimately show ?thesis by (simp add: hello_wire_def)
qed

text \<open>
  Receiving the whole HELLO of a session \<open>d\<close>: the session \<open>s\<close> before the reply.
\<close>

definition hello_taken :: "mux_session \<Rightarrow> mux_session \<Rightarrow> mux_session" where
  "hello_taken s d =
     ev_push (s\<lparr>s_peer_max_streams := s_max_streams d, s_peer_init_window := s_init_window d,
                s_sess_send_win := uint (s_session_window d), s_peer_hello_seen := True\<rparr>) (EV_PEER_HELLO (hello_of d))"

lemma recv_hello:
  assumes d: "ident_ok (s_ident d)" and s: "\<not> s_dead s" "\<not> s_peer_hello_seen s" "evq_count (s_q s) < MUX_EVENT_QUEUE_SOFT_CAP"
    and ty: "ty = (if ack then MUX_T_HELLO_ACK else MUX_T_HELLO)"
    and s': "s' = (if \<not> ack \<and> s_role s = MUX_ACCEPTOR \<and> \<not> s_hello_sent s
       then snd (send_hello (hello_taken s d) True) else hello_taken s d)" "\<not> s_dead s'"
    and b: "b = frame_bytes ty 0 MUX_SID_CONTROL (hello_wire d)"
  shows "mux_recv s (Some b) (length b) = (Inr (length b), s')"
proof -
  let ?f = "frame_of ty 0 MUX_SID_CONTROL (hello_wire d)"
  have len: "length (hello_wire d) \<le> 820" using hello_tlvs_wf(2) [OF d] by (simp add: hello_wire_def)
  have ne: "hello_wire d \<noteq> []" by (simp add: hello_wire_def hello_tlvs_def tlv_wire_def be_put16_def)
  have wf: "frame_wf ?f" using len by (intro frame_wf_frame_of) simp
  have parse: "mux_parse (Some b) = Inr (?f, length b)"
    using mux_parse_frame_wire [OF wf, of "[]"] by (simp add: b frame_bytes_def)
  have pos: "0 < length b" by (simp add: b frame_bytes_def frame_wire_def)
  have "on_hello s ?f ack = s'"
    using s s'(1) hello_fold [OF d, of s] ne by (simp add: on_hello_def ptr_def hello_taken_def Let_def)
  then have pf: "process_frame s ?f = s'" using ty by (cases ack) (simp_all add: process_frame_def Let_def mux_type_defs)
  have "recv_loop s b 0 = (length b, s')"
    using pos parse pf s s'(2) by (subst recv_loop.simps) (simp add: Let_def recv_loop.simps)
  then show ?thesis using s(1) by (simp add: mux_recv_def)
qed

lemma hello_taken_sel [simp]:
  "s_role (hello_taken s d) = s_role s" "s_dead (hello_taken s d) = s_dead s" "s_out (hello_taken s d) = s_out s"
  "s_init_window (hello_taken s d) = s_init_window s" "s_session_window (hello_taken s d) = s_session_window s"
  "s_max_streams (hello_taken s d) = s_max_streams s" "s_peer_init_window (hello_taken s d) = s_init_window d"
  "s_peer_max_streams (hello_taken s d) = s_max_streams d" "s_sess_send_win (hello_taken s d) = uint (s_session_window d)"
  "s_sess_recv_win (hello_taken s d) = s_sess_recv_win s" "s_hello_sent (hello_taken s d) = s_hello_sent s"
  "s_ident (hello_taken s d) = s_ident s" "s_ka (hello_taken s d) = s_ka s" "s_peer_hello_seen (hello_taken s d)"
  "s_max_out_buffer (hello_taken s d) = s_max_out_buffer s"
  by (simp_all add: hello_taken_def)

lemma hello_taken_hello [simp]: "hello_wire (hello_taken s d) = hello_wire s" "hello_of (hello_taken s d) = hello_of s"
  by (simp_all add: hello_wire_def hello_of_def hello_tlvs_def)

lemma hello_taken_inv:
  assumes "sess_inv s" "\<not> s_peer_hello_seen s" shows "sess_inv (hello_taken s d)"
proof -
  have c: "tab_count (s_tab s) = 0" using assms by (simp add: sess_inv_def core_inv_def)
  then show ?thesis
    using assms sess_inv_empty [OF assms] uint_u32_bounds [of "s_session_window d"]
    unfolding hello_taken_def by (intro sess_inv_ev_push) (simp add: sess_inv_def core_inv_def live_inv_def io_inv_def)
qed

lemma hello_taken_events:
  assumes "io_inv s" "s_mem s = []"
  shows "evq_content (s_q (hello_taken s d)) = evq_content (s_q s) @ [EV_PEER_HELLO (hello_of d)]" "s_mem (hello_taken s d) = []"
  using ev_push_content [of "s\<lparr>s_peer_max_streams := s_max_streams d, s_peer_init_window := s_init_window d,
     s_sess_send_win := uint (s_session_window d), s_peer_hello_seen := True\<rparr>" "EV_PEER_HELLO (hello_of d)"] assms
  by (simp_all add: hello_taken_def io_inv_def)

text \<open>With room for one HELLO the reply cannot fail.\<close>

lemma send_hello_room:
  assumes inv: "sess_inv s" and mem: "s_mem s = []" and room: "ob_len (s_out s) + 832 \<le> unat (s_max_out_buffer s)"
  shows "\<exists>s'. send_hello s ack = (None, s')"
proof -
  have id: "ident_ok (s_ident s)" and io: "io_inv s" using inv by (auto simp: sess_inv_def core_inv_def)
  let ?w = "concat (map tlv_wire (hello_tlvs s))" and ?ty = "if ack then MUX_T_HELLO_ACK else MUX_T_HELLO"
  have len: "length ?w \<le> 820" by (rule hello_tlvs_wf(2) [OF id])
  obtain blob where b: "send_hello s ack =
      (case emit s ?ty 0 MUX_SID_CONTROL (Some blob) (of_nat (length ?w)) of
         (None, s') \<Rightarrow> (None, s'\<lparr>s_hello_sent := True\<rparr>) | (Some e, s') \<Rightarrow> (Some e, s'))" "length blob = 1024"
    using send_hello_emit [OF id, of ack] by blast
  have u: "unat (of_nat (length ?w) :: u32) = length ?w" using len by simp
  have "of_nat (length ?w) \<le> MUX_MAX_PAYLOAD" using len u by (simp add: word_le_nat_alt MUX_MAX_PAYLOAD_def)
  then obtain s1 where "emit s ?ty 0 MUX_SID_CONTROL (Some blob) (of_nat (length ?w)) = (None, s1)"
    using emit_room [OF io mem, of "Some blob" "of_nat (length ?w)" ?ty 0 MUX_SID_CONTROL] u len b(2) room by auto
  then show ?thesis using b(1) by simp
qed

lemma new_dialer:
  assumes new: "mux_session_new (Some cd) MUX_DIALER [] = Some d"
  shows "sess_inv d" "\<not> s_dead d" "\<not> s_peer_hello_seen d" "s_q d = evq_zero" "s_role d = MUX_DIALER" "s_mem d = []"
    "mux_send_buf d = frame_bytes MUX_T_HELLO 0 MUX_SID_CONTROL (hello_wire d)"
    "s_sess_recv_win d = uint (s_session_window d)"
proof -
  obtain t i s1 where f: "s1 = (session_init cd MUX_DIALER [])\<lparr>s_tab := t, s_mem := [], s_ident := i\<rparr>"
    "sess_inv s1" "send_hello s1 False = (None, d)"
    using mux_session_new_form [OF new] by auto
  obtain s2 where s2: "same_core s1 s2" "s_dead s2 = s_dead s1" "s_q s2 = s_q s1" "d = s2\<lparr>s_hello_sent := True\<rparr>"
    "s_mem s1 = [] \<longrightarrow> s_mem d = []" "ob_pending (s_out d) = ob_pending (s_out s1) @
       frame_bytes MUX_T_HELLO 0 MUX_SID_CONTROL (hello_wire s1)"
    using send_hello_wire [OF f(2,3)] by auto
  show "sess_inv d" by (rule mux_session_new_inv [OF new])
  show "\<not> s_dead d" "\<not> s_peer_hello_seen d" "s_q d = evq_zero" "s_role d = MUX_DIALER" "s_mem d = []"
    "s_sess_recv_win d = uint (s_session_window d)"
    using s2(2-5) same_core_sel [OF s2(1)] by (simp_all add: f(1) session_init_def)
  show "mux_send_buf d = frame_bytes MUX_T_HELLO 0 MUX_SID_CONTROL (hello_wire d)"
    using s2(6) hello_same(1) [OF s2(1), of True] s2(4) by (simp add: mux_send_buf_def f(1) session_init_def)
qed

lemma new_acceptor:
  assumes new: "mux_session_new (Some ca) MUX_ACCEPTOR [] = Some a"
  shows "sess_inv a" "\<not> s_dead a" "\<not> s_peer_hello_seen a" "\<not> s_hello_sent a" "s_q a = evq_zero" "s_role a = MUX_ACCEPTOR"
    "s_mem a = []" "s_out a = outbuf_zero" "s_sess_recv_win a = uint (s_session_window a)"
proof -
  obtain t i where f: "a = (session_init ca MUX_ACCEPTOR [])\<lparr>s_tab := t, s_mem := [], s_ident := i\<rparr>"
    using mux_session_new_form [OF new] by auto
  show "sess_inv a" by (rule mux_session_new_inv [OF new])
  show "\<not> s_dead a" "\<not> s_peer_hello_seen a" "\<not> s_hello_sent a" "s_q a = evq_zero" "s_role a = MUX_ACCEPTOR"
    "s_mem a = []" "s_out a = outbuf_zero" "s_sess_recv_win a = uint (s_session_window a)"
    by (simp_all add: f session_init_def)
qed

text \<open>
  C27. The handshake makes the two ends agree. A dialer's output before anything else is its
  HELLO; fed to a fresh acceptor it is consumed whole and answered with a HELLO_ACK, and
  that answer is consumed whole by the dialer. Afterwards both are alive; each knows the
  other's stream window and stream limit; each side's connection credit is exactly the
  other's connection receive window; and each host got one event, with the other side's
  weight, limits, identity, proof and nonce.
\<close>

theorem handshake_agreement:
  assumes d: "mux_session_new (Some cd) MUX_DIALER [] = Some d"
    and a: "mux_session_new (Some ca) MUX_ACCEPTOR [] = Some a"
    and room: "832 \<le> unat (s_max_out_buffer a)"
    and ra: "mux_recv a (Some (mux_send_buf d)) (length (mux_send_buf d)) = (ra, a')"
    and rd: "mux_recv d (Some (mux_send_buf a')) (length (mux_send_buf a')) = (rd, d')"
  shows "ra = Inr (length (mux_send_buf d)) \<and> rd = Inr (length (mux_send_buf a')) \<and> \<not> s_dead a' \<and> \<not> s_dead d' \<and>
    s_peer_hello_seen a' \<and> s_peer_hello_seen d' \<and>
    s_peer_init_window a' = s_init_window d' \<and> s_peer_init_window d' = s_init_window a' \<and>
    s_peer_max_streams a' = s_max_streams d' \<and> s_peer_max_streams d' = s_max_streams a' \<and>
    s_sess_send_win a' = s_sess_recv_win d' \<and> s_sess_send_win d' = s_sess_recv_win a' \<and>
    evq_content (s_q a') = [EV_PEER_HELLO (hello_of d)] \<and> evq_content (s_q d') = [EV_PEER_HELLO (hello_of a)]"
proof -
  note D = new_dialer [OF d] and A = new_acceptor [OF a]
  have id: "ident_ok (s_ident d)" "ident_ok (s_ident a)" and io: "io_inv a" "io_inv d"
    using D(1) A(1) by (auto simp: sess_inv_def core_inv_def)
  let ?a1 = "hello_taken a d" and ?d1 = "hello_taken d a"
  have inv1: "sess_inv ?a1" by (rule hello_taken_inv [OF A(1,3)])
  note ev = hello_taken_events [OF io(1) A(7), of d] hello_taken_events [OF io(2) D(6), of a]
  have out1: "ob_len (s_out ?a1) + 832 \<le> unat (s_max_out_buffer ?a1)" using room A(8) by (simp add: outbuf_zero_def)
  obtain a2 where a2: "send_hello ?a1 True = (None, a2)" using send_hello_room [OF inv1 ev(2) out1] by blast
  obtain a3 where a3: "same_core ?a1 a3" "s_dead a3 = s_dead ?a1" "s_q a3 = s_q ?a1" "a2 = a3\<lparr>s_hello_sent := True\<rparr>"
    "ob_pending (s_out a2) = ob_pending (s_out ?a1) @ frame_bytes MUX_T_HELLO_ACK 0 MUX_SID_CONTROL (hello_wire ?a1)"
    using send_hello_wire [OF inv1 a2] by auto
  have cap: "evq_count evq_zero < MUX_EVENT_QUEUE_SOFT_CAP" by (simp add: evq_zero_def MUX_EVENT_QUEUE_SOFT_CAP_def)
  have "mux_recv a (Some (mux_send_buf d)) (length (mux_send_buf d)) = (Inr (length (mux_send_buf d)), a2)"
    using a2 a3(2,4) A cap by (intro recv_hello [OF id(1), where ack = False]) (simp_all add: D(7))
  then have a': "a' = a2" "ra = Inr (length (mux_send_buf d))" using ra by auto
  have buf: "mux_send_buf a' = frame_bytes MUX_T_HELLO_ACK 0 MUX_SID_CONTROL (hello_wire a)"
    using a3(5) A(8) by (simp add: mux_send_buf_def a')
  have "mux_recv d (Some (mux_send_buf a')) (length (mux_send_buf a')) = (Inr (length (mux_send_buf a')), ?d1)"
    using D cap by (intro recv_hello [OF id(2), where ack = True]) (simp_all add: buf)
  then have d': "d' = ?d1" "rd = Inr (length (mux_send_buf a'))" using rd by auto
  show ?thesis
    using a3(2-4) same_core_sel [OF a3(1)] ev(1,3) A D by (simp add: a' d')
qed

text \<open>Dialling never fails for want of room when the ceiling admits one HELLO.\<close>

lemma mux_session_new_dials:
  assumes len: "cfg_peer_id_len cfg = 0" "cfg_auth_len cfg = 0" "cfg_nonce_len cfg = 0"
    and room: "832 \<le> unat (nz (cfg_max_out_buffer cfg) MUX_DEFAULT_MAX_OUT_BUFFER)"
  shows "\<exists>d. mux_session_new (Some cfg) MUX_DIALER [] = Some d"
proof -
  let ?i = "session_init cfg MUX_DIALER []"
  let ?want = "let want = unat (s_max_streams ?i) * 2 in if want < 64 then 64 else want"
  obtain t where g: "st_grow (s_tab ?i) ?want [] = (None, t, [])"
    using st_grow_nil by (metis prod_cases3)
  let ?s = "?i\<lparr>s_tab := t, s_mem := [], s_ident := (s_ident ?i)\<lparr>id_peer_id := [], id_auth := [], id_nonce := []\<rparr>\<rparr>"
  have "sess_inv ?s" using session_init_inv [OF g, of "[]" "[]" "[]" "[]"] by simp
  moreover have "ob_len (s_out ?s) + 832 \<le> unat (s_max_out_buffer ?s)"
    using room by (simp add: session_init_def outbuf_zero_def)
  ultimately obtain d where "send_hello ?s False = (None, d)" using send_hello_room [of ?s False] by auto
  moreover have "s_mem ?i = []" by (simp add: session_init_def)
  ultimately show ?thesis
    using g len by (simp add: mux_session_new_def own_blob_def Let_def HELLO_BLOB_MAX_def)
qed

theorem handshake_agreement_witness:
  "\<exists>d a' d'. mux_session_new (Some wit_cfg) MUX_DIALER [] = Some d \<and>
     snd (mux_recv wit_acc (Some (mux_send_buf d)) (length (mux_send_buf d))) = a' \<and>
     snd (mux_recv d (Some (mux_send_buf a')) (length (mux_send_buf a'))) = d' \<and>
     \<not> s_dead a' \<and> \<not> s_dead d' \<and> s_sess_send_win a' = s_sess_recv_win d'"
proof -
  obtain d where d: "mux_session_new (Some wit_cfg) MUX_DIALER [] = Some d"
    using mux_session_new_dials [of wit_cfg] by (auto simp: wit_cfg_def nz_def MUX_DEFAULT_MAX_OUT_BUFFER_def)
  have "s_max_out_buffer wit_acc = 67108864" by code_simp
  then have room: "832 \<le> unat (s_max_out_buffer wit_acc)" by simp
  show ?thesis
    using d handshake_agreement [OF d wit_acc_new room prod.collapse [symmetric] prod.collapse [symmetric]] by blast
qed

section \<open>Delivery\<close>

text \<open>An allocator that never fails stays so.\<close>

lemma mem_nil_push [simp]: "s_mem s = [] \<Longrightarrow> s_mem (ev_push s e) = []"
  by (rule exE [OF evq_push_ok [of "s_q s" e]]) (simp add: ev_push_def)

lemma mem_nil_fatal [simp]: "s_mem s = [] \<Longrightarrow> s_mem (raise_fatal s c) = []"
  by (simp add: raise_fatal_def)

lemma ob_reserve_nil: "ob_reserve ob need limit [] = (r, ob', h') \<Longrightarrow> h' = []"
  by (auto simp: ob_reserve_def ob_grow_def Let_def split: if_splits)

lemma mem_nil_emit_rst [simp]: "s_mem s = [] \<Longrightarrow> s_mem (emit_rst s sid c) = []"
  by (auto simp: emit_rst_def emit_def split: prod.splits option.splits sum.splits dest: ob_reserve_nil)

lemma mem_nil_data: "s_mem s = [] \<Longrightarrow> fr_flags f AND MUX_F_SYN = 0 \<Longrightarrow> s_mem (on_data s f) = []"
  by (simp add: on_data_def on_data_fin_def close_stream_def Let_def split: option.splits)

text \<open>The DATA frames of one write, received in one piece.\<close>

lemma recv_data_frames:
  assumes "sess_inv s" "\<not> s_dead s" "s_mem s = []" "tab_view (s_tab s) sid = Some e" "st_life e \<noteq> LIFE_HCL_REMOTE"
    and "\<forall>c \<in> set cs. 0 < length c \<and> length c \<le> 65536"
    and "int (length (concat cs)) \<le> s_sess_recv_win s" "int (length (concat cs)) \<le> st_recv_win e"
    and "evq_count (s_q s) + length cs \<le> MUX_EVENT_QUEUE_SOFT_CAP"
  shows "\<exists>s'. recv_loop s (data_frames sid cs) 0 = (length (data_frames sid cs), s') \<and> sess_inv s' \<and> \<not> s_dead s' \<and>
    evq_content (s_q s') = evq_content (s_q s) @ map (\<lambda>c. EV_STREAM_DATA sid (Some c)) cs \<and>
    s_sess_recv_win s' = s_sess_recv_win s - int (length (concat cs)) \<and>
    tab_view (s_tab s') = (tab_view (s_tab s))(sid \<mapsto> e\<lparr>st_recv_win := st_recv_win e - int (length (concat cs))\<rparr>)"
  using assms
proof (induction cs arbitrary: s e)
  case Nil
  then show ?case by (subst recv_loop.simps) (simp add: data_frames_def fun_upd_idem)
next
  case (Cons c cs)
  let ?f = "frame_of MUX_T_DATA 0 sid c" and ?n = "int (length c)"
  let ?e = "e\<lparr>st_recv_win := st_recv_win e - ?n\<rparr>" and ?w = "frame_bytes MUX_T_DATA 0 sid c"
  have len: "0 < length c" "length c \<le> 65536" using Cons.prems(6) by auto
  have wf: "frame_wf ?f" using len by (intro frame_wf_frame_of) simp
  have u: "uint (of_nat (length c) :: u32) = ?n"
  proof -
    have "int (unat (of_nat (length c) :: u32)) = uint (of_nat (length c) :: u32)" by simp
    then show ?thesis using unat_len_u32 [of "length c"] len by simp
  qed
  have pos: "0 < fr_len ?f" using len by (simp add: word_gt_0 len_zero_u32)
  define s1 where "s1 = process_frame s ?f"
  have pl: "fr_payload ?f = Some c" using len by (simp add: ptr_def)
  have d: "\<not> s_dead s1" "s_sess_recv_win s1 = s_sess_recv_win s - ?n" "tab_view (s_tab s1) = (tab_view (s_tab s))(sid \<mapsto> ?e)"
    "evq_content (s_q s1) = evq_content (s_q s) @ [EV_STREAM_DATA sid (Some c)]"
    using plain_data_spec [OF Cons.prems(1,2), of ?f e ?n s1] Cons.prems(3-5,7,8) pos pl u s1_def by auto
  have inv1: "sess_inv s1" unfolding s1_def by (rule process_frame_inv [OF Cons.prems(1,2) wf])
  have mem1: "s_mem s1 = []"
  proof -
    have "s_peer_hello_seen s" using sess_inv_empty [OF Cons.prems(1), of sid] Cons.prems(4) by auto
    then show ?thesis using mem_nil_data [OF Cons.prems(3), of ?f]
      by (simp add: s1_def process_frame_def Let_def mux_type_defs mux_flag_defs)
  qed
  have cnt1: "evq_count (s_q s1) = Suc (evq_count (s_q s))" using d(4) by (metis length_evq_content length_append_singleton)
  have pre: "tab_view (s_tab s1) sid = Some ?e" "st_life ?e \<noteq> LIFE_HCL_REMOTE" "\<forall>c \<in> set cs. 0 < length c \<and> length c \<le> 65536"
    "int (length (concat cs)) \<le> s_sess_recv_win s1" "int (length (concat cs)) \<le> st_recv_win ?e"
    "evq_count (s_q s1) + length cs \<le> MUX_EVENT_QUEUE_SOFT_CAP"
    using d(2,3) Cons.prems(5-9) cnt1 by simp_all
  obtain s' where s': "recv_loop s1 (data_frames sid cs) 0 = (length (data_frames sid cs), s')" "sess_inv s'" "\<not> s_dead s'"
    "evq_content (s_q s') = evq_content (s_q s1) @ map (\<lambda>c. EV_STREAM_DATA sid (Some c)) cs"
    "s_sess_recv_win s' = s_sess_recv_win s1 - int (length (concat cs))"
    "tab_view (s_tab s') = (tab_view (s_tab s1))(sid \<mapsto> ?e\<lparr>st_recv_win := st_recv_win ?e - int (length (concat cs))\<rparr>)"
    using Cons.IH [OF inv1 d(1) mem1 pre] by blast
  have "recv_loop s (data_frames sid (c # cs)) 0 = recv_loop s1 (?w @ data_frames sid cs) (length ?w)"
  proof -
    have "mux_parse (Some (?w @ data_frames sid cs)) = Inr (?f, length ?w)"
      using mux_parse_frame_wire [OF wf] by (simp add: frame_bytes_def)
    moreover have "0 < length ?w" by (simp add: frame_bytes_def frame_wire_def)
    ultimately show ?thesis
      using Cons.prems(9) d(1) s1_def by (subst recv_loop.simps) (simp add: Let_def data_frames_def)
  qed
  also have "\<dots> = (length (data_frames sid (c # cs)), s')"
    using recv_loop_shift [of s1 ?w "data_frames sid cs" 0] s'(1) by (simp add: data_frames_def)
  finally show ?case using s' d by (intro exI [of _ s']) (simp add: algebra_simps)
qed

lemma length_le_concat: "\<forall>c \<in> set cs. c \<noteq> [] \<Longrightarrow> length cs \<le> length (concat cs)"
proof (induction cs)
  case (Cons c cs)
  then show ?case by (cases c) auto
qed simp

lemma mux_write_accepts:
  assumes "st_find (s_tab s) sid = Some i" "\<not> s_dead s" "st_life (tab (s_tab s) ! i) \<noteq> LIFE_HCL_LOCAL"
  shows "\<exists>sent s'. mux_write s sid (Some p) n = (Inr sent, s')"
  using assms by (auto simp: mux_write_def Let_def split: prod.splits)


end
