(* ===== verification/Mux_Control.thy ===== *)
theory Mux_Control
  imports Mux_Peers
begin

text \<open>
  Opening streams, keepalive, and two behaviours of the engine that its users have to know:
  the ids of a dialer wrap, and data for a stream that is already gone is not credited.
\<close>

unbundle bit_operations_syntax

section \<open>Opening a stream\<close>

lemma mux_open_cases:
  assumes inv: "sess_inv s" and ids: "ids_left s" and m: "n \<le> length q"
    and op: "mux_open s (Some q) n = (Inr sid, s')"
  shows "sid = s_next_local_sid s \<and> sid \<noteq> MUX_SID_CONTROL \<and> tab_view (s_tab s) sid = None \<and> n \<le> 8192 \<and>
    s_next_local_sid s' = sid + 2 \<and> \<not> s_dead s' \<and> s_peer_hello_seen s \<and> \<not> s_local_goaway s \<and>
    tab_count (s_tab s) < unat (s_peer_max_streams s) \<and>
    tab_view (s_tab s') = (tab_view (s_tab s))(sid \<mapsto> open_stream_fields s (st_fresh sid)) \<and>
    ob_pending (s_out s') = ob_pending (s_out s) @ frame_bytes MUX_T_DATA MUX_F_SYN sid (take n q)"
proof -
  let ?sid = "s_next_local_sid s" and ?meta = "if n \<noteq> 0 then Some q else None"
  have g: "\<not> s_dead s" "s_peer_hello_seen s" "\<not> s_local_goaway s" "n \<le> 8192"
    "tab_count (s_tab s) < unat (s_peer_max_streams s)" "?sid \<noteq> MUX_SID_CONTROL"
    using op by (auto simp: mux_open_def Let_def MUX_MAX_META_def split: if_splits)
  have t: "tab_inv (s_tab s)" and par: "?sid AND 1 = local_bit (s_role s)" and io: "io_inv s"
    using inv by (auto simp: sess_inv_def core_inv_def)
  have fresh: "tab_view (s_tab s) ?sid = None"
  proof (cases "tab_view (s_tab s) ?sid")
    case (Some e)
    then have "stream_ok s ?sid e" using inv by (simp add: sess_inv_def core_inv_def)
    then show ?thesis using par g(6) by (simp add: stream_ok_def MUX_SID_CONTROL_def)
  qed
  obtain i t1 h where ins: "st_insert (s_tab s) ?sid (s_mem s) = (Some i, t1, h)"
    using op g by (auto simp: mux_open_def Let_def MUX_MAX_META_def split: prod.splits option.splits)
  let ?s2 = "s\<lparr>s_next_local_sid := ?sid + 2, s_tab := st_upd t1 i (open_stream_fields s), s_mem := h\<rparr>"
  have of: "open_stream_fields (s\<lparr>s_next_local_sid := ?sid + 2\<rparr>) = open_stream_fields s"
    by (simp add: fun_eq_iff open_stream_fields_def)
  have em: "emit ?s2 MUX_T_DATA MUX_F_SYN ?sid ?meta (of_nat n) = (None, s')" "sid = ?sid"
    using op g ins of
    by (auto simp: mux_open_def Let_def MUX_MAX_META_def split: prod.splits option.splits if_splits)
  have u: "unat (of_nat n :: u32) = n" using g(4) by simp
  have io2: "io_inv ?s2" using io by (simp add: io_inv_def)
  have "\<And>p. ?meta = Some p \<Longrightarrow> unat (of_nat n :: u32) \<le> length p" using m u by (auto split: if_splits)
  note e = emit_cases [OF io2 em(1) this]
  note sp = st_insert_spec [OF t fresh ins, simplified]
  have "at_sid t1 i ?sid (st_fresh ?sid)" using sp by (simp add: at_sid_def)
  then have v: "tab_view (s_tab ?s2) = (tab_view (s_tab s))(?sid \<mapsto> open_stream_fields s (st_fresh ?sid))"
    using st_upd_spec [OF _ _ open_fields_fresh(4), of t1 i ?sid "st_fresh ?sid" s] sp by simp
  have pl: "take (unat (of_nat n :: u32)) (case ?meta of None \<Rightarrow> [] | Some p \<Rightarrow> p) = take n q" using u by simp
  have fb: "frame_bytes MUX_T_DATA MUX_F_SYN ?sid (take n q) = craft_header_bytes MUX_T_DATA MUX_F_SYN ?sid (of_nat n) @ take n q"
    using frame_bytes_eq [of "take n q" MUX_T_DATA MUX_F_SYN ?sid] m g(4) by (simp add: min_def)
  have "same_core ?s2 s'" using e by blast
  note sel = same_core_sel(14,16) [OF this]
  show ?thesis using e g fresh v pl fb em(2) sel by simp
qed

text \<open>
  C28. A successful \<open>mux_open\<close> allocates the next id of the caller's own parity, which no
  live stream has; enters an open stream with the two advertised windows; appends exactly
  the SYN frame with the metadata to the output; and happens only after the peer's HELLO,
  without a local GOAWAY and within the peer's stream limit.
\<close>

theorem mux_open_exact:
  assumes r: "reachable s" and ids: "ids_left s" and m: "n \<le> length q"
    and op: "mux_open s (Some q) n = (Inr sid, s')"
  shows "sid AND 1 = local_bit (s_role s) \<and> sid \<noteq> MUX_SID_CONTROL \<and> tab_view (s_tab s) sid = None \<and>
    (\<forall>k. tab_view (s_tab s) k \<noteq> None \<longrightarrow> k AND 1 = sid AND 1 \<longrightarrow> k < sid) \<and>
    s_peer_hello_seen s \<and> \<not> s_local_goaway s \<and> tab_count (s_tab s) < unat (s_peer_max_streams s) \<and>
    (\<exists>e. tab_view (s_tab s') = (tab_view (s_tab s))(sid \<mapsto> e) \<and> st_life e = LIFE_OPEN \<and>
       st_send_win e = uint (s_peer_init_window s) \<and> st_recv_win e = uint (s_init_window s)) \<and>
    ob_pending (s_out s') = ob_pending (s_out s) @ frame_bytes MUX_T_DATA MUX_F_SYN sid (take n q)"
proof -
  have inv: "sess_inv s" by (rule reachable_inv [OF r])
  note c = mux_open_cases [OF inv ids m op]
  have par: "sid AND 1 = local_bit (s_role s)" using c inv by (simp add: sess_inv_def core_inv_def)
  have "k < sid" if some: "tab_view (s_tab s) k \<noteq> None" and odd: "k AND 1 = sid AND 1" for k
  proof -
    obtain e where "tab_view (s_tab s) k = Some e" using some by auto
    then have "stream_ok s k e" using inv by (simp add: sess_inv_def core_inv_def)
    then show ?thesis using odd par c by (auto simp: stream_ok_def MUX_SID_CONTROL_def)
  qed
  then show ?thesis
    using c par open_fields_fresh(1,2) [of s "st_fresh sid"]
    by (auto simp: open_stream_fields_def intro!: exI [of _ "open_stream_fields s (st_fresh sid)"])
qed

text \<open>With memory, room and the peer's leave, opening succeeds.\<close>

lemma mux_open_ok:
  assumes io: "io_inv s" and t: "tab_inv (s_tab s)" and fresh: "tab_view (s_tab s) (s_next_local_sid s) = None"
    and mem: "s_mem s = []" and g: "\<not> s_dead s" "s_peer_hello_seen s" "\<not> s_local_goaway s" "n \<le> 8192"
      "tab_count (s_tab s) < unat (s_peer_max_streams s)" "s_next_local_sid s \<noteq> MUX_SID_CONTROL" "n \<le> length q"
    and room: "ob_len (s_out s) + 12 + n \<le> unat (s_max_out_buffer s)"
  shows "\<exists>s'. mux_open s (Some q) n = (Inr (s_next_local_sid s), s')"
proof -
  let ?sid = "s_next_local_sid s" and ?meta = "if n \<noteq> 0 then Some q else None"
  obtain i t1 where ins: "st_insert (s_tab s) ?sid [] = (Some i, t1, [])"
    using st_insert_total [OF t fresh] by (metis not_None_eq prod_cases3)
  let ?s1 = "s\<lparr>s_next_local_sid := ?sid + 2\<rparr>"
  let ?s2 = "?s1\<lparr>s_tab := st_upd t1 i (open_stream_fields ?s1), s_mem := []\<rparr>"
  have u: "unat (of_nat n :: u32) = n" using g(4) by simp
  have le: "(of_nat n :: u32) \<le> MUX_MAX_PAYLOAD" using g(4) u by (simp add: word_le_nat_alt MUX_MAX_PAYLOAD_def)
  have "io_inv ?s2" using io by (simp add: io_inv_def)
  moreover have "\<And>p. ?meta = Some p \<Longrightarrow> unat (of_nat n :: u32) \<le> length p" using g(7) u by (auto split: if_splits)
  moreover have "(of_nat n :: u32) = 0 \<or> ?meta \<noteq> None" by simp
  ultimately obtain s' where "emit ?s2 MUX_T_DATA MUX_F_SYN ?sid ?meta (of_nat n) = (None, s')"
    using emit_room [of ?s2 ?meta "of_nat n" MUX_T_DATA MUX_F_SYN ?sid] le u room by auto
  then show ?thesis using g ins mem by (simp add: mux_open_def Let_def MUX_MAX_META_def)
qed

theorem mux_open_exact_witness:
  "\<exists>sid s'. mux_open wit_live (Some [104, 105]) 2 = (Inr sid, s') \<and> sid AND 1 = 0 \<and>
     ob_pending (s_out s') = frame_bytes MUX_T_DATA MUX_F_SYN sid [104, 105]"
proof -
  have w: "ids_left wit_live" "s_role wit_live = MUX_ACCEPTOR" "ob_pending (s_out wit_live) = []"
    by (simp_all add: wit_live_eq ids_left_def)
  have inv: "io_inv wit_live" "tab_inv (s_tab wit_live)"
    using reachable_inv [OF wit_live_reachable] by (auto simp: sess_inv_def core_inv_def)
  have "tab_view (s_tab wit_live) 2 = None" unfolding wit_live_eq by code_simp
  then obtain s' where op: "mux_open wit_live (Some [104, 105]) 2 = (Inr 2, s')"
    using mux_open_ok [OF inv, of 2 "[104, 105]"] by (auto simp: wit_live_eq MUX_SID_CONTROL_def outbuf_zero_def)
  show ?thesis
    using op mux_open_exact [OF wit_live_reachable w(1) _ op] w(2,3) by (auto simp: local_bit_def)
qed

text \<open>
  A dialer's ids do not run out, they wrap. The check that guards against exhaustion
  compares the next id with 0, which an odd id never is; after \<open>0xFFFFFFFF\<close> a dialer hands
  out 1 again.
\<close>

theorem dialer_ids_wrap:
  assumes op: "mux_open s meta n = (Inr sid, s')" and last: "s_next_local_sid s = 0xFFFFFFFF"
  shows "sid = 0xFFFFFFFF \<and> s_next_local_sid s' = 1 \<and>
    (reachable d \<and> s_role d = MUX_DIALER \<longrightarrow> s_next_local_sid d \<noteq> MUX_SID_CONTROL)"
proof -
  have "s_next_local_sid d \<noteq> MUX_SID_CONTROL" if r: "reachable d" "s_role d = MUX_DIALER"
  proof -
    have "s_next_local_sid d AND 1 = local_bit (s_role d)"
      using reachable_inv [OF r(1)] by (simp add: sess_inv_def core_inv_def)
    then show ?thesis using r(2) by (auto simp: local_bit_def MUX_SID_CONTROL_def)
  qed
  moreover have "sid = 0xFFFFFFFF \<and> s_next_local_sid s' = 1"
    using op last emit_same_core same_core_sel(14)
    by (auto simp: mux_open_def Let_def split: if_splits prod.splits option.splits) fastforce+
  ultimately show ?thesis by blast
qed

definition wit_last :: mux_session where
  "wit_last = wit_live\<lparr>s_role := MUX_DIALER, s_next_local_sid := 0xFFFFFFFF\<rparr>"

theorem dialer_ids_wrap_witness:
  "\<exists>s'. mux_open wit_last (Some [104, 105]) 2 = (Inr 0xFFFFFFFF, s') \<and> s_next_local_sid s' = 1"
proof -
  have inv: "io_inv wit_last" "tab_inv (s_tab wit_last)"
    using reachable_inv [OF wit_live_reachable] by (auto simp: sess_inv_def core_inv_def io_inv_def wit_last_def)
  have "tab_view (s_tab wit_live) 0xFFFFFFFF = None" unfolding wit_live_eq by code_simp
  then obtain s' where op: "mux_open wit_last (Some [104, 105]) 2 = (Inr 0xFFFFFFFF, s')"
    using mux_open_ok [OF inv, of 2 "[104, 105]"]
    by (auto simp: wit_last_def wit_live_eq MUX_SID_CONTROL_def outbuf_zero_def)
  show ?thesis using op dialer_ids_wrap [OF op] by (simp add: wit_last_def)
qed

section \<open>Data for a stream that is gone\<close>

lemma recv_unknown_data:
  assumes "\<not> s_dead b" "s_peer_hello_seen b" "st_find (s_tab b) sid = None" "sid \<noteq> MUX_SID_CONTROL"
    "evq_count (s_q b) < MUX_EVENT_QUEUE_SOFT_CAP" "\<forall>c \<in> set cs. 0 < length c \<and> length c \<le> 65536"
  shows "recv_loop b (data_frames sid cs) 0 = (length (data_frames sid cs), b)"
  using assms(6)
proof (induction cs)
  case Nil
  then show ?case by (subst recv_loop.simps) (simp add: data_frames_def)
next
  case (Cons c cs)
  let ?f = "frame_of MUX_T_DATA 0 sid c" and ?w = "frame_bytes MUX_T_DATA 0 sid c"
  have wf: "frame_wf ?f" using Cons.prems by (intro frame_wf_frame_of) simp
  have pf: "process_frame b ?f = b" using assms by (simp add: process_frame_def on_data_def mux_type_defs mux_flag_defs)
  have "mux_parse (Some (?w @ data_frames sid cs)) = Inr (?f, length ?w)"
    using mux_parse_frame_wire [OF wf] by (simp add: frame_bytes_def)
  moreover have "0 < length ?w" by (simp add: frame_bytes_def frame_wire_def)
  ultimately have "recv_loop b (data_frames sid (c # cs)) 0 = recv_loop b (?w @ data_frames sid cs) (length ?w)"
    using assms pf by (subst recv_loop.simps) (simp add: Let_def data_frames_def)
  also have "\<dots> = (length (data_frames sid (c # cs)), b)"
    using recv_loop_shift [of b ?w "data_frames sid cs" 0] Cons by (simp add: data_frames_def)
  finally show ?case .
qed



end
