(* ===== verification/Mux_Keepalive.thy ===== *)
theory Mux_Keepalive
  imports Mux_Control
begin

text \<open>
  The keepalive of a session, \<open>mux_on_timer\<close>, driven the way the header asks a host to drive
  it: call it, hand the output to the transport, call it again at the deadline it returned.
  The first lemmas describe one call; the theorems the run.
\<close>

unbundle bit_operations_syntax

section \<open>One tick\<close>

lemma unat_add_u64: "unat (a :: u64) + unat b < 2 ^ 64 \<Longrightarrow> unat (a + b) = unat a + unat b"
  by (subst unat_word_ariths) simp

lemma unat_ucast_u32 [simp]: "unat (ucast (w :: u32) :: u64) = unat w"
  using unsigned_less [of w, where ?'a = nat] by (simp add: unsigned_ucast_eq take_bit_nat_eq_self_iff)

lemma later_deadline:
  assumes "a < (b :: u32)" "unat (now :: u64) + unat b < 2 ^ 64"
  shows "now + ucast a < now + ucast b"
proof -
  have "unat a < unat b" using assms(1) by (simp add: word_less_nat_alt)
  then have "unat (now + ucast a) = unat now + unat a" "unat (now + ucast b) = unat now + unat b"
    using assms(2) unat_add_u64 [of now "ucast a"] unat_add_u64 [of now "ucast b"] by simp_all
  then show ?thesis using \<open>unat a < unat b\<close> by (simp add: word_less_nat_alt)
qed

text \<open>The transport takes everything that is pending.\<close>

definition flush_out :: "mux_session \<Rightarrow> mux_session" where
  "flush_out s = mux_send_advance s (mux_out_pending s)"

lemma flush_out_sel [simp]: "s_ka (flush_out s) = s_ka s" "s_dead (flush_out s) = s_dead s" "s_q (flush_out s) = s_q s"
  "s_mem (flush_out s) = s_mem s" "s_max_out_buffer (flush_out s) = s_max_out_buffer s"
  by (simp_all add: flush_out_def mux_send_advance_def)

lemma flush_out_spec:
  assumes "ob_inv (s_out s)"
  shows "ob_inv (s_out (flush_out s))" "ob_len (s_out (flush_out s)) = 0" "ob_pending (s_out (flush_out s)) = []"
  using assms ob_advance_spec [OF assms, of "mux_out_pending s"]
  by (auto simp: flush_out_def mux_send_advance_def mux_out_pending_def ob_advance_def Let_def ob_inv_def length_ob_pending)

fun keepalive_run :: "nat \<Rightarrow> mux_session \<Rightarrow> u64 \<Rightarrow> mux_session \<times> u64" where
  "keepalive_run 0 s now = (s, now)"
| "keepalive_run (Suc n) s now =
     (case mux_on_timer s now of (next, s') \<Rightarrow> keepalive_run n (flush_out s') next)"

text \<open>
  A session between two ticks: its timer runs, the next PING is due now, the last one, if
  it is unanswered, was sent one heartbeat ago.
\<close>

definition ka_due :: "mux_session \<Rightarrow> u64 \<Rightarrow> bool" where
  "ka_due s now \<longleftrightarrow> \<not> s_dead s \<and> io_inv s \<and> s_mem s = [] \<and> ob_len (s_out s) = 0 \<and> 20 \<le> unat (s_max_out_buffer s) \<and>
     ka_timer_started (s_ka s) \<and> ka_heartbeat_ms (s_ka s) \<noteq> 0 \<and> ka_ping_due_ms (s_ka s) = now \<and>
     (ka_ping_outstanding (s_ka s) \<longrightarrow> ka_ping_sent_ms (s_ka s) + ucast (ka_heartbeat_ms (s_ka s)) = now)"

lemma timer_ping_ok:
  assumes "ka_due s now"
  shows "\<exists>s1. timer_ping s now = s1\<lparr>s_ka := (s_ka s)\<lparr>ka_ping_outstanding := True, ka_ping_sent_ms := now,
      ka_ping_nonce := ka_ping_nonce (s_ka s) + 1, ka_ping_due_ms := now + ucast (ka_heartbeat_ms (s_ka s))\<rparr>\<rparr> \<and>
    same_core s s1 \<and> \<not> s_dead s1 \<and> io_inv s1 \<and> s_mem s1 = []"
proof -
  let ?b = "be_put32 (ucast (drop_bit 32 (ka_ping_nonce (s_ka s)))) @ be_put32 (ucast (ka_ping_nonce (s_ka s)))"
  have io: "io_inv s" and mem: "s_mem s = []" and alive: "\<not> s_dead s" using assms by (auto simp: ka_due_def)
  have len: "length ?b = 8" by (simp add: be_put32_def)
  obtain s1 where em: "emit s MUX_T_PING 0 MUX_SID_CONTROL (Some ?b) 8 = (None, s1)" "s_mem s1 = []"
    using emit_room [OF io mem, of "Some ?b" 8 MUX_T_PING 0 MUX_SID_CONTROL] len assms
    by (auto simp: ka_due_def MUX_MAX_PAYLOAD_def)
  have e: "same_core s s1" "io_inv s1" "s_dead s1 = s_dead s"
    using emit_cases [OF io em(1)] len by auto
  then show ?thesis
    using em alive same_core_sel(17) [OF e(1)] by (intro exI [of _ s1]) (simp add: timer_ping_def Let_def)
qed

lemma keepalive_tick:
  assumes due: "ka_due s now" and hb: "ka_heartbeat_ms (s_ka s) < ka_timeout_ms (s_ka s)"
    and wrap: "unat now + unat (ka_timeout_ms (s_ka s)) < 2 ^ 64"
  shows "\<exists>s1. mux_on_timer s now = (now + ucast (ka_heartbeat_ms (s_ka s)), s1) \<and>
    ka_due (flush_out s1) (now + ucast (ka_heartbeat_ms (s_ka s))) \<and>
    ka_ping_outstanding (s_ka (flush_out s1)) \<and>
    ka_ping_nonce (s_ka (flush_out s1)) = ka_ping_nonce (s_ka s) + 1 \<and>
    ka_heartbeat_ms (s_ka (flush_out s1)) = ka_heartbeat_ms (s_ka s) \<and>
    ka_timeout_ms (s_ka (flush_out s1)) = ka_timeout_ms (s_ka s)"
proof -
  let ?hb = "ucast (ka_heartbeat_ms (s_ka s)) :: u64" and ?to = "ucast (ka_timeout_ms (s_ka s)) :: u64"
  obtain s1 where tp: "timer_ping s now = s1\<lparr>s_ka := (s_ka s)\<lparr>ka_ping_outstanding := True, ka_ping_sent_ms := now,
      ka_ping_nonce := ka_ping_nonce (s_ka s) + 1, ka_ping_due_ms := now + ?hb\<rparr>\<rparr>"
    and s1: "same_core s s1" "\<not> s_dead s1" "io_inv s1" "s_mem s1 = []"
    using timer_ping_ok [OF due] by blast
  let ?s2 = "timer_ping s now"
  have lt: "?hb < ?to" using hb by (simp add: word_less_nat_alt)
  have quiet: "\<not> (ka_ping_outstanding (s_ka s) \<and> ka_timeout_ms (s_ka s) \<noteq> 0 \<and> now - ka_ping_sent_ms (s_ka s) \<ge> ?to)"
  proof
    assume a: "ka_ping_outstanding (s_ka s) \<and> ka_timeout_ms (s_ka s) \<noteq> 0 \<and> now - ka_ping_sent_ms (s_ka s) \<ge> ?to"
    then have "now = ka_ping_sent_ms (s_ka s) + ?hb" using due by (simp add: ka_due_def)
    then have "now - ka_ping_sent_ms (s_ka s) = ?hb" by (simp only: add_diff_cancel_left')
    then show False using a lt by (simp add: not_le [symmetric])
  qed
  have "\<not> now + ?to < now + ?hb" using later_deadline [OF hb wrap] by simp
  then have t: "mux_on_timer s now = (now + ?hb, ?s2)"
    using quiet due by (auto simp: mux_on_timer_def ka_due_def tp Let_def)
  have ob: "ob_inv (s_out ?s2)" using s1(3) by (simp add: tp io_inv_def)
  have fl: "flush_out ?s2 = ?s2\<lparr>s_out := s_out (flush_out ?s2)\<rparr>" by (simp add: flush_out_def mux_send_advance_def)
  have "ka_due (flush_out ?s2) (now + ?hb)"
    using flush_out_spec [OF ob] s1 due same_core_sel(18) [OF s1(1)]
    by (subst fl) (auto simp: ka_due_def tp io_inv_def)
  then show ?thesis using t by (intro exI [of _ ?s2]) (subst (2 3 4 5) fl, simp add: tp)
qed


definition wit_timed :: mux_session where
  "wit_timed = snd (mux_on_timer wit_live 0)"

lemma wit_timed_due: "ka_due wit_timed 1000"
proof -
  have "io_inv wit_live" using reachable_inv [OF wit_live_reachable] by (simp add: sess_inv_def)
  then show ?thesis
    by (simp add: ka_due_def wit_timed_def mux_on_timer_def io_inv_def Let_def) (simp add: wit_live_eq outbuf_zero_def)
qed


text \<open>
  With a timeout no longer than the heartbeat the dead peer is noticed: a session whose
  PING went out at \<open>t\<close> asks to be called at \<open>t + timeout\<close>, and that call, with the PING still
  unanswered, ends the session with exactly one FATAL event.
\<close>

theorem keepalive_expires:
  assumes due: "ka_due s now" and to: "ka_timeout_ms (s_ka s) \<noteq> 0" "ka_timeout_ms (s_ka s) < ka_heartbeat_ms (s_ka s)"
    and quiet: "\<not> ka_ping_outstanding (s_ka s)"
    and wrap: "unat now + unat (ka_heartbeat_ms (s_ka s)) < 2 ^ 64"
    and t1: "mux_on_timer s now = (next, s1)" and t2: "mux_on_timer (flush_out s1) next = (next', s2)"
  shows "next = now + ucast (ka_timeout_ms (s_ka s)) \<and> \<not> s_dead s1 \<and> s_dead s2 \<and> next' = UINT64_MAX \<and>
    evq_content (s_q s2) = evq_content (s_q s1) @ [EV_FATAL MUX_CODE_INTERNAL]"
proof -
  let ?hb = "ucast (ka_heartbeat_ms (s_ka s)) :: u64" and ?to = "ucast (ka_timeout_ms (s_ka s)) :: u64"
  obtain s3 where tp: "timer_ping s now = s3\<lparr>s_ka := (s_ka s)\<lparr>ka_ping_outstanding := True, ka_ping_sent_ms := now,
      ka_ping_nonce := ka_ping_nonce (s_ka s) + 1, ka_ping_due_ms := now + ?hb\<rparr>\<rparr>"
    and s3: "same_core s s3" "\<not> s_dead s3" "io_inv s3" "s_mem s3 = []"
    using timer_ping_ok [OF due] by blast
  have "now + ?to < now + ?hb" by (rule later_deadline [OF to(2) wrap])
  then have n: "next = now + ?to" "s1 = timer_ping s now"
    using t1 due quiet to by (auto simp: mux_on_timer_def ka_due_def tp Let_def)
  let ?f = "flush_out s1"
  have x: "next - ka_ping_sent_ms (s_ka ?f) = ?to" by (simp add: n tp)
  have s2: "s2 = raise_fatal ?f MUX_CODE_INTERNAL" "next' = UINT64_MAX"
    using t2 x due to s3 by (auto simp: mux_on_timer_def n tp ka_due_def)
  have "evq_inv (s_q ?f)" "s_mem ?f = []" using s3 by (auto simp: n tp io_inv_def)
  moreover have "ob_inv (s_out ?f)" using s3 flush_out_spec(1) [of s1] by (simp add: n tp io_inv_def)
  ultimately have "evq_content (s_q s2) = evq_content (s_q ?f) @ [EV_FATAL MUX_CODE_INTERNAL]"
    using ev_push_content(1) [of "?f\<lparr>s_dead := True\<rparr>"] s3 by (simp add: s2 raise_fatal_def io_inv_def n tp)
  then show ?thesis using n s2 s3 by (simp add: tp)
qed

definition wit_strict :: mux_session where
  "wit_strict = wit_timed\<lparr>s_ka := (s_ka wit_timed)\<lparr>ka_timeout_ms := 400\<rparr>\<rparr>"

theorem keepalive_expires_witness:
  "\<exists>s1 s2. mux_on_timer wit_strict 1000 = (1400, s1) \<and> mux_on_timer (flush_out s1) 1400 = (UINT64_MAX, s2) \<and> s_dead s2"
proof -
  have k: "ka_heartbeat_ms (s_ka wit_strict) = 1000" "ka_timeout_ms (s_ka wit_strict) = 400"
    "\<not> ka_ping_outstanding (s_ka wit_strict)"
    by (simp_all add: wit_strict_def wit_timed_def mux_on_timer_def wit_live_eq Let_def)
  have due: "ka_due wit_strict 1000" using wit_timed_due by (simp add: ka_due_def wit_strict_def io_inv_def)
  obtain n s1 where t1: "mux_on_timer wit_strict 1000 = (n, s1)" by (cases "mux_on_timer wit_strict 1000")
  obtain n' s2 where t2: "mux_on_timer (flush_out s1) n = (n', s2)" by (cases "mux_on_timer (flush_out s1) n")
  show ?thesis using keepalive_expires [OF due _ _ k(3) _ t1 t2] k t1 t2 by simp
qed

end
