(* ===== verification/Mux_Auth.thy ===== *)
theory Mux_Auth
  imports Mux_Prelude "HOL-Library.Monad_Syntax"
begin

text \<open>
  Tunnel authentication, \<^verbatim>\<open>src/common/auth.c\<close>: the streaming SHA-256, HMAC-SHA256, the
  constant-time comparison and the proof that a daemon attaches to its HELLO. The two
  \<^verbatim>\<open>while\<close> loops that have no bound of their own are partial functions, so that not ending is
  the value \<open>None\<close>. The second half gives the definitions of FIPS 180-4 and RFC 2104 on whole
  messages and shows that the code computes them.
\<close>

unbundle bit_operations_syntax

section \<open>SHA-256\<close>

record sha256_ctx =
  hs_state :: "u32 list"
  hs_bitlen :: u64
  hs_buf :: bytes
  hs_buflen :: nat

definition ror :: "u32 \<Rightarrow> nat \<Rightarrow> u32" where
  "ror x n = drop_bit n x OR push_bit (32 - n) x"

definition sha256_K :: "u32 list" where
  "sha256_K = concat
    [[0x428a2f98, 0x71374491, 0xb5c0fbcf, 0xe9b5dba5, 0x3956c25b, 0x59f111f1, 0x923f82a4, 0xab1c5ed5],
     [0xd807aa98, 0x12835b01, 0x243185be, 0x550c7dc3, 0x72be5d74, 0x80deb1fe, 0x9bdc06a7, 0xc19bf174],
     [0xe49b69c1, 0xefbe4786, 0x0fc19dc6, 0x240ca1cc, 0x2de92c6f, 0x4a7484aa, 0x5cb0a9dc, 0x76f988da],
     [0x983e5152, 0xa831c66d, 0xb00327c8, 0xbf597fc7, 0xc6e00bf3, 0xd5a79147, 0x06ca6351, 0x14292967],
     [0x27b70a85, 0x2e1b2138, 0x4d2c6dfc, 0x53380d13, 0x650a7354, 0x766a0abb, 0x81c2c92e, 0x92722c85],
     [0xa2bfe8a1, 0xa81a664b, 0xc24b8b70, 0xc76c51a3, 0xd192e819, 0xd6990624, 0xf40e3585, 0x106aa070],
     [0x19a4c116, 0x1e376c08, 0x2748774c, 0x34b0bcb5, 0x391c0cb3, 0x4ed8aa4a, 0x5b9cca4f, 0x682e6ff3],
     [0x748f82ee, 0x78a5636f, 0x84c87814, 0x8cc70208, 0x90befffa, 0xa4506ceb, 0xbef9a3f7, 0xc67178f2]]"

text \<open>The message schedule: sixteen words loaded from the block, then one new word per round.\<close>

definition sched_step :: "nat \<Rightarrow> u32 list \<Rightarrow> u32 list" where
  "sched_step i w =
     (let s0 = ror (w ! (i - 15)) 7 XOR ror (w ! (i - 15)) 18 XOR drop_bit 3 (w ! (i - 15));
          s1 = ror (w ! (i - 2)) 17 XOR ror (w ! (i - 2)) 19 XOR drop_bit 10 (w ! (i - 2))
      in w @ [w ! (i - 16) + s0 + w ! (i - 7) + s1])"

definition sha256_sched :: "bytes \<Rightarrow> u32 list" where
  "sha256_sched p = fold sched_step [16..<64] (map (\<lambda>i. be_get32 (drop (i * 4) p)) [0..<16])"

type_synonym work = "u32 \<times> u32 \<times> u32 \<times> u32 \<times> u32 \<times> u32 \<times> u32 \<times> u32"

fun sha256_round :: "u32 list \<Rightarrow> nat \<Rightarrow> work \<Rightarrow> work" where
  "sha256_round w i (a, b, d2, d, e, f, g, h) =
     (let S1 = ror e 6 XOR ror e 11 XOR ror e 25;
          ch = (e AND f) XOR (NOT e AND g);
          t1 = h + S1 + ch + sha256_K ! i + w ! i;
          S0 = ror a 2 XOR ror a 13 XOR ror a 22;
          maj = (a AND b) XOR (a AND d2) XOR (b AND d2);
          t2 = S0 + maj
      in (t1 + t2, a, b, d2, d + t1, e, f, g))"

definition sha256_block :: "sha256_ctx \<Rightarrow> bytes \<Rightarrow> sha256_ctx" where
  "sha256_block c p =
     (let w = sha256_sched p; s = hs_state c
      in case fold (sha256_round w) [0..<64] (s ! 0, s ! 1, s ! 2, s ! 3, s ! 4, s ! 5, s ! 6, s ! 7) of
           (a, b, d2, d, e, f, g, h) \<Rightarrow>
             c\<lparr>hs_state := [s ! 0 + a, s ! 1 + b, s ! 2 + d2, s ! 3 + d,
                           s ! 4 + e, s ! 5 + f, s ! 6 + g, s ! 7 + h]\<rparr>)"

text \<open>\<open>sha256_init\<close> leaves the 64 bytes of the block buffer as they are; they are 0 here.\<close>

definition sha256_init :: sha256_ctx where
  "sha256_init =
     \<lparr>hs_state = [0x6a09e667, 0xbb67ae85, 0x3c6ef372, 0xa54ff53a,
                  0x510e527f, 0x9b05688c, 0x1f83d9ab, 0x5be0cd19],
      hs_bitlen = 0, hs_buf = replicate 64 0, hs_buflen = 0\<rparr>"

partial_function (option) update_loop :: "sha256_ctx \<Rightarrow> bytes \<Rightarrow> sha256_ctx option" where
  "update_loop c p =
     (if p = [] then Some c
      else
        let n = (if 64 - hs_buflen c > length p then length p else 64 - hs_buflen c);
            c = c\<lparr>hs_buf := mem_write (hs_buf c) (hs_buflen c) (take n p), hs_buflen := hs_buflen c + n\<rparr>;
            c = (if hs_buflen c = 64 then (sha256_block c (hs_buf c))\<lparr>hs_buflen := 0\<rparr> else c)
        in update_loop c (drop n p))"

definition sha256_update :: "sha256_ctx \<Rightarrow> bytes \<Rightarrow> sha256_ctx option" where
  "sha256_update c p = update_loop (c\<lparr>hs_bitlen := hs_bitlen c + of_nat (length p) * 8\<rparr>) p"

partial_function (option) pad_loop :: "sha256_ctx \<Rightarrow> sha256_ctx option" where
  "pad_loop c =
     (if hs_buflen c = 56 then Some c else do { c \<leftarrow> sha256_update c [0]; pad_loop c })"

definition sha256_final :: "sha256_ctx \<Rightarrow> bytes option" where
  "sha256_final c =
     (let bitlen = hs_bitlen c;
          lenbe = map (\<lambda>i. ucast (drop_bit (56 - i * 8) bitlen)) [0..<8]
      in do {
        c \<leftarrow> sha256_update c [0x80];
        c \<leftarrow> pad_loop c;
        c \<leftarrow> sha256_update c lenbe;
        Some (concat (map (\<lambda>i. be_put32 (hs_state c ! i)) [0..<8]))
      })"

definition sha256 :: "bytes \<Rightarrow> bytes option" where
  "sha256 data = do { c \<leftarrow> sha256_update sha256_init data; sha256_final c }"

section \<open>HMAC, comparison, proof\<close>

definition hmac_sha256 :: "bytes \<Rightarrow> bytes \<Rightarrow> bytes option" where
  "hmac_sha256 key msg = do {
     k \<leftarrow> (if length key > 64 then map_option (mem_write (replicate 64 0) 0) (sha256 key)
            else Some (mem_write (replicate 64 0) 0 key));
     let ipad = map (\<lambda>b. b XOR 0x36) k; opad = map (\<lambda>b. b XOR 0x5c) k in do {
       c \<leftarrow> sha256_update sha256_init ipad;
       c \<leftarrow> sha256_update c msg;
       inner \<leftarrow> sha256_final c;
       c \<leftarrow> sha256_update sha256_init opad;
       c \<leftarrow> sha256_update c inner;
       sha256_final c
     }
   }"

fun ct_diff :: "bytes \<Rightarrow> bytes \<Rightarrow> u8 \<Rightarrow> nat \<Rightarrow> u8" where
  "ct_diff (x # xs) (y # ys) diff (Suc n) = ct_diff xs ys (diff OR (x XOR y)) n"
| "ct_diff xs ys diff n = diff"

definition ct_equal :: "bytes \<Rightarrow> bytes \<Rightarrow> nat \<Rightarrow> bool" where
  "ct_equal a b n = (ct_diff a b 0 n = 0)"

text \<open>The bytes of \<^verbatim>\<open>"mux/v1/auth"\<close>.\<close>

definition auth_ctx :: bytes where
  "auth_ctx = [0x6d, 0x75, 0x78, 0x2f, 0x76, 0x31, 0x2f, 0x61, 0x75, 0x74, 0x68]"

definition mux_auth_proof :: "bytes \<Rightarrow> bytes \<Rightarrow> bytes option" where
  "mux_auth_proof token nonce = hmac_sha256 token (auth_ctx @ take 256 nonce)"

declare update_loop.simps [code] pad_loop.simps [code]

section \<open>The standards, on whole messages\<close>

text \<open>FIPS 180-4: the functions of section 4.1.2, the schedule and the compression of 6.2.2.\<close>

definition fips_Ch :: "u32 \<Rightarrow> u32 \<Rightarrow> u32 \<Rightarrow> u32" where
  "fips_Ch x y z = (x AND y) XOR (NOT x AND z)"

definition fips_Maj :: "u32 \<Rightarrow> u32 \<Rightarrow> u32 \<Rightarrow> u32" where
  "fips_Maj x y z = (x AND y) XOR (x AND z) XOR (y AND z)"

definition fips_Sigma0 :: "u32 \<Rightarrow> u32" where
  "fips_Sigma0 x = word_rotr 2 x XOR word_rotr 13 x XOR word_rotr 22 x"

definition fips_Sigma1 :: "u32 \<Rightarrow> u32" where
  "fips_Sigma1 x = word_rotr 6 x XOR word_rotr 11 x XOR word_rotr 25 x"

definition fips_sigma0 :: "u32 \<Rightarrow> u32" where
  "fips_sigma0 x = word_rotr 7 x XOR word_rotr 18 x XOR drop_bit 3 x"

definition fips_sigma1 :: "u32 \<Rightarrow> u32" where
  "fips_sigma1 x = word_rotr 17 x XOR word_rotr 19 x XOR drop_bit 10 x"

fun fips_W :: "bytes \<Rightarrow> nat \<Rightarrow> u32" where
  "fips_W M t =
     (if t < 16 then be_get32 (drop (t * 4) M)
      else fips_sigma1 (fips_W M (t - 2)) + fips_W M (t - 7) + fips_sigma0 (fips_W M (t - 15)) + fips_W M (t - 16))"

fun fips_step :: "bytes \<Rightarrow> nat \<Rightarrow> work \<Rightarrow> work" where
  "fips_step M t (a, b, c, d, e, f, g, h) =
     (let T1 = h + fips_Sigma1 e + fips_Ch e f g + sha256_K ! t + fips_W M t;
          T2 = fips_Sigma0 a + fips_Maj a b c
      in (T1 + T2, a, b, c, d + T1, e, f, g))"

definition fips_compress :: "u32 list \<Rightarrow> bytes \<Rightarrow> u32 list" where
  "fips_compress H M =
     (case fold (fips_step M) [0..<64] (H ! 0, H ! 1, H ! 2, H ! 3, H ! 4, H ! 5, H ! 6, H ! 7) of
        (a, b, c, d, e, f, g, h) \<Rightarrow>
          [a + H ! 0, b + H ! 1, c + H ! 2, d + H ! 3, e + H ! 4, f + H ! 5, g + H ! 6, h + H ! 7])"

text \<open>Padding (5.1.1) and the division into 64-byte blocks (5.2.1).\<close>

definition fips_zeros :: "nat \<Rightarrow> nat" where
  "fips_zeros n = (if n mod 64 \<le> 56 then 56 - n mod 64 else 120 - n mod 64)"

definition fips_length :: "nat \<Rightarrow> bytes" where
  "fips_length l = map (\<lambda>i. ucast (drop_bit (56 - i * 8) (of_nat l :: u64))) [0..<8]"

definition fips_pad :: "bytes \<Rightarrow> bytes" where
  "fips_pad m = m @ [0x80] @ replicate (fips_zeros (length m + 1)) 0 @ fips_length (8 * length m)"

function blocks :: "bytes \<Rightarrow> bytes list" where
  "blocks m = (if length m < 64 then [] else take 64 m # blocks (drop 64 m))"
  by pat_completeness auto
termination by (relation "measure length") auto

function rest :: "bytes \<Rightarrow> bytes" where
  "rest m = (if length m < 64 then m else rest (drop 64 m))"
  by pat_completeness auto
termination by (relation "measure length") auto

declare blocks.simps [simp del] rest.simps [simp del] fips_W.simps [simp del]

definition fips_hash :: "bytes \<Rightarrow> u32 list" where
  "fips_hash m = foldl fips_compress (hs_state sha256_init) (blocks m)"

definition fips_sha256 :: "bytes \<Rightarrow> bytes" where
  "fips_sha256 m = concat (map be_put32 (fips_hash (fips_pad m)))"

text \<open>RFC 2104, for a hash function with 64-byte blocks.\<close>

definition rfc2104_hmac :: "(bytes \<Rightarrow> bytes) \<Rightarrow> bytes \<Rightarrow> bytes \<Rightarrow> bytes" where
  "rfc2104_hmac H key msg =
     (let k0 = (if length key > 64 then H key else key);
          k = k0 @ replicate (64 - length k0) 0
      in H (map (\<lambda>b. b XOR 0x5c) k @ H (map (\<lambda>b. b XOR 0x36) k @ msg)))"

section \<open>One block\<close>

lemma ror_rotr:
  assumes "0 < n" "n < 32" shows "ror x n = word_rotr n x"
proof (rule bit_word_eqI)
  fix k assume "k < LENGTH(32)"
  then have k: "k < 32" by simp
  have r: "bit (word_rotr n x) k = bit x ((k + n) mod 32)" using k by (simp add: bit_word_rotr_iff)
  have l: "bit (ror x n) k = (bit x (k + n) \<or> 32 - n \<le> k \<and> bit x (k - (32 - n)))"
    using k by (simp add: ror_def bit_or_iff bit_drop_bit_eq bit_push_bit_iff add.commute)
  show "bit (ror x n) k = bit (word_rotr n x) k"
  proof (cases "k + n < 32")
    case True
    then show ?thesis unfolding r l by auto
  next
    case False
    then have "\<not> bit x (k + n)" using bit_imp_le_length [of x "k + n"] by auto
    moreover have "(k + n) mod 32 = k - (32 - n)" using False k assms(2) by (simp add: le_mod_geq)
    ultimately show ?thesis unfolding r l using False by auto
  qed
qed

lemma sched_nth:
  assumes "16 \<le> k" "k \<le> 64"
  shows "length (fold sched_step [16..<k] (map (\<lambda>i. be_get32 (drop (i * 4) p)) [0..<16])) = k \<and>
    (\<forall>t < k. fold sched_step [16..<k] (map (\<lambda>i. be_get32 (drop (i * 4) p)) [0..<16]) ! t = fips_W p t)"
  using assms
proof (induction k rule: dec_induct)
  case base
  then show ?case by (auto simp: fips_W.simps)
next
  case (step k)
  let ?w = "fold sched_step [16..<k] (map (\<lambda>i. be_get32 (drop (i * 4) p)) [0..<16])"
  have w: "length ?w = k" "\<And>t. t < k \<Longrightarrow> ?w ! t = fips_W p t" using step by auto
  have e: "fold sched_step [16..<Suc k] (map (\<lambda>i. be_get32 (drop (i * 4) p)) [0..<16]) = sched_step k ?w"
    using step(1) by simp
  have "sched_step k ?w = ?w @ [fips_W p k]"
    using step(1) w by (simp add: sched_step_def Let_def fips_W.simps [of p k] fips_sigma0_def fips_sigma1_def ror_rotr
        algebra_simps)
  then show ?case unfolding e using w by (auto simp: nth_append less_Suc_eq)
qed

lemma round_step:
  assumes "i < 64" shows "sha256_round (sha256_sched p) i v = fips_step p i v"
proof -
  have "sha256_sched p ! i = fips_W p i" using sched_nth [of 64 p] assms by (simp add: sha256_sched_def)
  moreover obtain a b c d e f g h where "v = (a, b, c, d, e, f, g, h)" by (metis surj_pair)
  ultimately show ?thesis
    by (simp add: Let_def fips_Sigma0_def fips_Sigma1_def fips_Ch_def fips_Maj_def ror_rotr)
qed

lemma sha256_block_state:
  "hs_state (sha256_block c p) = fips_compress (hs_state c) p"
  "hs_bitlen (sha256_block c p) = hs_bitlen c" "hs_buf (sha256_block c p) = hs_buf c" "hs_buflen (sha256_block c p) = hs_buflen c"
proof -
  have "fold (sha256_round (sha256_sched p)) [0..<64] v = fold (fips_step p) [0..<64] v" for v
    by (rule fold_cong) (auto simp: round_step fun_eq_iff simp del: sha256_round.simps fips_step.simps)
  then show "hs_state (sha256_block c p) = fips_compress (hs_state c) p"
    by (simp add: sha256_block_def fips_compress_def Let_def add.commute split: prod.splits)
  show "hs_bitlen (sha256_block c p) = hs_bitlen c" "hs_buf (sha256_block c p) = hs_buf c" "hs_buflen (sha256_block c p) = hs_buflen c"
    by (simp_all add: sha256_block_def Let_def split: prod.splits)
qed

section \<open>Streaming\<close>

lemma blocks_rest:
  assumes "length (rest m @ q) \<le> 64"
  shows "blocks (m @ q) = (if length (rest m @ q) = 64 then blocks m @ [rest m @ q] else blocks m)"
    "rest (m @ q) = (if length (rest m @ q) = 64 then [] else rest m @ q)"
  using assms
proof (induction m rule: rest.induct)
  case (1 m)
  {
    case 1
    show ?case
    proof (cases "length m < 64")
      case True
      then show ?thesis using 1 by (auto simp: blocks.simps [of "m @ q"] blocks.simps [of m] rest.simps [of m] blocks.simps [of "[]"])
    next
      case False
      then show ?thesis using "1.IH"(1) 1 by (simp add: blocks.simps [of "m @ q"] blocks.simps [of m] rest.simps [of m])
    qed
  next
    case 2
    show ?case
    proof (cases "length m < 64")
      case True
      then show ?thesis using 2 by (auto simp: rest.simps [of "m @ q"] rest.simps [of m] rest.simps [of "[]"])
    next
      case False
      then show ?thesis using "1.IH"(2) 2 by (simp add: rest.simps [of "m @ q"] rest.simps [of m])
    qed
  }
qed

lemma length_rest: "length (rest m) = length m mod 64"
proof (induction m rule: rest.induct)
  case (1 m)
  then show ?case by (cases "length m < 64") (auto simp: rest.simps [of m] le_mod_geq)
qed

lemma length_fips_hash: "length (fips_hash m) = 8"
proof -
  have "length (foldl fips_compress h bs) = 8" if "length h = 8" for h bs
    using that by (induction bs arbitrary: h) (simp_all add: fips_compress_def split: prod.splits)
  then show ?thesis by (simp add: fips_hash_def sha256_init_def)
qed

text \<open>A context that has absorbed the message \<open>m\<close>.\<close>

definition absorbed :: "sha256_ctx \<Rightarrow> bytes \<Rightarrow> bool" where
  "absorbed c m \<longleftrightarrow> hs_state c = fips_hash m \<and> length (hs_buf c) = 64 \<and> hs_buflen c = length (rest m) \<and>
     take (hs_buflen c) (hs_buf c) = rest m"

definition sha256_rep :: "sha256_ctx \<Rightarrow> bytes \<Rightarrow> bool" where
  "sha256_rep c m \<longleftrightarrow> absorbed c m \<and> hs_bitlen c = of_nat (length m) * 8"

lemma absorbed_bitlen [simp]: "absorbed (c\<lparr>hs_bitlen := x\<rparr>) m = absorbed c m"
  by (simp add: absorbed_def)

lemma update_loop_absorbs:
  "absorbed c m \<Longrightarrow> \<exists>c'. update_loop c p = Some c' \<and> absorbed c' (m @ p) \<and> hs_bitlen c' = hs_bitlen c"
proof (induction "length p" arbitrary: c m p rule: less_induct)
  case less
  show ?case
  proof (cases "p = []")
    case True
    then show ?thesis using less.prems by (simp add: update_loop.simps)
  next
    case False
    define n where "n = (if 64 - hs_buflen c > length p then length p else 64 - hs_buflen c)"
    define q where "q = take n p"
    define buf where "buf = mem_write (hs_buf c) (hs_buflen c) q"
    define c1 where "c1 = c\<lparr>hs_buf := buf, hs_buflen := hs_buflen c + n\<rparr>"
    define c2 where "c2 = (if hs_buflen c1 = 64 then (sha256_block c1 (hs_buf c1))\<lparr>hs_buflen := 0\<rparr> else c1)"
    have a: "hs_state c = fips_hash m" "length (hs_buf c) = 64" "hs_buflen c = length (rest m)"
      "take (length (rest m)) (hs_buf c) = rest m" using less.prems by (auto simp: absorbed_def)
    have lt: "length (rest m) < 64" by (simp add: length_rest)
    have n: "0 < n" "length q = n" "length (rest m) + n \<le> 64" using False lt a(3) by (auto simp: n_def q_def)
    have rq: "length (rest m @ q) = length (rest m) + n" using n(2) by simp
    have tb: "take (length (rest m) + n) buf = rest m @ q"
      using take_mem_write_through [of "hs_buflen c" "hs_buf c" q] a n by (simp add: buf_def)
    have len: "length buf = 64" using a n by (simp add: buf_def)
    note br = blocks_rest [of m q]
    have "absorbed c2 (m @ q)"
    proof (cases "length (rest m) + n = 64")
      case True
      then have "buf = rest m @ q" using tb len by simp
      then show ?thesis
        using True br rq a len by (simp add: c2_def c1_def absorbed_def sha256_block_state fips_hash_def)
    next
      case False
      then show ?thesis using br rq n(3) a len tb by (simp add: c2_def c1_def absorbed_def fips_hash_def)
    qed
    moreover have "hs_bitlen c2 = hs_bitlen c" by (simp add: c2_def c1_def sha256_block_state)
    moreover have "update_loop c p = update_loop c2 (drop n p)"
      using False by (subst update_loop.simps) (simp add: Let_def n_def c2_def c1_def buf_def q_def)
    moreover have "length (drop n p) < length p" "q @ drop n p = p" using n(1) False by (simp_all add: q_def)
    ultimately show ?thesis using less.hyps [of "drop n p" c2 "m @ q"] by simp
  qed
qed

lemma sha256_update_rep:
  assumes "sha256_rep c m" shows "\<exists>c'. sha256_update c p = Some c' \<and> sha256_rep c' (m @ p)"
proof -
  have "absorbed (c\<lparr>hs_bitlen := x\<rparr>) m" for x using assms by (simp add: sha256_rep_def)
  from update_loop_absorbs [OF this, of "hs_bitlen c + of_nat (length p) * 8" p] show ?thesis
    using assms by (auto simp: sha256_update_def sha256_rep_def algebra_simps)
qed

lemma sha256_init_rep: "sha256_rep sha256_init []"
  by (simp add: sha256_rep_def absorbed_def fips_hash_def blocks.simps rest.simps)
     (simp add: sha256_init_def)

lemma fips_zeros_step:
  "fips_zeros n = 0 \<longleftrightarrow> n mod 64 = 56" "n mod 64 \<noteq> 56 \<Longrightarrow> fips_zeros n = Suc (fips_zeros (Suc n))"
proof -
  have m: "n mod 64 < 64" by simp
  show "fips_zeros n = 0 \<longleftrightarrow> n mod 64 = 56" using m by (auto simp: fips_zeros_def)
  show "fips_zeros n = Suc (fips_zeros (Suc n))" if "n mod 64 \<noteq> 56"
    using m that by (auto simp: fips_zeros_def mod_Suc)
qed

lemma pad_loop_rep:
  "sha256_rep c m \<Longrightarrow> k = fips_zeros (length m) \<Longrightarrow> \<exists>c'. pad_loop c = Some c' \<and> absorbed c' (m @ replicate k 0)"
proof (induction k arbitrary: c m)
  case 0
  then have "hs_buflen c = 56" using fips_zeros_step(1) [of "length m"] by (simp add: sha256_rep_def absorbed_def length_rest)
  then show ?case using 0 by (subst pad_loop.simps) (simp add: sha256_rep_def)
next
  case (Suc k)
  then have ne: "length m mod 64 \<noteq> 56" using fips_zeros_step(1) [of "length m"] by auto
  then have b: "hs_buflen c \<noteq> 56" using Suc.prems(1) by (simp add: sha256_rep_def absorbed_def length_rest)
  obtain c1 where c1: "sha256_update c [0] = Some c1" "sha256_rep c1 (m @ [0])"
    using sha256_update_rep [OF Suc.prems(1)] by blast
  have "k = fips_zeros (length (m @ [0]))" using fips_zeros_step(2) [OF ne] Suc.prems(2) by simp
  from Suc.IH [OF c1(2) this] show ?case
    using b c1(1) by (subst pad_loop.simps) simp
qed

lemma sha256_final_rep:
  assumes "sha256_rep c m" shows "sha256_final c = Some (fips_sha256 m)"
proof -
  let ?l = "map (\<lambda>i. ucast (drop_bit (56 - i * 8) (hs_bitlen c))) [0..<8] :: bytes"
  have l: "?l = fips_length (8 * length m)" using assms by (simp add: sha256_rep_def fips_length_def mult.commute)
  obtain c1 where c1: "sha256_update c [0x80] = Some c1" "sha256_rep c1 (m @ [0x80])"
    using sha256_update_rep [OF assms] by blast
  obtain c2 where c2: "pad_loop c1 = Some c2" "absorbed c2 ((m @ [0x80]) @ replicate (fips_zeros (length (m @ [0x80]))) 0)"
    using pad_loop_rep [OF c1(2) refl] by blast
  then have "absorbed (c2\<lparr>hs_bitlen := x\<rparr>) ((m @ [0x80]) @ replicate (fips_zeros (length (m @ [0x80]))) 0)" for x
    by simp
  from update_loop_absorbs [OF this, of _ ?l] obtain c3 where c3: "sha256_update c2 ?l = Some c3" "absorbed c3 (fips_pad m)"
    unfolding sha256_update_def fips_pad_def l by auto
  have "length (fips_hash (fips_pad m)) = 8" by (rule length_fips_hash)
  then have "map (\<lambda>i. be_put32 (hs_state c3 ! i)) [0..<8] = map be_put32 (fips_hash (fips_pad m))"
    using c3(2) by (intro nth_equalityI) (simp_all add: absorbed_def)
  then show ?thesis using c1(1) c2(1) c3(1) by (simp add: sha256_final_def Let_def fips_sha256_def)
qed

section \<open>The interface of an incremental hash\<close>

text \<open>
  What a caller of the hash relies on: a context stands for the bytes it was fed, feeding
  more bytes appends them, finishing gives the hash of all of them. HMAC is a client of it.
\<close>

fun feed :: "('c \<Rightarrow> bytes \<Rightarrow> 'c option) \<Rightarrow> 'c \<Rightarrow> bytes list \<Rightarrow> 'c option" where
  "feed upd c [] = Some c"
| "feed upd c (p # ps) = do { c \<leftarrow> upd c p; feed upd c ps }"

locale incremental_hash =
  fixes rep :: "'c \<Rightarrow> bytes \<Rightarrow> bool" and init :: 'c
    and upd :: "'c \<Rightarrow> bytes \<Rightarrow> 'c option" and fin :: "'c \<Rightarrow> bytes option" and H :: "bytes \<Rightarrow> bytes"
  assumes init_rep: "rep init []"
    and upd_rep: "rep c m \<Longrightarrow> \<exists>c'. upd c p = Some c' \<and> rep c' (m @ p)"
    and fin_rep: "rep c m \<Longrightarrow> fin c = Some (H m)"
begin

lemma feed_rep: "rep c m \<Longrightarrow> \<exists>c'. feed upd c ps = Some c' \<and> rep c' (m @ concat ps)"
proof (induction ps arbitrary: c m)
  case (Cons p ps)
  obtain c1 where c1: "upd c p = Some c1" "rep c1 (m @ p)" using upd_rep [OF Cons.prems] by blast
  then show ?case using Cons.IH [OF c1(2)] by simp
qed simp

lemma feed_hash: "do { c \<leftarrow> feed upd init ps; fin c } = Some (H (concat ps))"
  using feed_rep [OF init_rep, of ps] fin_rep by auto

lemma two_parts: "do { c \<leftarrow> upd init a; c \<leftarrow> upd c b; fin c } = Some (H (a @ b))"
  using feed_hash [of "[a, b]"] by (cases "upd init a") auto

end

interpretation ih: incremental_hash sha256_rep sha256_init sha256_update sha256_final fips_sha256
  by unfold_locales (fact sha256_init_rep sha256_update_rep sha256_final_rep)+

lemma sha256_eq: "sha256 m = Some (fips_sha256 m)"
  using ih.feed_hash [of "[m]"] by (simp add: sha256_def bind_eq_Some_conv)

lemma length_fips_sha256: "length (fips_sha256 m) = 32"
proof -
  have "length (concat (map be_put32 h)) = 4 * length h" for h by (induction h) (simp_all add: be_put32_def)
  then show ?thesis by (simp add: fips_sha256_def length_fips_hash)
qed

lemma zero_padded: "length k \<le> 64 \<Longrightarrow> mem_write (replicate 64 0) 0 k = k @ replicate (64 - length k) 0"
  by (simp add: mem_write_def)

lemma hmac_eq: "hmac_sha256 key msg = Some (rfc2104_hmac fips_sha256 key msg)"
proof -
  let ?k0 = "if length key > 64 then fips_sha256 key else key"
  let ?k = "?k0 @ replicate (64 - length ?k0) 0"
  have k: "(if length key > 64 then map_option (mem_write (replicate 64 0) 0) (sha256 key)
      else Some (mem_write (replicate 64 0) 0 key)) = Some ?k"
    by (simp add: sha256_eq zero_padded length_fips_sha256)
  have "hmac_sha256 key msg = do {
      inner \<leftarrow> do { c \<leftarrow> sha256_update sha256_init (map (\<lambda>b. b XOR 0x36) ?k); c \<leftarrow> sha256_update c msg; sha256_final c };
      do { c \<leftarrow> sha256_update sha256_init (map (\<lambda>b. b XOR 0x5c) ?k); c \<leftarrow> sha256_update c inner; sha256_final c } }"
    unfolding hmac_sha256_def k by (simp add: Let_def)
  then show ?thesis by (simp only: ih.two_parts bind.bind_lunit rfc2104_hmac_def Let_def)
qed

lemma xor_zero: "(x :: u8) XOR y = 0 \<longleftrightarrow> x = y"
proof
  assume "x XOR y = 0"
  then have "(x XOR y) XOR y = 0 XOR y" by simp
  then show "x = y" by (simp add: xor.assoc)
qed simp

lemma ct_diff_zero:
  "n \<le> length a \<Longrightarrow> n \<le> length b \<Longrightarrow> ct_diff a b d n = 0 \<longleftrightarrow> d = 0 \<and> take n a = take n b"
proof (induction a b d n rule: ct_diff.induct)
  case (1 x xs y ys diff n)
  have "diff OR (x XOR y) = 0 \<longleftrightarrow> diff = 0 \<and> x = y" by (simp add: or_eq_0_iff xor_zero)
  then show ?case using 1 by auto
qed auto

section \<open>The code computes the standards\<close>

text \<open>
  C13. The streaming hash always returns, and it is SHA-256 of FIPS 180-4. Whatever pieces a
  message is fed in, and also when it is hashed in one call, both loops end and the digest is
  that of the padded message, block by block.
\<close>

theorem sha256_streaming_is_fips:
  "do { c \<leftarrow> feed sha256_update sha256_init ps; sha256_final c } = Some (fips_sha256 (concat ps)) \<and>
   sha256 (concat ps) = Some (fips_sha256 (concat ps)) \<and> length (fips_sha256 (concat ps)) = 32"
  by (simp add: ih.feed_hash sha256_eq length_fips_sha256)

text \<open>
  The known answer of FIPS 180-4 for the message \<^verbatim>\<open>"abc"\<close>.
\<close>

theorem sha256_abc:
  "sha256 [0x61, 0x62, 0x63] = Some
    [0xba, 0x78, 0x16, 0xbf, 0x8f, 0x01, 0xcf, 0xea, 0x41, 0x41, 0x40, 0xde, 0x5d, 0xae, 0x22, 0x23,
     0xb0, 0x03, 0x61, 0xa3, 0x96, 0x17, 0x7a, 0x9c, 0xb4, 0x10, 0xff, 0x61, 0xf2, 0x00, 0x15, 0xad]"
  by code_simp

text \<open>
  The proof a daemon sends is HMAC-SHA256 of RFC 2104, keyed with the token, over the
  context string followed by the nonce (its first 256 bytes), for keys of every length; and
  it is always produced.
\<close>

theorem auth_proof_is_hmac:
  "hmac_sha256 key msg = Some (rfc2104_hmac fips_sha256 key msg) \<and>
   mux_auth_proof key nonce = Some (rfc2104_hmac fips_sha256 key (auth_ctx @ take 256 nonce))"
  by (simp add: hmac_eq mux_auth_proof_def)

text \<open>
  The constant-time comparison decides equality of the first \<open>n\<close> bytes, so a proof is
  accepted exactly when it is the expected one.
\<close>

theorem ct_equal_correct:
  assumes "n \<le> length a" "n \<le> length b"
  shows "ct_equal a b n \<longleftrightarrow> take n a = take n b"
  using ct_diff_zero [OF assms] by (simp add: ct_equal_def)

theorem ct_equal_correct_witness: "\<not> ct_equal [1, 2, 3] [1, 2, 4] 3 \<and> ct_equal [1, 2, 3] [1, 2, 4] 2"
  using ct_equal_correct [of 3 "[1, 2, 3]" "[1, 2, 4]"] ct_equal_correct [of 2 "[1, 2, 3]" "[1, 2, 4]"] by simp

end
