(* ===== verification/Mux_Transport.thy ===== *)
theory Mux_Transport
  imports Mux_Session_Reach Mux_Auth
begin

text \<open>
  What the three daemons share in driving a session: the results of the system calls they
  make, calls through a session pointer that may be null, the authentication of a peer's
  HELLO, the configuration of a session from the daemon's options, and the loop that writes
  a session's output to the tunnel socket (\<open>conn_flush\<close> of \<^verbatim>\<open>src/edge-peer/router.c\<close>,
  \<open>tunnel_flush\<close> of \<^verbatim>\<open>src/common/relay.c\<close> and of \<^verbatim>\<open>src/libpeer/src/libpeer.c\<close>, the same
  code three times).

  The kernel is a parameter: the results of the reads and writes still to come are lists,
  consumed front first, and when a list is exhausted the call would block. A write accepts at
  most the bytes it was given and a read delivers at most the space it was given, so the
  amounts in the lists are cut to that; every behaviour of the kernel is such a list.
\<close>

unbundle bit_operations_syntax

datatype sys_write = WrOk nat | WrAgain | WrErr
datatype sys_read = RdData bytes | RdEof | RdAgain | RdErr

section \<open>Calls through a pointer\<close>

text \<open>A \<^verbatim>\<open>mux_session *\<close> field is null while the tunnel is down; the API returns its error then.\<close>

definition via :: "'r \<Rightarrow> (mux_session \<Rightarrow> 'r \<times> mux_session) \<Rightarrow> mux_session option \<Rightarrow> 'r \<times> mux_session option" where
  "via null f m = (case m of None \<Rightarrow> (null, None) | Some s \<Rightarrow> (case f s of (r, s') \<Rightarrow> (r, Some s')))"

definition via_write :: "mux_session option \<Rightarrow> u32 \<Rightarrow> bytes \<Rightarrow> (mux_err + nat) \<times> mux_session option" where
  "via_write m sid p = via (Inl MUX_ERR_PARAM) (\<lambda>s. mux_write s sid (Some p) (length p)) m"

definition via_consume :: "mux_session option \<Rightarrow> u32 \<Rightarrow> nat \<Rightarrow> mux_session option" where
  "via_consume m sid n = snd (via (Some MUX_ERR_PARAM) (\<lambda>s. mux_consume s sid (of_nat n)) m)"

definition via_close :: "mux_session option \<Rightarrow> u32 \<Rightarrow> mux_session option" where
  "via_close m sid = snd (via (Some MUX_ERR_PARAM) (\<lambda>s. mux_close s sid) m)"

definition via_reset :: "mux_session option \<Rightarrow> u32 \<Rightarrow> u32 \<Rightarrow> mux_session option" where
  "via_reset m sid code = snd (via (Some MUX_ERR_PARAM) (\<lambda>s. mux_reset s sid code) m)"

definition via_goaway :: "mux_session option \<Rightarrow> u32 \<Rightarrow> mux_session option" where
  "via_goaway m reason = snd (via (Some MUX_ERR_PARAM) (\<lambda>s. mux_goaway s reason) m)"

definition via_open :: "mux_session option \<Rightarrow> bytes option \<Rightarrow> (mux_err + u32) \<times> mux_session option" where
  "via_open m meta =
     via (Inl MUX_ERR_PARAM) (\<lambda>s. mux_open s meta (case meta of None \<Rightarrow> 0 | Some b \<Rightarrow> length b)) m"

definition accepted_by :: "mux_err + nat \<Rightarrow> nat" where
  "accepted_by r = (case r of Inl _ \<Rightarrow> 0 | Inr w \<Rightarrow> w)"

lemma via_simps [simp]:
  "via null f None = (null, None)"
  "via null f (Some s) = (fst (f s), Some (snd (f s)))"
  by (simp_all add: via_def split: prod.splits)

lemma via_calls [simp]:
  "via_write (Some s) sid p = (fst (mux_write s sid (Some p) (length p)), Some (snd (mux_write s sid (Some p) (length p))))"
  "via_consume (Some s) sid n = Some (snd (mux_consume s sid (of_nat n)))"
  "via_close (Some s) sid = Some (snd (mux_close s sid))"
  "via_reset (Some s) sid code = Some (snd (mux_reset s sid code))"
  "via_goaway (Some s) reason = Some (snd (mux_goaway s reason))"
  "via_open (Some s) meta = (fst (mux_open s meta (case meta of None \<Rightarrow> 0 | Some b \<Rightarrow> length b)),
     Some (snd (mux_open s meta (case meta of None \<Rightarrow> 0 | Some b \<Rightarrow> length b))))"
  by (simp_all add: via_write_def via_consume_def via_close_def via_reset_def via_goaway_def via_open_def)

text \<open>A data pointer of an event with the length beside it.\<close>

definition blob :: "bytes option \<Rightarrow> bytes" where
  "blob p = (case p of None \<Rightarrow> [] | Some b \<Rightarrow> b)"

lemma blob_simps [simp]: "blob None = []" "blob (Some b) = b"
  by (simp_all add: blob_def)

section \<open>Authentication\<close>

text \<open>
  The check of a peer's HELLO that \<open>check_auth\<close> of the router and the handlers of the relay
  and of libpeer perform: the proof for the peer's own nonce, compared in constant time.
  Without a token everybody is accepted. \<open>None\<close> is the hash not returning.
\<close>

definition hello_authentic :: "bytes option \<Rightarrow> hello_info \<Rightarrow> bool option" where
  "hello_authentic token hi =
     (case token of
        None \<Rightarrow> Some True
      | Some t \<Rightarrow>
          (case mux_auth_proof t (blob (hi_nonce hi)) of
             None \<Rightarrow> None
           | Some expect \<Rightarrow> Some (length (blob (hi_auth hi)) = 32 \<and> ct_equal expect (blob (hi_auth hi)) 32)))"

lemma hello_authentic_total: "\<exists>b. hello_authentic token hi = Some b"
  by (cases token) (auto simp: hello_authentic_def mux_auth_proof_def hmac_eq)

section \<open>Flushing a session to its socket\<close>

text \<open>The success of the flush, the session, the calls left, and the bytes the socket took.\<close>

fun flush_loop :: "mux_session \<Rightarrow> sys_write list \<Rightarrow> bytes \<Rightarrow> bool \<times> mux_session \<times> sys_write list \<times> bytes" where
  "flush_loop s [] sent = (True, s, [], sent)"
| "flush_loop s (w # ws) sent =
     (let buf = mux_send_buf s; len = length buf
      in if \<not> len > 0 then (True, s, w # ws, sent)
         else case w of
                WrOk n \<Rightarrow>
                  let k = min n len
                  in if k > 0 then flush_loop (mux_send_advance s k) ws (sent @ take k buf)
                     else (False, s, ws, sent)
              | WrAgain \<Rightarrow> (True, s, ws, sent)
              | WrErr \<Rightarrow> (False, s, ws, sent))"

lemma mux_send_advance_buf:
  "ob_inv (s_out s) \<Longrightarrow> mux_send_buf (mux_send_advance s n) = drop n (mux_send_buf s) \<and> ob_inv (s_out (mux_send_advance s n))"
  using ob_advance_spec by (simp add: mux_send_buf_def mux_send_advance_def)

text \<open>What the socket took, followed by what is still pending, is what was pending.\<close>

lemma flush_loop_conserves:
  assumes "ob_inv (s_out s)" "flush_loop s ws sent = (ok, s', ws', sent')"
  shows "\<exists>taken. sent' = sent @ taken \<and> mux_send_buf s = taken @ mux_send_buf s' \<and> s' = s\<lparr>s_out := s_out s'\<rparr> \<and> ob_inv (s_out s')"
  using assms
proof (induction s ws sent rule: flush_loop.induct)
  case (2 s w ws sent)
  note prems = 2(2,3)
  show ?case
  proof (cases "mux_send_buf s \<noteq> [] \<and> (\<exists>n > 0. w = WrOk n)")
    case True
    then obtain n where n: "w = WrOk n" "0 < min n (length (mux_send_buf s))" by auto
    let ?k = "min n (length (mux_send_buf s))"
    note adv = mux_send_advance_buf [OF prems(1), of ?k]
    obtain taken where t: "sent' = (sent @ take ?k (mux_send_buf s)) @ taken"
      "mux_send_buf (mux_send_advance s ?k) = taken @ mux_send_buf s'"
      "s' = (mux_send_advance s ?k)\<lparr>s_out := s_out s'\<rparr>" "ob_inv (s_out s')"
      using 2(1) [OF refl refl _ n(1) refl n(2)] prems(2) n adv by (auto simp: Let_def)
    have "mux_send_buf s = (take ?k (mux_send_buf s) @ taken) @ mux_send_buf s'"
      using adv t(2) append_take_drop_id [of ?k "mux_send_buf s"] by (metis append.assoc)
    then show ?thesis using t by (intro exI [of _ "take ?k (mux_send_buf s) @ taken"]) (simp add: mux_send_advance_def)
  next
    case False
    then have "s' = s \<and> sent' = sent" using prems(2) by (cases w) (auto simp: Let_def split: if_splits)
    then show ?thesis using prems(1) by simp
  qed
qed simp

section \<open>A write accepts at most what it is given\<close>

lemma write_loop_le: "sent \<le> want \<Longrightarrow> fst (write_loop s sid p want sent) \<le> want"
proof (induction s sid p want sent rule: write_loop.induct)
  case (1 s sid p want sent)
  show ?case using "1.IH" "1.prems" by (subst write_loop.simps) (auto simp: Let_def split: prod.splits option.splits)
qed

lemma mux_write_le: "accepted_by (fst (mux_write s sid (Some p) (length p))) \<le> length p"
proof (cases "s_dead s \<or> st_find (s_tab s) sid = None \<or> st_life (tab (s_tab s) ! the (st_find (s_tab s) sid)) = LIFE_HCL_LOCAL")
  case False
  then obtain i where i: "st_find (s_tab s) sid = Some i" "\<not> s_dead s" "st_life (tab (s_tab s) ! i) \<noteq> LIFE_HCL_LOCAL" by auto
  define w where "w = min (length p) (nat (write_room s (tab (s_tab s) ! i)))"
  obtain x s' where x: "write_loop s sid p w 0 = (x, s')" by (metis prod.collapse)
  have "x \<le> length p" using write_loop_le [of 0 w s sid p] x by (simp add: w_def)
  then show ?thesis
    using mux_write_cases [OF i(1,2) order_refl i(3)] x by (simp add: Let_def accepted_by_def w_def [symmetric])
qed (cases "st_find (s_tab s) sid"; auto simp: mux_write_def accepted_by_def Let_def)

lemma via_write_le: "via_write m sid p = (r, m') \<Longrightarrow> accepted_by r \<le> length p"
proof (cases m)
  case (Some s)
  then show "via_write m sid p = (r, m') \<Longrightarrow> accepted_by r \<le> length p"
    using mux_write_le [of s sid p] by (auto simp: via_write_def)
qed (auto simp: via_write_def accepted_by_def)

end
