(* ===== verification/Mux_Reinsert.thy ===== *)
theory Mux_Reinsert
  imports Mux_Probing
begin

text \<open>
  Deletion from an open-addressing table without tombstones, as the maps of the daemons do
  it: empty the cell, then take every cell of the run that follows it out of the table and
  insert it again. The locale \<open>reinserting\<close> adds to \<open>probing\<close> what such a table has, and
  shows that the procedure ends and that it removes exactly the one key.
\<close>

fun reinsert :: "('a \<Rightarrow> bool) \<Rightarrow> ('a list \<Rightarrow> 'a \<Rightarrow> 'a list) \<Rightarrow> ('a \<Rightarrow> 'a) \<Rightarrow> 'a list \<Rightarrow> nat \<Rightarrow> nat \<Rightarrow> 'a list option" where
  "reinsert emp place vac t j 0 = None"
| "reinsert emp place vac t j (Suc fuel) =
     (if emp (t ! j) then Some t
      else reinsert emp place vac (place (t[j := vac (t ! j)]) (t ! j)) ((j + 1) mod length t) fuel)"

text \<open>
  The table in the middle of it: cell \<open>e\<close> ends the run, and the probe path of every key
  avoids it; outside the part \<open>S\<close> of the run still to be moved, probe paths have no gap.
\<close>

definition probe_part :: "('a \<Rightarrow> bool) \<Rightarrow> ('a \<Rightarrow> 'k option) \<Rightarrow> ('k \<Rightarrow> nat) \<Rightarrow> nat \<Rightarrow> nat set \<Rightarrow> 'a list \<Rightarrow> bool" where
  "probe_part emp key home e S t \<longleftrightarrow> e < length t \<and> emp (t ! e) \<and>
     (\<forall>i < length t. \<forall>k. key (t ! i) = Some k \<longrightarrow>
        (\<exists>d < length t. i = (home k + d) mod length t \<and>
           (\<forall>d' < d. (home k + d') mod length t \<noteq> e \<and> (i \<notin> S \<longrightarrow> \<not> emp (t ! ((home k + d') mod length t)))))) \<and>
     (\<forall>i < length t. \<forall>j < length t. \<forall>k. key (t ! i) = Some k \<longrightarrow> key (t ! j) = Some k \<longrightarrow> i = j)"

definition run_of :: "nat \<Rightarrow> nat \<Rightarrow> nat \<Rightarrow> nat set" where
  "run_of n j r = (\<lambda>m. (j + m) mod n) ` {..<r}"

lemma run_next:
  assumes "x \<in> run_of n j (Suc r)" "x \<noteq> j" "j < n"
  shows "x \<in> run_of n ((j + 1) mod n) r"
proof -
  obtain m where m: "m < Suc r" "x = (j + m) mod n" using assms(1) by (auto simp: run_of_def)
  then obtain m' where "m = Suc m'" using assms(2,3) by (cases m) auto
  then have "x = ((j + 1) mod n + m') mod n" "m' < r" using m by (auto simp: mod_simps)
  then show ?thesis by (auto simp: run_of_def)
qed

text \<open>A probe path that avoids the end of the run and passes its head ends in its rest.\<close>

lemma run_closed:
  assumes "j < n" "Suc r < n" "x \<noteq> j" "d < n" "x = (h + d) mod n" "\<forall>d' < d. (h + d') mod n \<noteq> (j + Suc r) mod n"
    and "d' < d" "x \<notin> run_of n ((j + 1) mod n) r" "x \<noteq> (j + Suc r) mod n"
  shows "x \<notin> run_of n j (Suc r) \<and> (h + d') mod n \<noteq> j"
proof
  show "x \<notin> run_of n j (Suc r)" using run_next assms(1,3,8) by blast
  show "(h + d') mod n \<noteq> j"
  proof
    assume hj: "(h + d') mod n = j"
    have shift: "(j + m) mod n = (h + (d' + m)) mod n" for m
      using mod_add_left_eq [of "h + d'" n m] unfolding hj by (simp add: ac_simps)
    have x: "x = (j + (d - d')) mod n" using shift [of "d - d'"] assms(5,7) by simp
    have "\<not> d' + Suc r < d" using assms(6) shift [of "Suc r"] by auto
    moreover have "d - d' \<noteq> Suc r" using x assms(9) by auto
    ultimately have "d - d' < Suc r" using assms(7) by linarith
    then have "x \<in> run_of n j (Suc r)" using x by (auto simp: run_of_def)
    then show False using run_next assms(1,3,8) by blast
  qed
qed

locale reinserting = probing emp key home
  for emp :: "'a \<Rightarrow> bool" and key :: "'a \<Rightarrow> 'k option" and home :: "'k \<Rightarrow> nat" +
  fixes vac :: "'a \<Rightarrow> 'a"
  assumes vac_emp: "emp (vac x)"
    and no_tombs: "\<not> emp x \<Longrightarrow> key x \<noteq> None"
begin

abbreviation "part \<equiv> probe_part emp key home"
abbreviation "place \<equiv> probe_place emp (\<lambda>x. home (the (key x)))"
abbreviation "keyed t \<equiv> {x \<in> set t. key x \<noteq> None}"

lemma view_keyed:
  assumes "\<forall>i < length t. \<forall>j < length t. \<forall>k. key (t ! i) = Some k \<longrightarrow> key (t ! j) = Some k \<longrightarrow> i = j"
  shows "view t k = Some x \<longleftrightarrow> x \<in> keyed t \<and> key x = Some k"
proof
  assume "view t k = Some x"
  then obtain i where "i < length t" "t ! i = x" "key x = Some k" using view_Some by blast
  then show "x \<in> keyed t \<and> key x = Some k" by (auto simp: in_set_conv_nth)
next
  assume x: "x \<in> keyed t \<and> key x = Some k"
  then obtain i where i: "i < length t" "t ! i = x" by (auto simp: in_set_conv_nth)
  then have "view t k \<noteq> None" using x view_None [of t k] by auto
  then obtain y where y: "view t k = Some y" by blast
  then obtain j where "j < length t" "t ! j = y" "key y = Some k" using view_Some by blast
  then have "j = i" using assms i x by blast
  then show "view t k = Some x" using i y \<open>t ! j = y\<close> by simp
qed

text \<open>Emptying the cell at \<open>i\<close> leaves the run after it to be moved.\<close>

lemma part_start:
  assumes inv: "pinv t" and i: "i < length t" "\<not> emp (t ! i)"
    and r: "emp (t ! ((Suc i + r) mod length t))" "\<forall>m < r. \<not> emp (t ! ((Suc i + m) mod length t))"
  shows "part ((Suc i + r) mod length t) (run_of (length t) (Suc i) r) (t[i := vac (t ! i)])"
proof -
  let ?n = "length t" and ?t = "t[i := vac (t ! i)]" and ?e = "(Suc i + r) mod length t" and ?S = "run_of (length t) (Suc i) r"
  have n: "0 < ?n" using i by linarith
  have e: "?e < ?n" using n by simp
  have ei: "?e \<noteq> i" using r(1) i by auto
  have keys: "key (?t ! x) = Some k \<longleftrightarrow> x \<noteq> i \<and> key (t ! x) = Some k" if "x < ?n" for x k
    using that i vac_emp emp_key by (cases "x = i") auto
  have path: "\<exists>d < ?n. x = (home k + d) mod ?n \<and>
      (\<forall>d' < d. (home k + d') mod ?n \<noteq> ?e \<and> (x \<notin> ?S \<longrightarrow> \<not> emp (?t ! ((home k + d') mod ?n))))"
    if x: "x < ?n" "x \<noteq> i" "key (t ! x) = Some k" for x k
  proof -
    obtain d where d: "d < ?n" "x = (home k + d) mod ?n" "\<forall>d' < d. \<not> emp (t ! ((home k + d') mod ?n))"
      using pinv_path [OF inv x(1,3)] by blast
    have "\<not> emp (?t ! ((home k + d') mod ?n))" if d': "d' < d" and xS: "x \<notin> ?S" for d'
    proof (cases "(home k + d') mod ?n = i")
      case True
      have shift: "(Suc i + m) mod ?n = (home k + (Suc d' + m)) mod ?n" for m
        using mod_add_left_eq [of "home k + d'" ?n "Suc m"] unfolding True by (simp add: ac_simps)
      have xe: "x = (Suc i + (d - Suc d')) mod ?n" using d(2) d' shift [of "d - Suc d'"] by simp
      have "\<not> r \<le> d - Suc d'"
      proof
        assume le: "r \<le> d - Suc d'"
        show False
        proof (cases "r = d - Suc d'")
          case True
          then have "emp (t ! x)" using r(1) xe by simp
          then show False using x(3) emp_key by fastforce
        next
          case False
          then have "Suc d' + r < d" using le d' by linarith
          then have "\<not> emp (t ! ((home k + (Suc d' + r)) mod ?n))" using d(3) by blast
          then show False using r(1) unfolding shift by blast
        qed
      qed
      then have "x \<in> ?S" using xe by (auto simp: run_of_def)
      then show ?thesis using xS by simp
    next
      case False
      then show ?thesis using d(3) d' by (simp add: nth_list_update)
    qed
    moreover have "(home k + d') mod ?n \<noteq> ?e" if d': "d' < d" for d'
    proof
      assume "(home k + d') mod ?n = ?e"
      then show False using d(3) [rule_format, OF d'] r(1) by simp
    qed
    ultimately show ?thesis using d(1,2) by blast
  qed
  show ?thesis
    unfolding probe_part_def length_list_update
  proof (intro conjI allI impI)
    show "?e < ?n" by (rule e)
    show "emp (?t ! ?e)" using r(1) ei by simp
  next
    fix x k assume xk: "x < ?n" "key (?t ! x) = Some k"
    show "\<exists>d < ?n. x = (home k + d) mod ?n \<and>
        (\<forall>d' < d. (home k + d') mod ?n \<noteq> ?e \<and> (x \<notin> ?S \<longrightarrow> \<not> emp (?t ! ((home k + d') mod ?n))))"
      using path [OF xk(1), of k] keys [OF xk(1), of k] xk(2) by simp
  next
    fix x y k assume "x < ?n" "y < ?n" "key (?t ! x) = Some k" "key (?t ! y) = Some k"
    then show "x = y" using keys [of x k] keys [of y k] pinv_unique [OF inv, of x y k] by simp
  qed
qed

lemma part_path:
  "part e S t \<Longrightarrow> i < length t \<Longrightarrow> key (t ! i) = Some k \<Longrightarrow>
   \<exists>d < length t. i = (home k + d) mod length t \<and> (\<forall>d' < d. (home k + d') mod length t \<noteq> e) \<and>
     (i \<notin> S \<longrightarrow> (\<forall>d' < d. \<not> emp (t ! ((home k + d') mod length t))))"
  unfolding probe_part_def by (elim conjE allE [of _ i] impE, assumption, elim allE [of _ k] impE, assumption) auto

lemma part_unique:
  "part e S t \<Longrightarrow> i < length t \<Longrightarrow> j < length t \<Longrightarrow> key (t ! i) = Some k \<Longrightarrow> key (t ! j) = Some k \<Longrightarrow> i = j"
  unfolding probe_part_def by blast

lemma partI:
  assumes "e < length t" "emp (t ! e)"
    and "\<And>i k. i < length t \<Longrightarrow> key (t ! i) = Some k \<Longrightarrow>
      \<exists>d < length t. i = (home k + d) mod length t \<and> (\<forall>d' < d. (home k + d') mod length t \<noteq> e) \<and>
        (i \<notin> S \<longrightarrow> (\<forall>d' < d. \<not> emp (t ! ((home k + d') mod length t))))"
    and "\<And>i j k. i < length t \<Longrightarrow> j < length t \<Longrightarrow> key (t ! i) = Some k \<Longrightarrow> key (t ! j) = Some k \<Longrightarrow> i = j"
  shows "part e S t"
  unfolding probe_part_def
proof (intro conjI allI impI)
  fix i k assume "i < length t" "key (t ! i) = Some k"
  from assms(3) [OF this] obtain d where "d < length t" "i = (home k + d) mod length t"
    "\<forall>d' < d. (home k + d') mod length t \<noteq> e"
    "i \<notin> S \<longrightarrow> (\<forall>d' < d. \<not> emp (t ! ((home k + d') mod length t)))" by blast
  then show "\<exists>d < length t. i = (home k + d) mod length t \<and>
      (\<forall>d' < d. (home k + d') mod length t \<noteq> e \<and> (i \<notin> S \<longrightarrow> \<not> emp (t ! ((home k + d') mod length t))))"
    by (intro exI [of _ d]) simp
qed (use assms in simp_all)

lemma part_done: "part e {} t \<Longrightarrow> pinv t"
  unfolding probe_inv_def
proof (intro conjI allI impI)
  fix i k assume "part e {} t" "i < length t" "key (t ! i) = Some k"
  from part_path [OF this] show "\<exists>d < length t. i = (home k + d) mod length t \<and>
      (\<forall>d' < d. \<not> emp (t ! ((home k + d') mod length t)))" by auto
qed (rule part_unique)

text \<open>Where a cell taken out at \<open>j\<close> goes: no further than \<open>j\<close>, so never onto \<open>e\<close>.\<close>

lemma place_back:
  assumes inv: "part e S t" and j: "j < length t" "key (t ! j) = Some k"
  obtains f d where "f < length t" "f \<noteq> e" "f = j \<or> emp (t ! f)"
    "place (t[j := vac (t ! j)]) (t ! j) = t[j := vac (t ! j), f := t ! j]"
    "d < length t" "f = (home k + d) mod length t" "\<forall>d' < d. (home k + d') mod length t \<noteq> e"
    "\<forall>d' < d. (home k + d') mod length t \<noteq> j \<and> \<not> emp (t ! ((home k + d') mod length t))"
proof -
  let ?t = "t[j := vac (t ! j)]" and ?n = "length t"
  obtain dj where dj: "dj < ?n" "j = (home k + dj) mod ?n" "\<forall>d' < dj. (home k + d') mod ?n \<noteq> e"
    using part_path [OF inv j] by blast
  have ej: "e \<noteq> j" using inv j emp_key unfolding probe_part_def by fastforce
  have emp_j: "emp (?t ! ((home k + dj) mod length ?t))" using dj(2) j(1) vac_emp by simp
  obtain f where f: "scan emp ?t (home k mod length ?t) (length ?t) = Some f"
    using scan_round [of j ?t emp "home k"] emp_j dj(2) j(1) by auto
  obtain d where d: "d < ?n" "f = (home k + d) mod ?n" "emp (?t ! f)"
    "\<forall>d' < d. \<not> emp (?t ! ((home k + d') mod ?n))"
    using scan_Some [OF f] by auto
  have le: "d \<le> dj" using d(4) emp_j by (metis length_list_update not_less)
  have lt: "f < ?n" using scan_index [OF f] j(1) by fastforce
  have ne: "f \<noteq> e" using le dj(3) ej dj(2) d(2) by (cases "d = dj") auto
  have old: "f = j \<or> emp (t ! f)" using d(3) by (cases "f = j") auto
  have path: "(home k + d') mod ?n \<noteq> j \<and> \<not> emp (t ! ((home k + d') mod ?n))" if d': "d' < d" for d'
  proof -
    have ne': "\<not> emp (?t ! ((home k + d') mod ?n))" using d(4) d' by blast
    then have "(home k + d') mod ?n \<noteq> j" using vac_emp j(1) by auto
    then show ?thesis using ne' by simp
  qed
  have "\<forall>d' < d. (home k + d') mod ?n \<noteq> e" using dj(3) le by simp
  moreover have "place ?t (t ! j) = t[j := vac (t ! j), f := t ! j]"
    using f j(2) by (simp add: probe_place_def)
  ultimately show ?thesis using that [of f d] lt ne old d(1,2) path by blast
qed

lemma move_keys:
  assumes "j < length t" "f < length t" "f = j \<or> emp (t ! f)" "x < length t"
  shows "key (t[j := vac (t ! j), f := t ! j] ! x) =
    (if x = f then key (t ! j) else if x = j then None else key (t ! x))"
  using assms emp_key [OF vac_emp] by (simp add: nth_list_update)

lemma move_unique:
  assumes D: "\<forall>i < length t. \<forall>i' < length t. \<forall>k. key (t ! i) = Some k \<longrightarrow> key (t ! i') = Some k \<longrightarrow> i = i'"
    and j: "j < length t" "f < length t" "f = j \<or> emp (t ! f)"
    and x: "x < length t" "y < length t" "key (t[j := vac (t ! j), f := t ! j] ! x) = Some k"
      "key (t[j := vac (t ! j), f := t ! j] ! y) = Some k"
  shows "x = y"
proof -
  have *: "\<exists>x' < length t. key (t ! x') = Some k \<and> x = (if x' = j then f else x')"
    if "x < length t" "key (t[j := vac (t ! j), f := t ! j] ! x) = Some k" for x
    using move_keys [OF j that(1)] that j by (cases "x = f") (auto split: if_splits)
  obtain x' y' where "x' < length t" "key (t ! x') = Some k" "x = (if x' = j then f else x')"
    "y' < length t" "key (t ! y') = Some k" "y = (if y' = j then f else y')"
    using * [OF x(1,3)] * [OF x(2,4)] by blast
  then show ?thesis using D by blast
qed

lemma part_step:
  assumes inv: "part ((j + Suc r) mod length t) (run_of (length t) j (Suc r)) t"
    and j: "j < length t" "\<not> emp (t ! j)" and r: "Suc r < length t"
  shows "part ((j + Suc r) mod length t) (run_of (length t) ((j + 1) mod length t) r)
    (place (t[j := vac (t ! j)]) (t ! j))"
proof -
  let ?n = "length t" and ?e = "(j + Suc r) mod length t" and ?S = "run_of (length t) ((j + 1) mod length t) r"
  obtain k where k: "key (t ! j) = Some k" using no_tombs [OF j(2)] by blast
  obtain f df where f: "f < ?n" "f \<noteq> ?e" "f = j \<or> emp (t ! f)"
    and pl: "place (t[j := vac (t ! j)]) (t ! j) = t[j := vac (t ! j), f := t ! j]"
    and df: "df < ?n" "f = (home k + df) mod ?n" "\<forall>d' < df. (home k + d') mod ?n \<noteq> ?e"
      "\<forall>d' < df. (home k + d') mod ?n \<noteq> j \<and> \<not> emp (t ! ((home k + d') mod ?n))"
    by (rule place_back [OF inv j(1) k])
  define t' where "t' = t[j := vac (t ! j), f := t ! j]"
  have len: "length t' = ?n" by (simp add: t'_def)
  have keys: "key (t' ! x) = (if x = f then Some k else if x = j then None else key (t ! x))" if "x < ?n" for x
    using move_keys [OF j(1) f(1,3) that] k unfolding t'_def by simp
  have emp': "x \<noteq> j \<Longrightarrow> \<not> emp (t ! x) \<Longrightarrow> \<not> emp (t' ! x)" for x
    using j f(1) by (cases "x = f") (auto simp: t'_def)
  have D: "\<forall>x < ?n. \<forall>y < ?n. \<forall>k. key (t ! x) = Some k \<longrightarrow> key (t ! y) = Some k \<longrightarrow> x = y"
    using part_unique [OF inv] by blast
  have e: "?e < ?n" "emp (t ! ?e)" using inv unfolding probe_part_def by blast+
  then have ej: "?e \<noteq> j" using j(2) by auto
  have "part ?e ?S t'"
  proof (rule partI)
    show "?e < length t'" using e(1) len by simp
    show "emp (t' ! ?e)" using e(2) ej f(2) by (simp add: t'_def)
  next
    fix x k' assume x: "x < length t'" "key (t' ! x) = Some k'"
    show "\<exists>d < length t'. x = (home k' + d) mod length t' \<and> (\<forall>d' < d. (home k' + d') mod length t' \<noteq> ?e) \<and>
        (x \<notin> ?S \<longrightarrow> (\<forall>d' < d. \<not> emp (t' ! ((home k' + d') mod length t'))))"
    proof (cases "x = f")
      case True
      then have "k' = k" using x keys len by simp
      then show ?thesis using df emp' True unfolding len by blast
    next
      case False
      then have xj: "x \<noteq> j" and kx: "key (t ! x) = Some k'" using x keys len by (auto split: if_splits)
      obtain d where d: "d < ?n" "x = (home k' + d) mod ?n" "\<forall>d' < d. (home k' + d') mod ?n \<noteq> ?e"
        "x \<notin> run_of ?n j (Suc r) \<longrightarrow> (\<forall>d' < d. \<not> emp (t ! ((home k' + d') mod ?n)))"
        using part_path [OF inv _ kx] x(1) len by auto
      have "\<not> emp (t' ! ((home k' + d') mod ?n))" if xS: "x \<notin> ?S" and d': "d' < d" for d'
      proof -
        have "x \<noteq> ?e" using kx e(2) emp_key by fastforce
        from run_closed [OF j(1) r xj d(1-3) d' xS this] show ?thesis using d(4) d' emp' by blast
      qed
      then show ?thesis using d unfolding len by blast
    qed
  next
    fix x y k' assume "x < length t'" "y < length t'" "key (t' ! x) = Some k'" "key (t' ! y) = Some k'"
    then show "x = y" using move_unique [OF D j(1) f(1,3), of x y k'] len unfolding t'_def by simp
  qed
  then show ?thesis using pl by (simp add: t'_def)
qed

lemma move_same:
  assumes j: "j < length t" "f < length t" "f = j \<or> emp (t ! f)"
  defines "t' \<equiv> t[j := vac (t ! j), f := t ! j]"
  shows "keyed t' = keyed t" "cnt (\<lambda>x. \<not> emp x) t' = cnt (\<lambda>x. \<not> emp x) t"
proof -
  have "x \<in> keyed t' \<longleftrightarrow> x \<in> keyed t" for x
  proof
    assume "x \<in> keyed t'"
    then obtain i where i: "i < length t" "t' ! i = x" "key x \<noteq> None"
      by (auto simp: t'_def in_set_conv_nth)
    then show "x \<in> keyed t" using j emp_key [OF vac_emp] by (auto simp: t'_def nth_list_update split: if_splits)
  next
    assume "x \<in> keyed t"
    then obtain i where i: "i < length t" "t ! i = x" "key x \<noteq> None" by (auto simp: in_set_conv_nth)
    then have "t' ! (if i = j then f else i) = x" using j emp_key by (auto simp: t'_def nth_list_update)
    then show "x \<in> keyed t'" using i j by (auto simp: t'_def in_set_conv_nth split: if_splits)
  qed
  then show "keyed t' = keyed t" by blast
  have "cnt (\<lambda>x. \<not> emp x) t' + of_bool (\<not> emp (t[j := vac (t ! j)] ! f)) =
      cnt (\<lambda>x. \<not> emp x) (t[j := vac (t ! j)]) + of_bool (\<not> emp (t ! j))"
    using cnt_update [of f "t[j := vac (t ! j)]" "\<lambda>x. \<not> emp x" "t ! j"] j(2) by (simp add: t'_def)
  moreover have "cnt (\<lambda>x. \<not> emp x) (t[j := vac (t ! j)]) + of_bool (\<not> emp (t ! j)) = cnt (\<lambda>x. \<not> emp x) t"
    using cnt_update [OF j(1), of "\<lambda>x. \<not> emp x" "vac (t ! j)"] vac_emp by simp
  moreover have "emp (t[j := vac (t ! j)] ! f)" using j vac_emp by (auto simp: nth_list_update)
  ultimately show "cnt (\<lambda>x. \<not> emp x) t' = cnt (\<lambda>x. \<not> emp x) t" by simp
qed

lemma view_eq_keyed:
  assumes "keyed t' = keyed t - {x. key x = Some k}" "\<And>i j k. i < length t \<Longrightarrow> j < length t \<Longrightarrow> key (t ! i) = Some k \<Longrightarrow> key (t ! j) = Some k \<Longrightarrow> i = j"
    "\<And>i j k. i < length t' \<Longrightarrow> j < length t' \<Longrightarrow> key (t' ! i) = Some k \<Longrightarrow> key (t' ! j) = Some k \<Longrightarrow> i = j"
  shows "view t' = (view t)(k := None)"
proof (rule ext)
  fix k'
  have "view t' k' = Some x \<longleftrightarrow> ((view t)(k := None)) k' = Some x" for x
    using view_keyed [of t' k' x] view_keyed [of t k' x] assms by auto
  then show "view t' k' = ((view t)(k := None)) k'" by (metis not_None_eq)
qed

lemma reinsert_run:
  assumes "part ((j + r) mod length t) (run_of (length t) j r) t" "j < length t" "r < length t" "r < fuel"
    and "\<forall>m < r. \<not> emp (t ! ((j + m) mod length t))"
  shows "\<exists>t'. reinsert emp place vac t j fuel = Some t' \<and> pinv t' \<and> length t' = length t \<and>
    keyed t' = keyed t \<and> cnt (\<lambda>x. \<not> emp x) t' = cnt (\<lambda>x. \<not> emp x) t"
  using assms
proof (induction r arbitrary: t j fuel)
  case 0
  then obtain n where n: "fuel = Suc n" by (cases fuel) auto
  have "emp (t ! j)" using 0 by (simp add: probe_part_def)
  then show ?case using part_done 0 n by (simp add: run_of_def)
next
  case (Suc r)
  then obtain n where n: "fuel = Suc n" "r < n" by (cases fuel) auto
  have ne: "\<not> emp (t ! j)" using Suc.prems(2,5) by force
  obtain k where k: "key (t ! j) = Some k" using no_tombs [OF ne] by blast
  obtain f d where f: "f < length t" "f = j \<or> emp (t ! f)"
    "place (t[j := vac (t ! j)]) (t ! j) = t[j := vac (t ! j), f := t ! j]"
    by (rule place_back [OF Suc.prems(1,2) k])
  define t' where "t' = t[j := vac (t ! j), f := t ! j]"
  have len: "length t' = length t" by (simp add: t'_def)
  have j': "((j + 1) mod length t + m) mod length t = (j + Suc m) mod length t" for m by (simp add: mod_simps)
  have lt: "(j + 1) mod length t < length t" by (rule mod_less_divisor) (use Suc.prems(2) in linarith)
  have run: "\<not> emp (t' ! ((j + Suc m) mod length t))" if m: "m < r" for m
  proof -
    have "(j + Suc m) mod length t \<noteq> j"
      using ring_slot_inj [of j 0 "length t" "Suc m"] Suc.prems(2,3) m by force
    then show ?thesis using Suc.prems(5) m ne f(1) by (auto simp: t'_def nth_list_update)
  qed
  have "part ((j + Suc r) mod length t) (run_of (length t) ((j + 1) mod length t) r) t'"
    using part_step [OF Suc.prems(1,2) ne Suc.prems(3)] f(3) by (simp add: t'_def)
  then have "\<exists>t''. reinsert emp place vac t' ((j + 1) mod length t) n = Some t'' \<and> pinv t'' \<and> length t'' = length t' \<and>
      keyed t'' = keyed t' \<and> cnt (\<lambda>x. \<not> emp x) t'' = cnt (\<lambda>x. \<not> emp x) t'"
    using Suc.prems(3) n(2) run lt by (intro Suc.IH) (simp_all only: len j', simp_all)
  then show ?case using n(1) ne f(3) move_same [OF Suc.prems(2) f(1,2)] len by (simp add: t'_def)
qed

lemma clear_keyed:
  assumes inv: "pinv t" and i: "i < length t" "key (t ! i) = Some k"
  shows "keyed (t[i := vac (t ! i)]) = keyed t - {x. key x = Some k}"
proof (rule set_eqI)
  fix x
  show "x \<in> keyed (t[i := vac (t ! i)]) \<longleftrightarrow> x \<in> keyed t - {x. key x = Some k}"
  proof
    assume "x \<in> keyed (t[i := vac (t ! i)])"
    then obtain j where j: "j < length t" "t[i := vac (t ! i)] ! j = x" "key x \<noteq> None"
      by (auto simp: in_set_conv_nth)
    then have ji: "j \<noteq> i" using emp_key [OF vac_emp] i(1) by auto
    then have x: "t ! j = x" using j(2) by simp
    then have "key x \<noteq> Some k" using pinv_unique [OF inv i(1) j(1) i(2)] ji by auto
    then show "x \<in> keyed t - {x. key x = Some k}" using x j by auto
  next
    assume "x \<in> keyed t - {x. key x = Some k}"
    then obtain j where j: "j < length t" "t ! j = x" "key x \<noteq> None" "key x \<noteq> Some k"
      by (auto simp: in_set_conv_nth)
    then have "j \<noteq> i" using i(2) by auto
    then have "t[i := vac (t ! i)] ! j = x" using j by simp
    then show "x \<in> keyed (t[i := vac (t ! i)])" using j by (auto simp: in_set_conv_nth)
  qed
qed

theorem delete_spec:
  assumes inv: "pinv t" and i: "i < length t" "key (t ! i) = Some k" and room: "cnt (\<lambda>x. \<not> emp x) t < length t"
  shows "\<exists>t'. reinsert emp place vac (t[i := vac (t ! i)]) ((i + 1) mod length t) (length t) = Some t' \<and> pinv t' \<and>
    length t' = length t \<and> view t' = (view t)(k := None) \<and>
    cnt (\<lambda>x. \<not> emp x) t = Suc (cnt (\<lambda>x. \<not> emp x) t')"
proof -
  let ?n = "length t" and ?t = "t[i := vac (t ! i)]"
  have ne: "\<not> emp (t ! i)" using i emp_key by fastforce
  obtain x where x: "x < ?n" "emp (t ! x)" using cnt_less [OF room] by blast
  obtain f where f: "scan emp t (Suc i mod ?n) ?n = Some f" using scan_round [OF x(1), of emp "Suc i"] x(2) by blast
  obtain r where r: "r < ?n" "f = (Suc i + r) mod ?n" "emp (t ! f)" "\<forall>m < r. \<not> emp (t ! ((Suc i + m) mod ?n))"
    using scan_Some [OF f] by blast
  have lt: "(i + 1) mod ?n < ?n" by (rule mod_less_divisor) (use i in linarith)
  have sh: "((i + 1) mod ?n + m) mod ?n = (Suc i + m) mod ?n" for m by (simp add: mod_simps)
  have run: "\<not> emp (?t ! ((Suc i + m) mod ?n))" if m: "m < r" for m
  proof -
    have "(i + Suc m) mod ?n \<noteq> i" using ring_slot_inj [of i 0 ?n "Suc m"] i(1) r(1) m by force
    then show ?thesis using r(4) m by (simp add: nth_list_update)
  qed
  have p: "part ((Suc i + r) mod ?n) (run_of ?n (Suc i) r) ?t"
    using part_start [OF inv i(1) ne _ r(4)] r(2,3) by simp
  have ro: "run_of ?n ((i + 1) mod ?n) r = run_of ?n (Suc i) r" unfolding run_of_def sh ..
  obtain t' where t': "reinsert emp place vac ?t ((i + 1) mod ?n) ?n = Some t'" "pinv t'" "length t' = ?n"
    "keyed t' = keyed ?t" "cnt (\<lambda>x. \<not> emp x) t' = cnt (\<lambda>x. \<not> emp x) ?t"
    using reinsert_run [of "(i + 1) mod ?n" r ?t ?n] p r(1) run lt unfolding length_list_update sh ro by auto
  have "keyed ?t = keyed t - {x. key x = Some k}" by (rule clear_keyed [OF inv i])
  then have "view t' = (view t)(k := None)"
    using t'(4) pinv_unique [OF inv] pinv_unique [OF t'(2)] by (intro view_eq_keyed) auto
  moreover have "cnt (\<lambda>x. \<not> emp x) t = Suc (cnt (\<lambda>x. \<not> emp x) ?t)"
    using cnt_update [OF i(1), of "\<lambda>x. \<not> emp x" "vac (t ! i)"] vac_emp ne by simp
  ultimately show ?thesis using t' by auto
qed

text \<open>Re-inserting a run that follows an empty cell changes nothing that can be observed.\<close>

lemma part_of_pinv:
  assumes inv: "pinv t" and e: "e < length t" "emp (t ! e)"
  shows "part e S t"
proof (rule partI [OF e])
  fix i k assume "i < length t" "key (t ! i) = Some k"
  from pinv_path [OF inv this] obtain d where "d < length t" "i = (home k + d) mod length t"
    "\<forall>d' < d. \<not> emp (t ! ((home k + d') mod length t))" by blast
  then show "\<exists>d < length t. i = (home k + d) mod length t \<and> (\<forall>d' < d. (home k + d') mod length t \<noteq> e) \<and>
      (i \<notin> S \<longrightarrow> (\<forall>d' < d. \<not> emp (t ! ((home k + d') mod length t))))"
    using e(2) by (intro exI [of _ d]) auto
qed (rule pinv_unique [OF inv])

lemma reinsert_idle:
  assumes inv: "pinv t" and i: "i < length t" "emp (t ! i)"
  shows "\<exists>t'. reinsert emp place vac t ((i + 1) mod length t) (length t) = Some t' \<and> pinv t' \<and>
    length t' = length t \<and> view t' = view t \<and> cnt (\<lambda>x. \<not> emp x) t' = cnt (\<lambda>x. \<not> emp x) t"
proof -
  let ?n = "length t" and ?j = "(i + 1) mod length t"
  have lt: "?j < ?n" by (rule mod_less_divisor) (use i in linarith)
  obtain f where f: "scan emp t (?j mod ?n) ?n = Some f" using scan_round [of i t emp ?j] i by blast
  obtain r where r: "r < ?n" "f = (?j + r) mod ?n" "emp (t ! f)" "\<forall>m < r. \<not> emp (t ! ((?j + m) mod ?n))"
    using scan_Some [OF f] by blast
  have "f < ?n" using scan_index [OF f] lt by linarith
  then have "part ((?j + r) mod ?n) (run_of ?n ?j r) t" using part_of_pinv [OF inv] r(2,3) by blast
  from reinsert_run [OF this lt r(1) r(1) r(4)] obtain t' where
    t': "reinsert emp place vac t ?j ?n = Some t'" "pinv t'" "length t' = ?n" "keyed t' = keyed t"
      "cnt (\<lambda>x. \<not> emp x) t' = cnt (\<lambda>x. \<not> emp x) t" by blast
  have "view t' k = Some x \<longleftrightarrow> view t k = Some x" for k x
    using view_keyed [of t' k x] view_keyed [of t k x] pinv_unique [OF inv] pinv_unique [OF t'(2)] t'(4) by auto
  then have "view t' = view t" by (metis (no_types, lifting) ext not_None_eq)
  then show ?thesis using t' by blast
qed

end

end
