(* ===== verification/Mux_Umap.thy ===== *)
theory Mux_Umap
  imports Mux_Reinsert Mux_Stream_Table
begin

text \<open>
  The map from stream ids to pointers that the daemons keep beside a session: \<open>umap\<close> of
  \<^verbatim>\<open>src/edge-peer/router.c\<close> and the stream registry of \<^verbatim>\<open>src/libpeer/src/libpeer.c\<close>, which
  are the same code except for the end of a deletion. Open addressing without tombstones;
  a deletion re-inserts the run after the removed cell. The maps provide the locale
  \<open>assoc_map\<close>: with an allocator that does not fail, every operation returns and does what
  the operation of a finite map does.
\<close>

unbundle bit_operations_syntax

section \<open>The contract\<close>

datatype ('k, 'v) map_op = Put 'k 'v | Remove 'k

fun map_run_ops ::
    "('t \<Rightarrow> 'k \<Rightarrow> 'v \<Rightarrow> heap \<Rightarrow> ('t \<times> heap) option) \<Rightarrow> ('t \<Rightarrow> 'k \<Rightarrow> heap \<Rightarrow> ('t \<times> heap) option) \<Rightarrow>
     ('k, 'v) map_op list \<Rightarrow> 't \<Rightarrow> heap \<Rightarrow> ('t \<times> heap) option" where
  "map_run_ops put del [] t h = Some (t, h)"
| "map_run_ops put del (Put k v # ops) t h =
     (case put t k v h of None \<Rightarrow> None | Some (t', h') \<Rightarrow> map_run_ops put del ops t' h')"
| "map_run_ops put del (Remove k # ops) t h =
     (case del t k h of None \<Rightarrow> None | Some (t', h') \<Rightarrow> map_run_ops put del ops t' h')"

fun map_spec :: "('k, 'v) map_op list \<Rightarrow> ('k \<Rightarrow> 'v option) \<Rightarrow> ('k \<Rightarrow> 'v option)" where
  "map_spec [] m = m"
| "map_spec (Put k v # ops) m = map_spec ops (m(k \<mapsto> v))"
| "map_spec (Remove k # ops) m = map_spec ops (m(k := None))"

locale assoc_map =
  fixes inv :: "'t \<Rightarrow> bool" and view :: "'t \<Rightarrow> 'k \<Rightarrow> 'v option"
    and get :: "'t \<Rightarrow> 'k \<Rightarrow> 'v option"
    and put :: "'t \<Rightarrow> 'k \<Rightarrow> 'v \<Rightarrow> heap \<Rightarrow> ('t \<times> heap) option"
    and del :: "'t \<Rightarrow> 'k \<Rightarrow> heap \<Rightarrow> ('t \<times> heap) option"
  assumes get_view: "inv t \<Longrightarrow> get t k = view t k"
    and put_law: "inv t \<Longrightarrow> \<exists>t'. put t k v [] = Some (t', []) \<and> inv t' \<and> view t' = (view t)(k \<mapsto> v)"
    and del_law: "inv t \<Longrightarrow> \<exists>t'. del t k [] = Some (t', []) \<and> inv t' \<and> view t' = (view t)(k := None)"
begin

lemma run_refines:
  assumes "inv t"
  shows "\<exists>t'. map_run_ops put del ops t [] = Some (t', []) \<and> inv t' \<and> (\<forall>k. get t' k = map_spec ops (view t) k)"
  using assms
proof (induction ops arbitrary: t)
  case Nil
  then show ?case using get_view by simp
next
  case (Cons op ops)
  show ?case
  proof (cases op)
    case (Put k v)
    obtain t1 where t1: "put t k v [] = Some (t1, [])" "inv t1" "view t1 = (view t)(k \<mapsto> v)"
      using put_law [OF Cons.prems] by blast
    show ?thesis using Cons.IH [OF t1(2)] t1(1) unfolding t1(3) Put by (simp del: fun_upd_apply)
  next
    case (Remove k)
    obtain t1 where t1: "del t k [] = Some (t1, [])" "inv t1" "view t1 = (view t)(k := None)"
      using del_law [OF Cons.prems] by blast
    show ?thesis using Cons.IH [OF t1(2)] t1(1) unfolding t1(3) Remove by (simp del: fun_upd_apply)
  qed
qed

end

section \<open>The map\<close>

record 'v mslot =
  ms_k :: u32
  ms_v :: "'v option"
  ms_used :: bool

record 'v umap =
  um_s :: "'v mslot list"
  um_count :: nat

abbreviation um_cap :: "'v umap \<Rightarrow> nat" where
  "um_cap m \<equiv> length (um_s m)"

definition mslot_zero :: "'v mslot" where
  "mslot_zero = \<lparr>ms_k = 0, ms_v = None, ms_used = False\<rparr>"

definition umap_zero :: "'v umap" where
  "umap_zero = \<lparr>um_s = [], um_count = 0\<rparr>"

definition umix :: "u32 \<Rightarrow> nat \<Rightarrow> nat" where
  "umix k m = unat (drop_bit 32 ((ucast k :: u64) * 0x9e3779b97f4a7c15) AND of_nat m)"

text \<open>
  The probe loop of \<open>umap_grow\<close>, to the first free cell; it has no bound in C, and \<open>None\<close>
  after a full round is the loop not ending.
\<close>

fun umap_free_slot :: "'v mslot list \<Rightarrow> nat \<Rightarrow> nat \<Rightarrow> nat option" where
  "umap_free_slot ns j 0 = None"
| "umap_free_slot ns j (Suc fuel) =
     (if ms_used (ns ! j) then umap_free_slot ns ((j + 1) AND (length ns - 1)) fuel else Some j)"

fun umap_rehash :: "'v mslot list \<Rightarrow> 'v mslot list \<Rightarrow> 'v mslot list option" where
  "umap_rehash ns [] = Some ns"
| "umap_rehash ns (e # es) =
     (if \<not> ms_used e then umap_rehash ns es
      else case umap_free_slot ns (umix (ms_k e) (length ns - 1)) (length ns) of
             None \<Rightarrow> None
           | Some j \<Rightarrow> umap_rehash (ns[j := e]) es)"

definition umap_grow :: "'v umap \<Rightarrow> nat \<Rightarrow> heap \<Rightarrow> ('v umap \<times> heap) option" where
  "umap_grow m want h =
     (let nc = grow_cap (if um_cap m \<noteq> 0 then um_cap m else 64) want
      in case alloc h of
           (False, h') \<Rightarrow> Some (m, h')
         | (True, h') \<Rightarrow>
             (case umap_rehash (replicate nc mslot_zero) (um_s m) of
                None \<Rightarrow> None
              | Some ns \<Rightarrow> Some (m\<lparr>um_s := ns\<rparr>, h')))"

text \<open>The probe loop of \<open>umap_put\<close>: the cell with the key or the first free one.\<close>

fun umap_put_loop :: "'v mslot list \<Rightarrow> u32 \<Rightarrow> nat \<Rightarrow> nat \<Rightarrow> nat option" where
  "umap_put_loop s k i 0 = None"
| "umap_put_loop s k i (Suc fuel) =
     (if ms_used (s ! i) then
        if ms_k (s ! i) = k then Some i else umap_put_loop s k ((i + 1) AND (length s - 1)) fuel
      else Some i)"

text \<open>
  \<open>umap_put\<close>, with the value of a new cell told from an overwritten one. \<open>None\<close> is the
  access through a null table (the first growth failed) or the loop on a full one.
\<close>

definition umap_store :: "'v umap \<Rightarrow> u32 \<Rightarrow> 'v option \<Rightarrow> heap \<Rightarrow> (bool \<times> 'v umap \<times> heap) option" where
  "umap_store m k v h =
     (case (if (um_count m + 1) * 4 \<ge> um_cap m * 3 then umap_grow m ((um_count m + 1) * 2) h else Some (m, h)) of
        None \<Rightarrow> None
      | Some (m, h) \<Rightarrow>
          if um_cap m = 0 then None
          else case umap_put_loop (um_s m) k (umix k (um_cap m - 1)) (um_cap m) of
                 None \<Rightarrow> None
               | Some i \<Rightarrow>
                   if ms_used (um_s m ! i) then
                     Some (False, m\<lparr>um_s := (um_s m)[i := (um_s m ! i)\<lparr>ms_v := v\<rparr>]\<rparr>, h)
                   else
                     Some (True, m\<lparr>um_s := (um_s m)[i := \<lparr>ms_k = k, ms_v = v, ms_used = True\<rparr>],
                                   um_count := um_count m + 1\<rparr>, h))"

definition umap_put :: "'v umap \<Rightarrow> u32 \<Rightarrow> 'v \<Rightarrow> heap \<Rightarrow> ('v umap \<times> heap) option" where
  "umap_put m k v h = map_option snd (umap_store m k (Some v) h)"

text \<open>The bounded probe loop of \<open>umap_get\<close> and \<open>umap_del\<close>, and where it stopped.\<close>

datatype probe_end = Hit nat | Miss nat | Round nat

fun umap_probe :: "'v mslot list \<Rightarrow> u32 \<Rightarrow> nat \<Rightarrow> nat \<Rightarrow> probe_end" where
  "umap_probe s k i 0 = Round i"
| "umap_probe s k i (Suc p) =
     (if \<not> ms_used (s ! i) then Miss i
      else if ms_k (s ! i) = k then Hit i
      else umap_probe s k ((i + 1) AND (length s - 1)) p)"

definition umap_get :: "'v umap \<Rightarrow> u32 \<Rightarrow> 'v option" where
  "umap_get m k =
     (if um_cap m = 0 then None
      else case umap_probe (um_s m) k (umix k (um_cap m - 1)) (um_cap m) of
             Hit i \<Rightarrow> ms_v (um_s m ! i)
           | _ \<Rightarrow> None)"

text \<open>Taking the cells from \<open>j\<close> on out of the map and inserting them again.\<close>

definition umap_clear :: "'v umap \<Rightarrow> nat \<Rightarrow> 'v umap" where
  "umap_clear m i = m\<lparr>um_s := (um_s m)[i := (um_s m ! i)\<lparr>ms_used := False\<rparr>], um_count := um_count m - 1\<rparr>"

partial_function (option) umap_reinsert :: "nat \<Rightarrow> 'v umap \<Rightarrow> nat \<Rightarrow> heap \<Rightarrow> ('v umap \<times> heap) option" where
  "umap_reinsert m_mask m j h =
     (if \<not> ms_used (um_s m ! j) then Some (m, h)
      else case umap_store (umap_clear m j) (ms_k (um_s m ! j)) (ms_v (um_s m ! j)) h of
             None \<Rightarrow> None
           | Some (new, m', h') \<Rightarrow> umap_reinsert m_mask m' ((j + 1) AND m_mask) h')"

declare umap_reinsert.simps [code]

definition umap_del :: "'v umap \<Rightarrow> u32 \<Rightarrow> heap \<Rightarrow> ('v umap \<times> heap) option" where
  "umap_del m k h =
     (if um_cap m = 0 then Some (m, h)
      else let mask = um_cap m - 1
           in case umap_probe (um_s m) k (umix k mask) (mask + 1) of
                Miss i \<Rightarrow> Some (m, h)
              | Hit i \<Rightarrow> umap_reinsert mask (umap_clear m i) ((i + 1) AND mask) h
              | Round i \<Rightarrow> umap_reinsert mask m ((i + 1) AND mask) h)"

text \<open>
  The deletion of the registry, in \<open>stream_try_free\<close>: the loop leaves by \<^verbatim>\<open>break\<close> at a free
  cell too, and goes on to re-insert the run after it.
\<close>

definition reg_del :: "'v umap \<Rightarrow> u32 \<Rightarrow> heap \<Rightarrow> ('v umap \<times> heap) option" where
  "reg_del m k h =
     (let mask = um_cap m - 1
      in case umap_probe (um_s m) k (umix k mask) (mask + 1) of
           Hit i \<Rightarrow> umap_reinsert mask (umap_clear m i) ((i + 1) AND mask) h
         | Miss i \<Rightarrow> umap_reinsert mask m ((i + 1) AND mask) h
         | Round i \<Rightarrow> umap_reinsert mask m ((i + 1) AND mask) h)"

section \<open>Invariant and abstraction\<close>

definition um_key :: "'v mslot \<Rightarrow> u32 option" where
  "um_key e = (if ms_used e then Some (ms_k e) else None)"

definition umap_view :: "'v umap \<Rightarrow> u32 \<Rightarrow> 'v option" where
  "umap_view m k = Option.bind (table_view um_key (um_s m) k) ms_v"

definition umap_inv :: "'v umap \<Rightarrow> bool" where
  "umap_inv m \<longleftrightarrow> probe_inv (\<lambda>e. \<not> ms_used e) um_key home_of (um_s m) \<and>
     (um_cap m = 0 \<or> (\<exists>k \<ge> 6. um_cap m = 2 ^ k)) \<and> um_count m = cnt ms_used (um_s m) \<and>
     (um_cap m = 0 \<or> um_count m * 4 < um_cap m * 3) \<and>
     (\<forall>k e. table_view um_key (um_s m) k = Some e \<longrightarrow> ms_v e \<noteq> None)"

abbreviation um_vac :: "'v mslot \<Rightarrow> 'v mslot" where
  "um_vac e \<equiv> e\<lparr>ms_used := False\<rparr>"

lemma um_key_simps [simp]: "um_key e = Some k \<longleftrightarrow> ms_used e \<and> ms_k e = k" "um_key e = None \<longleftrightarrow> \<not> ms_used e"
  "\<not> ms_used mslot_zero"
  by (auto simp: um_key_def mslot_zero_def)

interpretation um: reinserting "\<lambda>e :: 'v mslot. \<not> ms_used e" um_key home_of um_vac
  by unfold_locales simp_all

lemma umap_inv_zero [simp]: "umap_inv umap_zero" "umap_view umap_zero k = None"
  by (simp_all add: umap_inv_def umap_zero_def probe_inv_def umap_view_def table_view_def)

subsection \<open>The loops are probe scans\<close>

lemma umix_mod: "n = 2 ^ k \<Longrightarrow> umix key (n - Suc 0) = home_of key mod n"
  using st_home_mod [of n k key] by (simp add: umix_def st_home_def mix_sid_def)

lemma umap_free_slot_scan:
  "length ns = 2 ^ k \<Longrightarrow> umap_free_slot ns j fuel = scan (\<lambda>e. \<not> ms_used e) ns j fuel"
  by (induction fuel arbitrary: j) (auto simp: and_mask_mod)

lemma umap_put_loop_scan:
  "length s = 2 ^ n \<Longrightarrow> umap_put_loop s k i fuel = scan (\<lambda>e. \<not> ms_used e \<or> um_key e = Some k) s i fuel"
  by (induction fuel arbitrary: i) (auto simp: and_mask_mod)

lemma umap_probe_scan:
  "length s = 2 ^ n \<Longrightarrow> scan (\<lambda>e. \<not> ms_used e \<or> um_key e = Some k) s i p = Some j \<Longrightarrow>
   umap_probe s k i p = (if ms_used (s ! j) then Hit j else Miss j)"
  by (induction p arbitrary: i) (auto simp: and_mask_mod split: if_splits)

lemma umap_probe_spec:
  assumes inv: "umap_inv m" and cap: "um_cap m \<noteq> 0"
  obtains i where "i < um_cap m" "ms_used (um_s m ! i)" "ms_k (um_s m ! i) = k"
      "umap_probe (um_s m) k (umix k (um_cap m - Suc 0)) (um_cap m) = Hit i"
    | i where "i < um_cap m" "\<not> ms_used (um_s m ! i)" "table_view um_key (um_s m) k = None"
      "umap_probe (um_s m) k (umix k (um_cap m - Suc 0)) (um_cap m) = Miss i"
proof -
  obtain n where n: "um_cap m = 2 ^ n" using inv cap by (auto simp: umap_inv_def)
  have pinv: "probe_inv (\<lambda>e. \<not> ms_used e) um_key home_of (um_s m)" using inv by (simp add: umap_inv_def)
  let ?sc = "scan (\<lambda>e. \<not> ms_used e \<or> um_key e = Some k) (um_s m) (home_of k mod um_cap m) (um_cap m)"
  have "cnt ms_used (um_s m) < um_cap m" using inv cap by (auto simp: umap_inv_def)
  then obtain x where "x < um_cap m" "\<not> ms_used (um_s m ! x)" using cnt_less by blast
  then obtain j where j: "?sc = Some j"
    using scan_round [of x "um_s m" "\<lambda>e. \<not> ms_used e \<or> um_key e = Some k" "home_of k"] by blast
  have pr: "umap_probe (um_s m) k (umix k (um_cap m - Suc 0)) (um_cap m) = (if ms_used (um_s m ! j) then Hit j else Miss j)"
    unfolding umix_mod [OF n] by (rule umap_probe_scan [OF n j])
  have c: "j < um_cap m \<and> (if \<not> ms_used (um_s m ! j) then table_view um_key (um_s m) k = None
      else um_key (um_s m ! j) = Some k \<and> table_view um_key (um_s m) k = Some (um_s m ! j))"
    using um.lookup_cases [OF pinv, of k] j cap by (simp split: if_splits)
  show thesis
  proof (cases "ms_used (um_s m ! j)")
    case True
    then show thesis using that(1) [of j] c pr by simp
  next
    case False
    then show thesis using that(2) [of j] c pr by simp
  qed
qed

lemma umap_get_view: "umap_inv m \<Longrightarrow> umap_get m k = umap_view m k"
proof -
  assume inv: "umap_inv m"
  show ?thesis
  proof (cases "um_cap m = 0")
    case False
    show ?thesis
    proof (rule umap_probe_spec [OF inv False, of k])
      fix i assume i: "i < um_cap m" "ms_used (um_s m ! i)" "ms_k (um_s m ! i) = k"
        "umap_probe (um_s m) k (umix k (um_cap m - Suc 0)) (um_cap m) = Hit i"
      have "table_view um_key (um_s m) k = Some (um_s m ! i)"
        using um.view_iff [OF _ i(1), of k] i inv by (simp add: umap_inv_def)
      then show ?thesis using i False by (simp add: umap_get_def umap_view_def)
    qed (use False in \<open>simp add: umap_get_def umap_view_def\<close>)
  qed (simp add: umap_get_def umap_view_def table_view_def)
qed

subsection \<open>Growth\<close>

lemma umap_rehash_place:
  assumes "length ns = 2 ^ k" "cnt ms_used ns + cnt ms_used es \<le> length ns"
  shows "umap_rehash ns es = Some (foldl um.place ns (filter ms_used es))"
  using assms
proof (induction es arbitrary: ns)
  case (Cons e es)
  show ?case
  proof (cases "ms_used e")
    case True
    then have "cnt ms_used ns < length ns" using Cons.prems(2) by simp
    then obtain x where "x < length ns" "\<not> ms_used (ns ! x)" using cnt_less by blast
    then obtain j where j: "scan (\<lambda>e. \<not> ms_used e) ns (home_of (ms_k e) mod length ns) (length ns) = Some j"
      using scan_round [of x ns "\<lambda>e. \<not> ms_used e" "home_of (ms_k e)"] by blast
    have "0 < length ns" using \<open>x < length ns\<close> by linarith
    then have jl: "j < length ns" "\<not> ms_used (ns ! j)" using scan_index [OF j] by auto
    have pl: "um.place ns e = ns[j := e]" using j True by (simp add: probe_place_def um_key_def)
    have "cnt ms_used (ns[j := e]) = Suc (cnt ms_used ns)" using cnt_update [OF jl(1), of ms_used e] jl(2) True by simp
    then have "umap_rehash (ns[j := e]) es = Some (foldl um.place (ns[j := e]) (filter ms_used es))"
      using Cons True by (intro Cons.IH) auto
    then show ?thesis using True pl j umix_mod [OF Cons.prems(1)] umap_free_slot_scan [OF Cons.prems(1)] by simp
  qed (use Cons in auto)
qed simp

lemma umap_grow_spec:
  assumes inv: "umap_inv m" and want: "want = (um_count m + 1) * 2"
  obtains ns where "umap_grow m want [] = Some (m\<lparr>um_s := ns\<rparr>, [])" "umap_inv (m\<lparr>um_s := ns\<rparr>)"
    "table_view um_key ns = table_view um_key (um_s m)" "length ns \<noteq> 0" "(um_count m + 1) * 4 < length ns * 3"
proof -
  let ?c = "if um_cap m \<noteq> 0 then um_cap m else 64"
  define nc where "nc = grow_cap ?c want"
  have ge: "want \<le> nc" using grow_cap_ge [of ?c want] by (auto simp: nc_def split: if_splits)
  have "um_cap m = 0 \<or> (\<exists>k \<ge> 6. um_cap m = 2 ^ k)" using inv by (simp add: umap_inv_def)
  then obtain k where k: "6 \<le> k" "nc = 2 ^ k" using grow_cap_pow2_ge [of "um_cap m" 6 64 want] by (auto simp: nc_def)
  let ?z = "replicate nc (mslot_zero :: 'a mslot)" and ?es = "filter ms_used (um_s m)"
  have pinv: "probe_inv (\<lambda>e. \<not> ms_used e) um_key home_of (um_s m)" and cm: "um_count m = cnt ms_used (um_s m)"
    using inv by (simp_all add: umap_inv_def)
  have c0: "cnt ms_used ?z = 0" by simp
  have room: "cnt ms_used ?z + cnt ms_used (um_s m) \<le> length ?z" using ge want cm c0 by simp
  have re: "umap_rehash ?z (um_s m) = Some (foldl um.place ?z ?es)"
    using umap_rehash_place [OF _ room] k(2) by simp
  have pz: "um.pinv ?z" by (rule um.pinv_replicate) simp
  have vz: "\<forall>e \<in> set ?es. um_key e \<noteq> None \<and> table_view um_key ?z (the (um_key e)) = None"
    using um.view_replicate [of mslot_zero nc] by auto
  have dz: "distinct (map um_key ?es)" using um.pinv_distinct_keys [OF pinv] by simp
  obtain ns where ns: "foldl um.place ?z ?es = ns" "um.pinv ns" "length ns = nc"
    "\<forall>k. table_view um_key ns k = (case table_view um_key ?z k of Some e \<Rightarrow> Some e | None \<Rightarrow> table_view um_key ?es k)"
    "\<forall>P. (\<forall>e. \<not> ms_used e \<longrightarrow> \<not> P e) \<longrightarrow> cnt P ns = cnt P ?z + cnt P ?es"
    using um.rehash_spec [OF pz _ vz dz] room by auto
  have v: "table_view um_key ns = table_view um_key (um_s m)"
  proof (rule ext)
    fix x
    have "table_view um_key ?z x = None" by (rule um.view_replicate) simp
    moreover have "table_view um_key ?es x = table_view um_key (um_s m) x" by (rule table_view_filter) simp
    ultimately show "table_view um_key ns x = table_view um_key (um_s m) x" using ns(4) by simp
  qed
  have "cnt ms_used ns = um_count m" using ns(5) cm c0 by simp
  moreover have load: "(um_count m + 1) * 4 < nc * 3" using ge want by simp
  ultimately have "umap_inv (m\<lparr>um_s := ns\<rparr>)" using ns(2,3) k v inv by (auto simp: umap_inv_def)
  moreover have "umap_grow m want [] = Some (m\<lparr>um_s := ns\<rparr>, [])"
    using re ns(1) by (simp add: umap_grow_def nc_def Let_def)
  ultimately show thesis using that [of ns] v ns(3) load by auto
qed

subsection \<open>Insertion\<close>

lemma umap_view_None: "umap_inv m \<Longrightarrow> umap_view m k = None \<longleftrightarrow> table_view um_key (um_s m) k = None"
  by (cases "table_view um_key (um_s m) k") (auto simp: umap_inv_def umap_view_def)

text \<open>A cell for \<open>k\<close> is written: where the key was, or in a free cell.\<close>

lemma umap_write:
  assumes inv: "umap_inv m" and i: "i < um_cap m" and load: "(um_count m + 1) * 4 < um_cap m * 3"
    and p: "probe_inv (\<lambda>e. \<not> ms_used e) um_key home_of ((um_s m)[i := e])"
    and old: "um_key (um_s m ! i) = None \<or> um_key (um_s m ! i) = Some k" and e: "um_key e = Some k" "ms_v e = Some v"
    and m': "m' = m\<lparr>um_s := (um_s m)[i := e], um_count := (if ms_used (um_s m ! i) then um_count m else um_count m + 1)\<rparr>"
  shows "umap_inv m' \<and> umap_view m' = (umap_view m)(k \<mapsto> v)"
proof -
  have pinv: "um.pinv (um_s m)" and cm: "um_count m = cnt ms_used (um_s m)" using inv by (simp_all add: umap_inv_def)
  have v: "table_view um_key (um_s m') = (table_view um_key (um_s m))(k \<mapsto> e)"
    using um.view_update [OF pinv p i old] e m' by simp
  have "um_count m' = cnt ms_used (um_s m')" using cnt_update [OF i, of ms_used e] e cm m' by auto
  moreover have "um_count m' * 4 < um_cap m' * 3" "um_cap m' = um_cap m" using load m' by auto
  moreover have "\<forall>k e. table_view um_key (um_s m') k = Some e \<longrightarrow> ms_v e \<noteq> None"
    using inv v e(2) by (auto simp: umap_inv_def)
  ultimately have "umap_inv m'" using inv p i m' by (simp add: umap_inv_def)
  moreover have "umap_view m' = (umap_view m)(k \<mapsto> v)" using v e by (auto simp: umap_view_def)
  ultimately show ?thesis by blast
qed

lemma umap_store_nogrow:
  assumes inv: "umap_inv m" and cap: "um_cap m \<noteq> 0" and load: "(um_count m + 1) * 4 < um_cap m * 3"
  shows "\<exists>m'. umap_store m k (Some v) h = Some (umap_view m k = None, m', h) \<and> umap_inv m' \<and>
    umap_view m' = (umap_view m)(k \<mapsto> v)"
proof -
  obtain n where n: "um_cap m = 2 ^ n" using inv cap by (auto simp: umap_inv_def)
  have pinv: "um.pinv (um_s m)" using inv by (simp add: umap_inv_def)
  let ?stop = "\<lambda>e. \<not> ms_used e \<or> um_key e = Some k"
  have "cnt ms_used (um_s m) < um_cap m" using inv cap by (auto simp: umap_inv_def)
  then obtain x where "x < um_cap m" "\<not> ms_used (um_s m ! x)" using cnt_less by blast
  then obtain j where j: "scan ?stop (um_s m) (home_of k mod um_cap m) (um_cap m) = Some j"
    using scan_round [of x "um_s m" ?stop "home_of k"] by blast
  obtain d where d: "d < um_cap m" "j = (home_of k + d) mod um_cap m" "?stop (um_s m ! j)"
    "\<forall>d' < d. \<not> ?stop (um_s m ! ((home_of k + d') mod um_cap m))" using scan_Some [OF j] by blast
  have jl: "j < um_cap m" using scan_index [OF j] cap by simp
  have path: "\<forall>d' < d. \<not> \<not> ms_used (um_s m ! ((home_of k + d') mod um_cap m))" using d(4) by blast
  have lp: "umap_put_loop (um_s m) k (umix k (um_cap m - 1)) (um_cap m) = Some j"
    using j umap_put_loop_scan [OF n] umix_mod [OF n] by simp
  have fresh: "umap_view m k = None \<longleftrightarrow> \<not> ms_used (um_s m ! j)"
    using um.lookup_cases [OF pinv, of k] j cap umap_view_None [OF inv] by (simp split: if_splits)
  show ?thesis
  proof (cases "ms_used (um_s m ! j)")
    case True
    let ?e = "(um_s m ! j)\<lparr>ms_v := Some v\<rparr>"
    have "um.pinv ((um_s m)[j := ?e])" using True by (intro um.pinv_update [OF pinv jl]) (auto simp: um_key_def)
    then have "umap_inv (m\<lparr>um_s := (um_s m)[j := ?e]\<rparr>) \<and> umap_view (m\<lparr>um_s := (um_s m)[j := ?e]\<rparr>) = (umap_view m)(k \<mapsto> v)"
      using True d(3) by (intro umap_write [OF inv jl load]) auto
    then show ?thesis using True lp load fresh cap by (simp add: umap_store_def)
  next
    case False
    let ?e = "\<lparr>ms_k = k, ms_v = Some v, ms_used = True\<rparr>"
    have "\<forall>i < um_cap m. um_key (um_s m ! i) \<noteq> Some k"
      using fresh False umap_view_None [OF inv, of k] um.view_None [of "um_s m" k] by simp
    then have "um.pinv ((um_s m)[j := ?e])"
      using False by (intro um.pinv_insert [OF pinv d(1,2) path]) auto
    then have "umap_inv (m\<lparr>um_s := (um_s m)[j := ?e], um_count := um_count m + 1\<rparr>) \<and>
        umap_view (m\<lparr>um_s := (um_s m)[j := ?e], um_count := um_count m + 1\<rparr>) = (umap_view m)(k \<mapsto> v)"
      using False by (intro umap_write [OF inv jl load]) auto
    then show ?thesis using False lp load fresh cap by (simp add: umap_store_def)
  qed
qed

lemma umap_store_spec:
  assumes inv: "umap_inv m"
  shows "\<exists>m'. umap_store m k (Some v) [] = Some (umap_view m k = None, m', []) \<and> umap_inv m' \<and>
    umap_view m' = (umap_view m)(k \<mapsto> v)"
proof (cases "(um_count m + 1) * 4 \<ge> um_cap m * 3")
  case True
  obtain ns where ns: "umap_grow m ((um_count m + 1) * 2) [] = Some (m\<lparr>um_s := ns\<rparr>, [])" "umap_inv (m\<lparr>um_s := ns\<rparr>)"
    "table_view um_key ns = table_view um_key (um_s m)" "length ns \<noteq> 0" "(um_count m + 1) * 4 < length ns * 3"
    by (rule umap_grow_spec [OF inv refl])
  have same: "umap_view (m\<lparr>um_s := ns\<rparr>) = umap_view m" using ns(3) by (simp add: umap_view_def fun_eq_iff)
  have "umap_store m k (Some v) [] = umap_store (m\<lparr>um_s := ns\<rparr>) k (Some v) []"
    using True ns(1,5) by (simp add: umap_store_def)
  then show ?thesis using umap_store_nogrow [OF ns(2), of k v "[]"] ns(4,5) same by simp
next
  case False
  then show ?thesis using umap_store_nogrow [OF inv, of k v "[]"] by force
qed

subsection \<open>Deletion\<close>

lemma umap_reinsert_run:
  assumes "reinsert (\<lambda>e. \<not> ms_used e) um.place um_vac (um_s m) j fuel = Some t'" "um_cap m = 2 ^ n" "j < um_cap m"
    and "\<forall>i < um_cap m. \<forall>i' < um_cap m. \<forall>k. um_key (um_s m ! i) = Some k \<longrightarrow> um_key (um_s m ! i') = Some k \<longrightarrow> i = i'"
    and "um_count m = cnt ms_used (um_s m)" "um_count m * 4 < um_cap m * 3"
  shows "umap_reinsert (um_cap m - 1) m j h = Some (m\<lparr>um_s := t'\<rparr>, h)"
  using assms
proof (induction fuel arbitrary: m j)
  case (Suc fuel)
  note prems = Suc.prems
  show ?case
  proof (cases "ms_used (um_s m ! j)")
    case False
    then show ?thesis using prems(1) by (simp add: umap_reinsert.simps [of _ m j])
  next
    case True
    let ?e = "um_s m ! j" and ?s = "(um_s m)[j := um_vac (um_s m ! j)]" and ?c = "umap_clear m j"
    let ?k = "ms_k ?e"
    have len: "length ?s = um_cap m" and e: "\<lparr>ms_k = ?k, ms_v = ms_v ?e, ms_used = True\<rparr> = ?e" using True by simp_all
    have c0: "0 < um_count m" using cnt_pos [OF prems(3), of ms_used] True prems(5) by simp
    have gone: "um_key x \<noteq> Some ?k" if x: "x \<in> set ?s" for x
    proof -
      obtain i where i: "i < length ?s" "x = ?s ! i" using x unfolding in_set_conv_nth by blast
      have "i = j" if "i \<noteq> j" "um_key (um_s m ! i) = Some ?k"
        using prems(4) [rule_format, of i j ?k] that i(1) len prems(3) True by simp
      then show ?thesis using i len prems(3) by (cases "i = j") auto
    qed
    have j': "(j + 1) AND (um_cap m - 1) = (j + 1) mod um_cap m" "(j + 1) mod um_cap m < um_cap m"
      using and_mask_mod [OF prems(2), of "j + 1"] prems(2) by simp_all
    obtain f where f: "scan (\<lambda>e. \<not> ms_used e) ?s (home_of ?k mod um_cap m) (um_cap m) = Some f"
      using scan_round [of j ?s "\<lambda>e. \<not> ms_used e" "home_of ?k"] prems(3) unfolding len by auto
    have "0 < length ?s" using prems(3) len by linarith
    then have fl: "f < um_cap m" "\<not> ms_used (?s ! f)"
      using scan_index [of "\<lambda>e. \<not> ms_used e" ?s "home_of ?k" "um_cap m" f] f len by simp_all
    have "scan (\<lambda>e. \<not> ms_used e \<or> um_key e = Some ?k) ?s (home_of ?k mod um_cap m) (um_cap m) = Some f"
      using f gone prems(2) by (subst scan_cong [of ?s _ "\<lambda>e. \<not> ms_used e"]) (auto simp: len)
    then have lp: "umap_put_loop ?s ?k (umix ?k (um_cap m - 1)) (um_cap m) = Some f"
      using umap_put_loop_scan [of ?s n] umix_mod [OF prems(2)] prems(2) by simp
    define m' where "m' = m\<lparr>um_s := ?s[f := ?e]\<rparr>"
    have st: "umap_store ?c ?k (ms_v ?e) h = Some (True, m', h)"
    proof -
      have "\<not> um_cap m * 3 \<le> (um_count m - 1 + 1) * 4" "um_count m - 1 + 1 = um_count m" "um_cap m \<noteq> 0" using c0 prems(3,6) by auto
      then show ?thesis using lp fl e by (simp add: umap_store_def umap_clear_def m'_def del: One_nat_def)
    qed
    have pl: "um.place ?s ?e = um_s m'" using f len True by (simp add: probe_place_def m'_def um_key_def)
    have old: "f = j \<or> \<not> ms_used (um_s m ! f)" using fl by (cases "f = j") auto
    have D: "i = i'" if a: "i < um_cap m" "i' < um_cap m" "um_key (um_s m' ! i) = Some k" "um_key (um_s m' ! i') = Some k" for i i' k
      using um.move_unique [OF prems(4,3) fl(1) old a(1,2)] a(3,4) by (simp add: m'_def)
    have cm: "um_count m' = cnt ms_used (um_s m')"
      using um.move_same(2) [OF prems(3) fl(1) old] prems(5) by (simp add: m'_def)
    have cap': "um_cap m' = um_cap m" by (simp add: m'_def)
    have "umap_reinsert (um_cap m' - 1) m' ((j + 1) mod um_cap m) h = Some (m'\<lparr>um_s := t'\<rparr>, h)"
    proof (rule Suc.IH)
      show "reinsert (\<lambda>e. \<not> ms_used e) um.place um_vac (um_s m') ((j + 1) mod um_cap m) fuel = Some t'"
        using prems(1) True pl by simp
      show "\<forall>i < um_cap m'. \<forall>i' < um_cap m'. \<forall>k. um_key (um_s m' ! i) = Some k \<longrightarrow> um_key (um_s m' ! i') = Some k \<longrightarrow> i = i'"
        using D unfolding cap' by blast
      show "um_count m' * 4 < um_cap m' * 3" using prems(6) cap' by (simp add: m'_def)
    qed (use prems(2) j'(2) cap' cm in simp_all)
    then show ?thesis
      using True st j' cap' by (subst umap_reinsert.simps) (simp add: m'_def)
  qed
qed simp

lemma umap_reinsert_spec:
  assumes t': "reinsert (\<lambda>e. \<not> ms_used e) um.place um_vac (um_s m) ((i + 1) mod um_cap m) (um_cap m) = Some t'"
    and p: "um.pinv t'" "length t' = um_cap m" "um_count m = cnt ms_used (um_s m)" "cnt ms_used t' = cnt ms_used (um_s m)"
    and cap: "\<exists>n \<ge> 6. um_cap m = 2 ^ n" "um_count m * 4 < um_cap m * 3"
    and D: "\<And>i i' k. i < um_cap m \<Longrightarrow> i' < um_cap m \<Longrightarrow> um_key (um_s m ! i) = Some k \<Longrightarrow> um_key (um_s m ! i') = Some k \<Longrightarrow> i = i'"
    and nn: "\<And>k e. table_view um_key t' k = Some e \<Longrightarrow> ms_v e \<noteq> None"
  shows "umap_reinsert (um_cap m - 1) m ((i + 1) AND (um_cap m - 1)) h = Some (m\<lparr>um_s := t'\<rparr>, h) \<and> umap_inv (m\<lparr>um_s := t'\<rparr>)"
proof -
  obtain n where n: "6 \<le> n" "um_cap m = 2 ^ n" using cap(1) by blast
  have j: "(i + 1) AND (um_cap m - 1) = (i + 1) mod um_cap m" "(i + 1) mod um_cap m < um_cap m"
    using and_mask_mod [OF n(2), of "i + 1"] n(2) by simp_all
  have "umap_reinsert (um_cap m - 1) m ((i + 1) mod um_cap m) h = Some (m\<lparr>um_s := t'\<rparr>, h)"
    using D by (intro umap_reinsert_run [OF t' n(2) j(2) _ p(3) cap(2)]) blast
  moreover have "umap_inv (m\<lparr>um_s := t'\<rparr>)" using p cap nn by (auto simp: umap_inv_def)
  ultimately show ?thesis unfolding j(1) by blast
qed

lemma umap_hit_del:
  assumes inv: "umap_inv m" and i: "i < um_cap m" "ms_used (um_s m ! i)" "ms_k (um_s m ! i) = k"
  shows "\<exists>m'. umap_reinsert (um_cap m - 1) (umap_clear m i) ((i + 1) AND (um_cap m - 1)) h = Some (m', h) \<and>
    umap_inv m' \<and> umap_view m' = (umap_view m)(k := None)"
proof -
  have pinv: "um.pinv (um_s m)" and cm: "um_count m = cnt ms_used (um_s m)" and load: "um_count m * 4 < um_cap m * 3"
    and pow: "\<exists>n \<ge> 6. um_cap m = 2 ^ n" using inv i(1) by (auto simp: umap_inv_def)
  define m1 where "m1 = umap_clear m i"
  have s1: "um_s m1 = (um_s m)[i := um_vac (um_s m ! i)]" and c1: "um_count m1 = um_count m - 1" and cap1: "um_cap m1 = um_cap m"
    by (simp_all add: m1_def umap_clear_def)
  obtain t' where t': "reinsert (\<lambda>e. \<not> ms_used e) um.place um_vac (um_s m1) ((i + 1) mod um_cap m1) (um_cap m1) = Some t'"
    "um.pinv t'" "length t' = um_cap m1" "table_view um_key t' = (table_view um_key (um_s m))(k := None)"
    "cnt ms_used (um_s m) = Suc (cnt ms_used t')"
    using um.delete_spec [OF pinv i(1), of k] i cm load unfolding s1 by auto
  have cs: "cnt ms_used (um_s m) = Suc (cnt ms_used (um_s m1))"
    using cnt_update [OF i(1), of ms_used "um_vac (um_s m ! i)"] i(2) s1 by simp
  have key1: "um_key (um_s m1 ! x) = Some y \<Longrightarrow> um_key (um_s m ! x) = Some y" for x y
    using i(1) unfolding s1 by (cases "x = i") auto
  have "umap_reinsert (um_cap m1 - 1) m1 ((i + 1) AND (um_cap m1 - 1)) h = Some (m1\<lparr>um_s := t'\<rparr>, h) \<and> umap_inv (m1\<lparr>um_s := t'\<rparr>)"
  proof (rule umap_reinsert_spec [OF t'(1,2)])
    show "length t' = um_cap m1" "cnt ms_used t' = cnt ms_used (um_s m1)" "um_count m1 = cnt ms_used (um_s m1)"
      using t'(3,5) cs cm c1 by simp_all
    show "\<exists>n \<ge> 6. um_cap m1 = 2 ^ n" "um_count m1 * 4 < um_cap m1 * 3" using pow load c1 cap1 by auto
    show "x = y" if "x < um_cap m1" "y < um_cap m1" "um_key (um_s m1 ! x) = Some z" "um_key (um_s m1 ! y) = Some z" for x y z
      using um.pinv_unique [OF pinv, of x y z] that key1 cap1 by simp
    show "ms_v e \<noteq> None" if "table_view um_key t' x = Some e" for x e
      using that inv t'(4) by (auto simp: umap_inv_def split: if_splits)
  qed
  moreover have "umap_view (m1\<lparr>um_s := t'\<rparr>) = (umap_view m)(k := None)" using t'(4) by (auto simp: umap_view_def)
  ultimately show ?thesis unfolding cap1 m1_def [symmetric] by blast
qed

lemma umap_idle_del:
  assumes inv: "umap_inv m" and i: "i < um_cap m" "\<not> ms_used (um_s m ! i)"
  shows "\<exists>m'. umap_reinsert (um_cap m - 1) m ((i + 1) AND (um_cap m - 1)) h = Some (m', h) \<and>
    umap_inv m' \<and> umap_view m' = umap_view m"
proof -
  have pinv: "um.pinv (um_s m)" and cm: "um_count m = cnt ms_used (um_s m)" and load: "um_count m * 4 < um_cap m * 3"
    and pow: "\<exists>n \<ge> 6. um_cap m = 2 ^ n" using inv i(1) by (auto simp: umap_inv_def)
  obtain t' where t': "reinsert (\<lambda>e. \<not> ms_used e) um.place um_vac (um_s m) ((i + 1) mod um_cap m) (um_cap m) = Some t'"
    "um.pinv t'" "length t' = um_cap m" "table_view um_key t' = table_view um_key (um_s m)"
    "cnt ms_used t' = cnt ms_used (um_s m)"
    using um.reinsert_idle [OF pinv i] by auto
  have "umap_reinsert (um_cap m - 1) m ((i + 1) AND (um_cap m - 1)) h = Some (m\<lparr>um_s := t'\<rparr>, h) \<and> umap_inv (m\<lparr>um_s := t'\<rparr>)"
    using inv t'(4,5) by (intro umap_reinsert_spec [OF t'(1-3) cm _ pow load])
      (auto simp: umap_inv_def intro: um.pinv_unique [OF pinv])
  moreover have "umap_view (m\<lparr>um_s := t'\<rparr>) = umap_view m" using t'(4) by (auto simp: umap_view_def)
  ultimately show ?thesis by blast
qed

lemma umap_absent: "umap_inv m \<Longrightarrow> table_view um_key (um_s m) k = None \<Longrightarrow> (umap_view m)(k := None) = umap_view m"
  by (auto simp: umap_view_def)

lemma umap_del_spec:
  assumes inv: "umap_inv m"
  shows "\<exists>m'. umap_del m k h = Some (m', h) \<and> umap_inv m' \<and> umap_view m' = (umap_view m)(k := None)"
proof (cases "um_cap m = 0")
  case True
  then have "(umap_view m)(k := None) = umap_view m" by (auto simp: umap_view_def table_view_def)
  then show ?thesis using inv True by (simp add: umap_del_def)
next
  case False
  have pred: "um_cap m - 1 + 1 = um_cap m" using False by simp
  show ?thesis
  proof (rule umap_probe_spec [OF inv False, of k])
    fix i assume i: "i < um_cap m" "ms_used (um_s m ! i)" "ms_k (um_s m ! i) = k"
      "umap_probe (um_s m) k (umix k (um_cap m - Suc 0)) (um_cap m) = Hit i"
    then show ?thesis using umap_hit_del [OF inv i(1-3), of h] False unfolding umap_del_def Let_def pred by simp
  next
    fix i assume i: "i < um_cap m" "\<not> ms_used (um_s m ! i)" "table_view um_key (um_s m) k = None"
      "umap_probe (um_s m) k (umix k (um_cap m - Suc 0)) (um_cap m) = Miss i"
    then show ?thesis using umap_absent [OF inv i(3)] inv False unfolding umap_del_def Let_def pred by simp
  qed
qed

lemma reg_del_spec:
  assumes inv: "umap_inv m" and cap: "um_cap m \<noteq> 0"
  shows "\<exists>m'. reg_del m k h = Some (m', h) \<and> umap_inv m' \<and> umap_view m' = (umap_view m)(k := None)"
proof -
  have pred: "um_cap m - 1 + 1 = um_cap m" using cap by simp
  show ?thesis
  proof (rule umap_probe_spec [OF inv cap, of k])
    fix i assume i: "i < um_cap m" "ms_used (um_s m ! i)" "ms_k (um_s m ! i) = k"
      "umap_probe (um_s m) k (umix k (um_cap m - Suc 0)) (um_cap m) = Hit i"
    then show ?thesis using umap_hit_del [OF inv i(1-3), of h] unfolding reg_del_def Let_def pred by simp
  next
    fix i assume i: "i < um_cap m" "\<not> ms_used (um_s m ! i)" "table_view um_key (um_s m) k = None"
      "umap_probe (um_s m) k (umix k (um_cap m - Suc 0)) (um_cap m) = Miss i"
    then show ?thesis using umap_absent [OF inv i(3)] umap_idle_del [OF inv i(1,2), of h] unfolding reg_del_def Let_def pred by simp
  qed
qed

section \<open>The map of the router\<close>

lemma umap_put_spec: "umap_inv m \<Longrightarrow> \<exists>m'. umap_put m k v [] = Some (m', []) \<and> umap_inv m' \<and> umap_view m' = (umap_view m)(k \<mapsto> v)"
  using umap_store_spec [of m k v] by (auto simp: umap_put_def)

interpretation ump: assoc_map umap_inv umap_view umap_get umap_put umap_del
  by unfold_locales (erule umap_get_view umap_put_spec umap_del_spec)+

text \<open>
  C14. The route map of the edge-peer refines a finite map. Whatever sequence of insertions
  and removals runs on an empty map, with an allocator that does not fail, every operation
  returns, and afterwards a lookup of any id gives what the same sequence gives on a finite
  map. Growth keeps every entry, and a removal, which empties a cell and re-inserts the run
  behind it, ends, loses no other entry and leaves no probe path broken.
\<close>

theorem umap_refines_map:
  "\<exists>m. map_run_ops umap_put umap_del ops umap_zero [] = Some (m, []) \<and> umap_inv m \<and>
     (\<forall>k. umap_get m k = map_spec ops Map.empty k)"
proof -
  have v: "umap_view umap_zero = Map.empty" by auto
  show ?thesis using ump.run_refines [OF umap_inv_zero(1), of ops] unfolding v .
qed

text \<open>
  The same map without memory: when its first allocation fails, the insertion goes on to
  use the table that is not there.
\<close>

lemma umap_put_without_memory: "umap_put umap_zero k v [False] = None"
  by (simp add: umap_put_def umap_store_def umap_zero_def umap_grow_def Let_def)

end
