(* ===== verification/Mux_Bytebuf.thy ===== *)
theory Mux_Bytebuf
  imports Mux_Fifo
begin

text \<open>
  The FIFO byte buffers of the daemons. \<^verbatim>\<open>src/edge-peer/router.c\<close>, \<^verbatim>\<open>src/common/relay.c\<close> and
  \<^verbatim>\<open>src/libpeer/src/libpeer.c\<close> each have a \<open>buf_t\<close> with the same fields and the same growth,
  and differ in when they move the content back to the front. Each provides the locale
  \<open>fifo\<close>. The allocation is the list \<open>bf_data\<close>, whose length is the C field \<open>cap\<close>.
\<close>

record buf_t =
  bf_data :: bytes
  bf_head :: nat
  bf_len :: nat

abbreviation bf_cap :: "buf_t \<Rightarrow> nat" where
  "bf_cap b \<equiv> length (bf_data b)"

definition buf_zero :: buf_t where
  "buf_zero = \<lparr>bf_data = [], bf_head = 0, bf_len = 0\<rparr>"

definition buf_avail :: "buf_t \<Rightarrow> nat" where
  "buf_avail b = bf_len b - bf_head b"

text \<open>The bytes from \<^verbatim>\<open>data + head\<close> on, \<open>buf_avail\<close> of them.\<close>

definition buf_bytes :: "buf_t \<Rightarrow> bytes" where
  "buf_bytes b = take (buf_avail b) (drop (bf_head b) (bf_data b))"

text \<open>The steps the three versions of \<open>buf_append\<close> are made of.\<close>

definition buf_move :: "buf_t \<Rightarrow> buf_t" where
  "buf_move b = b\<lparr>bf_data := mem_write (bf_data b) 0 (buf_bytes b), bf_len := bf_len b - bf_head b, bf_head := 0\<rparr>"

definition buf_store :: "buf_t \<Rightarrow> bytes \<Rightarrow> buf_t" where
  "buf_store b p = b\<lparr>bf_data := mem_write (bf_data b) (bf_len b) p, bf_len := bf_len b + length p\<rparr>"

definition buf_room :: "buf_t \<Rightarrow> bytes \<Rightarrow> heap \<Rightarrow> bool \<times> buf_t \<times> heap" where
  "buf_room b p h =
     (if bf_len b + length p > bf_cap b then
        let nc = grow_cap (if bf_cap b \<noteq> 0 then bf_cap b else 4096) (bf_len b + length p)
        in case alloc h of
             (False, h') \<Rightarrow> (False, b, h')
           | (True, h') \<Rightarrow> (True, buf_store (b\<lparr>bf_data := bf_data b @ replicate (nc - bf_cap b) 0\<rparr>) p, h')
      else (True, buf_store b p, h))"

definition router_buf_append :: "buf_t \<Rightarrow> bytes \<Rightarrow> heap \<Rightarrow> bool \<times> buf_t \<times> heap" where
  "router_buf_append b p h =
     (if length p = 0 then (True, b, h)
      else
        let b = (if bf_head b = bf_len b then b\<lparr>bf_head := 0, bf_len := 0\<rparr> else b);
            b = (if bf_head b > 0 \<and> bf_len b + length p > bf_cap b then buf_move b else b)
        in buf_room b p h)"

definition libpeer_buf_append :: "buf_t \<Rightarrow> bytes \<Rightarrow> heap \<Rightarrow> bool \<times> buf_t \<times> heap" where
  "libpeer_buf_append b p h =
     (if length p = 0 then (True, b, h)
      else
        let b = (if bf_head b > 0 \<and> bf_head b = bf_len b then b\<lparr>bf_head := 0, bf_len := 0\<rparr> else b);
            b = (if bf_head b > 0 \<and> bf_len b + length p > bf_cap b then buf_move b else b)
        in buf_room b p h)"

definition relay_buf_append :: "buf_t \<Rightarrow> bytes \<Rightarrow> heap \<Rightarrow> bool \<times> buf_t \<times> heap" where
  "relay_buf_append b p h =
     (if length p = 0 then (True, b, h)
      else let b = (if bf_head b > 0 then buf_move b else b) in buf_room b p h)"

text \<open>
  Dropping bytes from the front: \<open>buf_consume\<close> of the relay, and the assignment to \<open>head\<close>
  that \<open>flush_pend\<close>, \<open>flush_wbuf\<close> and \<open>lp_read\<close> write out.
\<close>

definition buf_consume :: "buf_t \<Rightarrow> nat \<Rightarrow> buf_t" where
  "buf_consume b n =
     (let b = b\<lparr>bf_head := bf_head b + n\<rparr>
      in if bf_head b \<ge> bf_len b then b\<lparr>bf_head := 0, bf_len := 0\<rparr> else b)"

definition buf_advance :: "buf_t \<Rightarrow> nat \<Rightarrow> buf_t" where
  "buf_advance b n =
     (let b = b\<lparr>bf_head := bf_head b + n\<rparr>
      in if bf_head b = bf_len b then b\<lparr>bf_head := 0, bf_len := 0\<rparr> else b)"

section \<open>Laws\<close>

definition buf_inv :: "buf_t \<Rightarrow> bool" where
  "buf_inv b \<longleftrightarrow> bf_head b \<le> bf_len b \<and> bf_len b \<le> bf_cap b"

lemma buf_zero_inv [simp]: "buf_inv buf_zero" "buf_bytes buf_zero = []" "buf_avail buf_zero = 0"
  by (simp_all add: buf_inv_def buf_zero_def buf_bytes_def buf_avail_def)

lemma length_buf_bytes [simp]: "buf_inv b \<Longrightarrow> length (buf_bytes b) = buf_avail b"
  by (auto simp: buf_inv_def buf_bytes_def buf_avail_def)

lemma buf_reset_spec:
  "buf_inv b \<Longrightarrow> bf_head b = bf_len b \<Longrightarrow>
   buf_inv (b\<lparr>bf_head := 0, bf_len := 0\<rparr>) \<and> buf_bytes (b\<lparr>bf_head := 0, bf_len := 0\<rparr>) = buf_bytes b"
  by (simp add: buf_inv_def buf_bytes_def buf_avail_def)

lemma buf_move_spec: "buf_inv b \<Longrightarrow> buf_inv (buf_move b) \<and> buf_bytes (buf_move b) = buf_bytes b"
  by (auto simp: buf_move_def buf_inv_def buf_bytes_def buf_avail_def mem_write_def min_def)

lemma buf_store_spec:
  assumes "buf_inv b" "bf_len b + length p \<le> bf_cap b"
  shows "buf_inv (buf_store b p) \<and> buf_bytes (buf_store b p) = buf_bytes b @ p"
proof -
  have "take (bf_len b + length p) (mem_write (bf_data b) (bf_len b) p) = take (bf_len b) (bf_data b) @ p"
    using assms by (intro take_mem_write_through) simp
  then have "drop (bf_head b) (take (bf_len b + length p) (mem_write (bf_data b) (bf_len b) p)) =
      drop (bf_head b) (take (bf_len b) (bf_data b)) @ p"
    using assms by (simp add: buf_inv_def)
  then show ?thesis
    using assms by (simp add: buf_inv_def buf_store_def buf_bytes_def buf_avail_def drop_take)
qed

lemma buf_room_spec:
  assumes inv: "buf_inv b" and res: "buf_room b p h = (ok, b', h')"
  shows "buf_inv b' \<and> buf_bytes b' = (if ok then buf_bytes b @ p else buf_bytes b) \<and> (h = [] \<longrightarrow> ok \<and> h' = [])"
proof (cases "bf_len b + length p > bf_cap b")
  case True
  let ?c = "if bf_cap b \<noteq> 0 then bf_cap b else 4096" and ?w = "bf_len b + length p"
  have ge: "?w \<le> grow_cap ?c ?w" "bf_cap b \<le> grow_cap ?c ?w"
    using grow_cap_ge [of ?c ?w] grow_cap_mono [of ?c ?w] by (auto split: if_splits)
  define b2 where "b2 = b\<lparr>bf_data := bf_data b @ replicate (grow_cap ?c ?w - bf_cap b) 0\<rparr>"
  have "buf_inv b2" "buf_bytes b2 = buf_bytes b" "bf_len b2 + length p \<le> bf_cap b2"
    using inv ge by (auto simp: b2_def buf_inv_def buf_bytes_def buf_avail_def)
  then have "buf_inv (buf_store b2 p) \<and> buf_bytes (buf_store b2 p) = buf_bytes b @ p" using buf_store_spec by simp
  moreover have "ok \<and> b' = buf_store b2 p \<or> \<not> ok \<and> b' = b"
    using res True unfolding buf_room_def Let_def b2_def by (auto split: prod.splits bool.splits)
  moreover have "h = [] \<longrightarrow> ok \<and> h' = []" using res True by (auto simp: buf_room_def Let_def)
  ultimately show ?thesis using inv by auto
next
  case False
  then show ?thesis using res buf_store_spec [OF inv, of p] by (auto simp: buf_room_def)
qed

lemma router_buf_append_spec:
  assumes inv: "buf_inv b" and res: "router_buf_append b p h = (ok, b', h')"
  shows "buf_inv b' \<and> buf_bytes b' = (if ok then buf_bytes b @ p else buf_bytes b) \<and> (h = [] \<longrightarrow> ok \<and> h' = [])"
proof (cases "p = []")
  case False
  define b1 where "b1 = (if bf_head b = bf_len b then b\<lparr>bf_head := 0, bf_len := 0\<rparr> else b)"
  define b2 where "b2 = (if bf_head b1 > 0 \<and> bf_len b1 + length p > bf_cap b1 then buf_move b1 else b1)"
  have 1: "buf_inv b1 \<and> buf_bytes b1 = buf_bytes b" unfolding b1_def using buf_reset_spec [OF inv] inv by simp
  have 2: "buf_inv b2 \<and> buf_bytes b2 = buf_bytes b" unfolding b2_def using buf_move_spec 1 by simp
  have "buf_room b2 p h = (ok, b', h')"
    using res False unfolding router_buf_append_def Let_def b1_def [symmetric] b2_def [symmetric] by simp
  then show ?thesis using buf_room_spec [of b2 p h] 2 by simp
qed (use inv res in \<open>auto simp: router_buf_append_def\<close>)

lemma libpeer_buf_append_spec:
  assumes inv: "buf_inv b" and res: "libpeer_buf_append b p h = (ok, b', h')"
  shows "buf_inv b' \<and> buf_bytes b' = (if ok then buf_bytes b @ p else buf_bytes b) \<and> (h = [] \<longrightarrow> ok \<and> h' = [])"
proof (cases "p = []")
  case False
  define b1 where "b1 = (if bf_head b > 0 \<and> bf_head b = bf_len b then b\<lparr>bf_head := 0, bf_len := 0\<rparr> else b)"
  define b2 where "b2 = (if bf_head b1 > 0 \<and> bf_len b1 + length p > bf_cap b1 then buf_move b1 else b1)"
  have 1: "buf_inv b1 \<and> buf_bytes b1 = buf_bytes b" unfolding b1_def using buf_reset_spec [OF inv] inv by simp
  have 2: "buf_inv b2 \<and> buf_bytes b2 = buf_bytes b" unfolding b2_def using buf_move_spec 1 by simp
  have "buf_room b2 p h = (ok, b', h')"
    using res False unfolding libpeer_buf_append_def Let_def b1_def [symmetric] b2_def [symmetric] by simp
  then show ?thesis using buf_room_spec [of b2 p h] 2 by simp
qed (use inv res in \<open>auto simp: libpeer_buf_append_def\<close>)

lemma relay_buf_append_spec:
  assumes inv: "buf_inv b" and res: "relay_buf_append b p h = (ok, b', h')"
  shows "buf_inv b' \<and> buf_bytes b' = (if ok then buf_bytes b @ p else buf_bytes b) \<and> (h = [] \<longrightarrow> ok \<and> h' = [])"
proof (cases "p = []")
  case False
  define b1 where "b1 = (if bf_head b > 0 then buf_move b else b)"
  have 1: "buf_inv b1 \<and> buf_bytes b1 = buf_bytes b" unfolding b1_def using buf_move_spec [OF inv] inv by simp
  have "buf_room b1 p h = (ok, b', h')"
    using res False unfolding relay_buf_append_def Let_def b1_def [symmetric] by simp
  then show ?thesis using buf_room_spec [of b1 p h] 1 by simp
qed (use inv res in \<open>auto simp: relay_buf_append_def\<close>)

lemma buf_advance_spec:
  assumes "buf_inv b" "n \<le> buf_avail b"
  shows "buf_inv (buf_advance b n) \<and> buf_bytes (buf_advance b n) = drop n (buf_bytes b)"
  using assms by (auto simp: buf_advance_def Let_def buf_inv_def buf_bytes_def buf_avail_def drop_take add.commute)

lemma buf_consume_spec:
  assumes "buf_inv b"
  shows "buf_inv (buf_consume b n) \<and> buf_bytes (buf_consume b n) = drop n (buf_bytes b)"
  using assms by (auto simp: buf_consume_def Let_def buf_inv_def buf_bytes_def buf_avail_def drop_take add.commute)

interpretation rlb: fifo buf_inv buf_bytes "\<lambda>p. p" relay_buf_append buf_consume
  by unfold_locales ((drule (1) relay_buf_append_spec, simp) | simp add: buf_consume_spec)+

text \<open>The callers of \<open>buf_advance\<close> never drop more than there is.\<close>

abbreviation buf_drop :: "buf_t \<Rightarrow> nat \<Rightarrow> buf_t" where
  "buf_drop b n \<equiv> buf_advance b (min n (buf_avail b))"

lemma buf_drop_spec: "buf_inv b \<Longrightarrow> buf_inv (buf_drop b n) \<and> buf_bytes (buf_drop b n) = drop n (buf_bytes b)"
  using buf_advance_spec [of b "min n (buf_avail b)"] by (cases "n \<le> buf_avail b") simp_all

interpretation rtb: fifo buf_inv buf_bytes "\<lambda>p. p" router_buf_append buf_drop
  by unfold_locales ((drule (1) router_buf_append_spec, simp) | simp add: buf_drop_spec)+

interpretation lpb: fifo buf_inv buf_bytes "\<lambda>p. p" libpeer_buf_append buf_drop
  by unfold_locales ((drule (1) libpeer_buf_append_spec, simp) | simp add: buf_drop_spec)+

text \<open>
  C31. The byte buffers of the three daemons are queues: after any appends (some refused for
  want of memory) and any amounts taken from the front, the bytes accepted are the bytes
  taken out followed by the bytes still there, in each of the three versions.
\<close>

theorem daemon_buffers_conserve:
  assumes "put_in = router_buf_append \<and> take_out = buf_drop \<or> put_in = libpeer_buf_append \<and> take_out = buf_drop \<or>
      put_in = relay_buf_append \<and> take_out = buf_consume"
    and "fifo_run put_in take_out buf_bytes (\<lambda>p. p) ops (buf_zero, h, [], []) = (b, h', accepted, taken)"
  shows "buf_inv b \<and> accepted = taken @ buf_bytes b"
  using assms(1)
proof (elim disjE conjE)
  assume "put_in = router_buf_append" "take_out = buf_drop"
  then show ?thesis using rtb.run_conserves [of buf_zero "[]" "[]"] assms(2) by simp
next
  assume "put_in = libpeer_buf_append" "take_out = buf_drop"
  then show ?thesis using lpb.run_conserves [of buf_zero "[]" "[]"] assms(2) by simp
next
  assume "put_in = relay_buf_append" "take_out = buf_consume"
  then show ?thesis using rlb.run_conserves [of buf_zero "[]" "[]"] assms(2) by simp
qed

theorem daemon_buffers_conserve_witness:
  "\<exists>b h' accepted taken. fifo_run router_buf_append buf_drop buf_bytes (\<lambda>p. p) [Push [1, 2, 3], Pop 2, Push [4]]
     (buf_zero, [True, False], [], []) = (b, h', accepted, taken) \<and> accepted = taken @ buf_bytes b"
proof -
  let ?r = "fifo_run router_buf_append buf_drop buf_bytes (\<lambda>p. p) [Push [1, 2, 3], Pop 2, Push [4]] (buf_zero, [True, False], [], [])"
  obtain b h' a t where r: "?r = (b, h', a, t)" by (rule prod_cases4)
  have d: "router_buf_append = router_buf_append \<and> buf_drop = buf_drop \<or> router_buf_append = libpeer_buf_append \<and> buf_drop = buf_drop \<or>
      router_buf_append = relay_buf_append \<and> buf_drop = buf_consume" by (rule disjI1) simp
  show ?thesis unfolding r using daemon_buffers_conserve [OF d r] by simp
qed

end
