(* ===== verification/Mux_Router.thy ===== *)
theory Mux_Router
  imports Mux_Transport Mux_Umap Mux_Bytebuf "HOL-Library.Monad_Syntax"
begin

text \<open>
  The stream router of the edge-peer daemon, \<^verbatim>\<open>src/edge-peer/router.c\<close>: tunnels to upstream
  edges and to a pool of workers, the balancing of inbound streams over the workers, and the
  splicing of stream pairs. The C code mutates \<open>struct ep_state\<close> through pointers; here every
  function returns the state after it. A \<open>route *\<close> is a key of the store \<open>ep_routes\<close>, and
  freeing the route removes it. \<open>None\<close> as a result is an access to freed memory, an access
  through a null table, or a loop that does not end. The random nonces, the clock, and the
  results of the system calls are arguments.
\<close>

unbundle bit_operations_syntax

section \<open>Data\<close>

record ep_config =
  ec_edges :: "bytes list"
  ec_workers :: "bytes list"
  ec_token :: "bytes option"
  ec_peer_id :: "bytes option"
  ec_init_window :: u32
  ec_session_window :: u32
  ec_heartbeat_ms :: u32

text \<open>\<open>cn_recv\<close> is the filled part of the receive buffer, \<open>recv_len\<close> its length.\<close>

record conn_t =
  cn_addr :: bytes
  cn_fd :: int
  cn_connecting :: bool
  cn_mux :: "mux_session option"
  cn_ready :: bool
  cn_recv :: bytes
  cn_next_attempt :: u64
  cn_is_worker :: bool
  cn_idx :: nat
  cn_weight :: u32
  cn_swrr_cw :: int
  cn_inflight :: u32
  cn_routes :: "nat umap"
  cn_is_edge :: bool
  cn_nonce :: bytes
  cn_proof :: bytes

record route =
  rt_edge_idx :: nat
  rt_up_sid :: u32
  rt_worker_idx :: nat
  rt_down_sid :: u32
  rt_u2w :: buf_t
  rt_w2u :: buf_t
  rt_up_fin :: bool
  rt_down_fin :: bool
  rt_gone :: bool

record ep_state =
  ep_cfg :: ep_config
  ep_edges :: "conn_t list"
  ep_wk :: "conn_t list"
  ep_routes :: "nat \<Rightarrow> route option"
  ep_next :: nat
  ep_mem :: heap

definition upd_edge :: "ep_state \<Rightarrow> nat \<Rightarrow> (conn_t \<Rightarrow> conn_t) \<Rightarrow> ep_state" where
  "upd_edge e i f = e\<lparr>ep_edges := (ep_edges e)[i := f (ep_edges e ! i)]\<rparr>"

definition upd_wk :: "ep_state \<Rightarrow> nat \<Rightarrow> (conn_t \<Rightarrow> conn_t) \<Rightarrow> ep_state" where
  "upd_wk e i f = e\<lparr>ep_wk := (ep_wk e)[i := f (ep_wk e ! i)]\<rparr>"

definition upd_route :: "ep_state \<Rightarrow> nat \<Rightarrow> (route \<Rightarrow> route) \<Rightarrow> ep_state" where
  "upd_route e r f = e\<lparr>ep_routes := (ep_routes e)(r := map_option f (ep_routes e r))\<rparr>"

abbreviation edge_mux :: "ep_state \<Rightarrow> nat \<Rightarrow> mux_session option" where
  "edge_mux e i \<equiv> cn_mux (ep_edges e ! i)"

abbreviation wk_mux :: "ep_state \<Rightarrow> nat \<Rightarrow> mux_session option" where
  "wk_mux e i \<equiv> cn_mux (ep_wk e ! i)"

abbreviation set_edge_mux :: "ep_state \<Rightarrow> nat \<Rightarrow> mux_session option \<Rightarrow> ep_state" where
  "set_edge_mux e i m \<equiv> upd_edge e i (\<lambda>c. c\<lparr>cn_mux := m\<rparr>)"

abbreviation set_wk_mux :: "ep_state \<Rightarrow> nat \<Rightarrow> mux_session option \<Rightarrow> ep_state" where
  "set_wk_mux e i m \<equiv> upd_wk e i (\<lambda>c. c\<lparr>cn_mux := m\<rparr>)"

section \<open>Authentication\<close>

definition conn_build_cfg :: "ep_config \<Rightarrow> conn_t \<Rightarrow> bytes \<Rightarrow> (mux_config \<times> conn_t) option" where
  "conn_build_cfg cfg c nonce =
     (let mc = \<lparr>cfg_init_window = ec_init_window cfg, cfg_session_window = ec_session_window cfg,
                cfg_max_streams = 0,
                cfg_heartbeat_ms = (if ec_heartbeat_ms cfg \<noteq> 0 then ec_heartbeat_ms cfg else 15000),
                cfg_keepalive_timeout_ms = 0, cfg_weight = 1, cfg_max_out_buffer = 0,
                cfg_peer_id = ec_peer_id cfg, cfg_peer_id_len = length (blob (ec_peer_id cfg)),
                cfg_auth = None, cfg_auth_len = 0, cfg_nonce = None, cfg_nonce_len = 0\<rparr>
      in case ec_token cfg of
           None \<Rightarrow> Some (mc, c)
         | Some token \<Rightarrow> do {
             proof \<leftarrow> mux_auth_proof token nonce;
             Some (mc\<lparr>cfg_nonce := Some nonce, cfg_nonce_len := length nonce,
                      cfg_auth := Some proof, cfg_auth_len := length proof\<rparr>,
                   c\<lparr>cn_nonce := nonce, cn_proof := proof\<rparr>)
           })"

definition check_auth :: "ep_state \<Rightarrow> hello_info \<Rightarrow> bool option" where
  "check_auth e hi = hello_authentic (ec_token (ep_cfg e)) hi"

section \<open>Balancing\<close>

text \<open>
  The loop of \<open>pick_worker\<close>: smooth weighted round robin. The counters are \<^verbatim>\<open>long\<close> in C; the
  bounds of \<open>swrr_fair\<close> keep them far inside.
\<close>

fun pick_loop :: "conn_t list \<Rightarrow> nat \<Rightarrow> int \<Rightarrow> nat option \<Rightarrow> int \<Rightarrow> conn_t list \<times> int \<times> nat option" where
  "pick_loop [] i tot best bestcw = ([], tot, best)"
| "pick_loop (w # ws) i tot best bestcw =
     (if \<not> cn_ready w \<or> cn_weight w = 0 then
        (case pick_loop ws (i + 1) tot best bestcw of (ws', r) \<Rightarrow> (w # ws', r))
      else
        let w = w\<lparr>cn_swrr_cw := cn_swrr_cw w + uint (cn_weight w)\<rparr>;
            tot = tot + uint (cn_weight w);
            (best, bestcw) = (if best = None \<or> cn_swrr_cw w > bestcw then (Some i, cn_swrr_cw w) else (best, bestcw))
        in case pick_loop ws (i + 1) tot best bestcw of (ws', r) \<Rightarrow> (w # ws', r))"

definition pick_worker :: "ep_state \<Rightarrow> nat option \<times> ep_state" where
  "pick_worker e =
     (case pick_loop (ep_wk e) 0 0 None 0 of
        (ws, tot, best) \<Rightarrow>
          let e = e\<lparr>ep_wk := ws\<rparr>
          in case best of
               None \<Rightarrow> (None, e)
             | Some b \<Rightarrow> (Some b, upd_wk e b (\<lambda>w. w\<lparr>cn_swrr_cw := cn_swrr_cw w - tot\<rparr>)))"

section \<open>Routes\<close>

definition route_new :: "ep_state \<Rightarrow> nat \<Rightarrow> u32 \<Rightarrow> nat \<Rightarrow> u32 \<Rightarrow> (nat option \<times> ep_state) option" where
  "route_new e eidx up_sid widx down_sid =
     (case alloc (ep_mem e) of
        (False, h) \<Rightarrow> Some (None, e\<lparr>ep_mem := h\<rparr>)
      | (True, h) \<Rightarrow>
          let r = ep_next e;
              e = e\<lparr>ep_mem := h, ep_next := r + 1,
                    ep_routes := (ep_routes e)(r \<mapsto>
                      \<lparr>rt_edge_idx = eidx, rt_up_sid = up_sid, rt_worker_idx = widx, rt_down_sid = down_sid,
                       rt_u2w = buf_zero, rt_w2u = buf_zero, rt_up_fin = False, rt_down_fin = False, rt_gone = False\<rparr>)\<rparr>
          in do {
            (m, h) \<leftarrow> umap_put (cn_routes (ep_edges e ! eidx)) up_sid r (ep_mem e);
            let e = upd_edge (e\<lparr>ep_mem := h\<rparr>) eidx (\<lambda>c. c\<lparr>cn_routes := m\<rparr>) in do {
              (m, h) \<leftarrow> umap_put (cn_routes (ep_wk e ! widx)) down_sid r (ep_mem e);
              Some (Some r, upd_wk (e\<lparr>ep_mem := h\<rparr>) widx (\<lambda>c. c\<lparr>cn_routes := m, cn_inflight := cn_inflight c + 1\<rparr>))
            }
          })"

definition route_free :: "ep_state \<Rightarrow> nat \<Rightarrow> ep_state option" where
  "route_free e r = do {
     rt \<leftarrow> ep_routes e r;
     e \<leftarrow> (if rt_edge_idx rt < length (ep_edges e) then do {
             (m, h) \<leftarrow> umap_del (cn_routes (ep_edges e ! rt_edge_idx rt)) (rt_up_sid rt) (ep_mem e);
             Some (upd_edge (e\<lparr>ep_mem := h\<rparr>) (rt_edge_idx rt) (\<lambda>c. c\<lparr>cn_routes := m\<rparr>))
           } else Some e);
     e \<leftarrow> (if rt_worker_idx rt < length (ep_wk e) then do {
             (m, h) \<leftarrow> umap_del (cn_routes (ep_wk e ! rt_worker_idx rt)) (rt_down_sid rt) (ep_mem e);
             Some (upd_wk (e\<lparr>ep_mem := h\<rparr>) (rt_worker_idx rt) (\<lambda>c. c\<lparr>cn_routes := m,
               cn_inflight := (if cn_inflight c \<noteq> 0 then cn_inflight c - 1 else cn_inflight c)\<rparr>))
           } else Some e);
     Some (e\<lparr>ep_routes := (ep_routes e)(r := None)\<rparr>)
   }"

text \<open>\<open>fwd\<close> and \<open>flush_pend\<close>: the two sessions and the buffer after it.\<close>

definition fwd ::
    "mux_session option \<Rightarrow> u32 \<Rightarrow> mux_session option \<Rightarrow> u32 \<Rightarrow> buf_t \<Rightarrow> bytes \<Rightarrow> heap \<Rightarrow>
     mux_session option \<times> mux_session option \<times> buf_t \<times> heap" where
  "fwd src src_sid dst dst_sid pend data h =
     (if buf_avail pend > 0 then
        (case router_buf_append pend data h of (ok, pend, h) \<Rightarrow> (src, dst, pend, h))
      else
        case via_write dst dst_sid data of (r, dst) \<Rightarrow>
          let src = (if accepted_by r > 0 then via_consume src src_sid (accepted_by r) else src);
              w = accepted_by r
          in if w < length data then
               (case router_buf_append pend (drop w data) h of (ok, pend, h) \<Rightarrow> (src, dst, pend, h))
             else (src, dst, pend, h))"

function flush_pend ::
    "mux_session option \<Rightarrow> u32 \<Rightarrow> mux_session option \<Rightarrow> u32 \<Rightarrow> buf_t \<Rightarrow>
     mux_session option \<times> mux_session option \<times> buf_t" where
  "flush_pend src src_sid dst dst_sid pend =
     (if \<not> buf_avail pend > 0 then (src, dst, pend)
      else
        case via_write dst dst_sid (buf_bytes pend) of (r, dst) \<Rightarrow>
          if accepted_by r = 0 then (src, dst, pend)
          else flush_pend (via_consume src src_sid (accepted_by r)) src_sid dst dst_sid
                 (buf_advance pend (accepted_by r)))"
  by pat_completeness auto
termination
  by (relation "measure (\<lambda>(src, ss, dst, ds, pend). buf_avail pend)")
    (auto simp: buf_avail_def buf_advance_def Let_def)

declare flush_pend.simps [simp del]

definition route_kill :: "ep_state \<Rightarrow> nat \<Rightarrow> bool \<Rightarrow> bool \<Rightarrow> ep_state option" where
  "route_kill e r rst_up rst_down = do {
     rt \<leftarrow> ep_routes e r;
     if rt_gone rt then Some e
     else
       let e = upd_route e r (\<lambda>rt. rt\<lparr>rt_gone := True\<rparr>);
           e = (if rst_up \<and> rt_edge_idx rt < length (ep_edges e) \<and> edge_mux e (rt_edge_idx rt) \<noteq> None then
                  set_edge_mux e (rt_edge_idx rt) (via_reset (edge_mux e (rt_edge_idx rt)) (rt_up_sid rt) MUX_CODE_INTERNAL)
                else e);
           e = (if rst_down \<and> wk_mux e (rt_worker_idx rt) \<noteq> None then
                  set_wk_mux e (rt_worker_idx rt) (via_reset (wk_mux e (rt_worker_idx rt)) (rt_down_sid rt) MUX_CODE_INTERNAL)
                else e)
       in route_free e r
   }"

section \<open>Events\<close>

text \<open>The cases of \<open>on_up_events\<close> with more than one statement.\<close>

definition up_opened :: "ep_state \<Rightarrow> nat \<Rightarrow> u32 \<Rightarrow> bytes option \<Rightarrow> ep_state option" where
  "up_opened e eidx sid meta =
     (case pick_worker e of
        (None, e) \<Rightarrow> Some (set_edge_mux e eidx (via_reset (edge_mux e eidx) sid MUX_CODE_REFUSED))
      | (Some widx, e) \<Rightarrow>
          (case via_open (wk_mux e widx) meta of (ds, m) \<Rightarrow>
             let e = set_wk_mux e widx m
             in case ds of
                  Inl _ \<Rightarrow> Some (set_edge_mux e eidx (via_reset (edge_mux e eidx) sid MUX_CODE_REFUSED))
                | Inr down \<Rightarrow> do {
                    (r, e) \<leftarrow> route_new e eidx sid widx down;
                    Some (case r of
                            Some _ \<Rightarrow> e
                          | None \<Rightarrow>
                              let e = set_edge_mux e eidx (via_reset (edge_mux e eidx) sid MUX_CODE_INTERNAL)
                              in set_wk_mux e widx (via_reset (wk_mux e widx) down MUX_CODE_INTERNAL))
                  }))"

definition up_data :: "ep_state \<Rightarrow> nat \<Rightarrow> u32 \<Rightarrow> bytes option \<Rightarrow> ep_state option" where
  "up_data e eidx sid data =
     (case umap_get (cn_routes (ep_edges e ! eidx)) sid of
        None \<Rightarrow> Some e
      | Some r \<Rightarrow> do {
          rt \<leftarrow> ep_routes e r;
          case fwd (edge_mux e eidx) (rt_up_sid rt) (wk_mux e (rt_worker_idx rt)) (rt_down_sid rt) (rt_u2w rt) (blob data) (ep_mem e) of
            (src, dst, pend, h) \<Rightarrow>
              Some (upd_route (set_wk_mux (set_edge_mux (e\<lparr>ep_mem := h\<rparr>) eidx src) (rt_worker_idx rt) dst) r
                     (\<lambda>rt. rt\<lparr>rt_u2w := pend\<rparr>))
        })"

definition up_writable :: "ep_state \<Rightarrow> nat \<Rightarrow> u32 \<Rightarrow> ep_state option" where
  "up_writable e eidx sid =
     (case umap_get (cn_routes (ep_edges e ! eidx)) sid of
        None \<Rightarrow> Some e
      | Some r \<Rightarrow> do {
          rt \<leftarrow> ep_routes e r;
          case flush_pend (wk_mux e (rt_worker_idx rt)) (rt_down_sid rt) (edge_mux e eidx) (rt_up_sid rt) (rt_w2u rt) of
            (src, dst, pend) \<Rightarrow>
              Some (upd_route (set_edge_mux (set_wk_mux e (rt_worker_idx rt) src) eidx dst) r
                     (\<lambda>rt. rt\<lparr>rt_w2u := pend\<rparr>))
        })"

definition up_closed :: "ep_state \<Rightarrow> nat \<Rightarrow> u32 \<Rightarrow> ep_state option" where
  "up_closed e eidx sid =
     (case umap_get (cn_routes (ep_edges e ! eidx)) sid of
        None \<Rightarrow> Some e
      | Some r \<Rightarrow> do {
          rt \<leftarrow> ep_routes e r;
          case flush_pend (edge_mux e eidx) (rt_up_sid rt) (wk_mux e (rt_worker_idx rt)) (rt_down_sid rt) (rt_u2w rt) of
            (src, dst, pend) \<Rightarrow>
              let e = set_wk_mux (set_edge_mux e eidx src) (rt_worker_idx rt) (via_close dst (rt_down_sid rt));
                  e = upd_route e r (\<lambda>rt. rt\<lparr>rt_u2w := pend, rt_up_fin := True\<rparr>)
              in if rt_down_fin rt then route_free e r else Some e
        })"

definition on_up_event :: "ep_state \<Rightarrow> nat \<Rightarrow> mux_event \<Rightarrow> ep_state option" where
  "on_up_event e eidx ev =
     (case ev of
        EV_PEER_HELLO hi \<Rightarrow> do {
          ok \<leftarrow> check_auth e hi;
          Some (if \<not> ok then set_edge_mux e eidx (via_goaway (edge_mux e eidx) MUX_CODE_REFUSED)
                else upd_edge e eidx (\<lambda>c. c\<lparr>cn_ready := True\<rparr>))
        }
      | EV_STREAM_OPENED sid meta \<Rightarrow> up_opened e eidx sid meta
      | EV_STREAM_DATA sid data \<Rightarrow> up_data e eidx sid data
      | EV_WRITABLE sid \<Rightarrow> up_writable e eidx sid
      | EV_STREAM_CLOSED sid \<Rightarrow> up_closed e eidx sid
      | EV_STREAM_RESET sid code \<Rightarrow>
          (case umap_get (cn_routes (ep_edges e ! eidx)) sid of
             None \<Rightarrow> Some e
           | Some r \<Rightarrow> route_kill e r False True)
      | _ \<Rightarrow> Some e)"

partial_function (option) on_up_events :: "ep_state \<Rightarrow> nat \<Rightarrow> ep_state option" where
  "on_up_events e eidx =
     (case Option.bind (edge_mux e eidx) mux_next_event of
        None \<Rightarrow> Some e
      | Some (ev, s) \<Rightarrow> do {
          ev \<leftarrow> ev;
          e \<leftarrow> on_up_event (set_edge_mux e eidx (Some s)) eidx ev;
          on_up_events e eidx
        })"

text \<open>The cases of \<open>on_worker_events\<close>.\<close>

definition wk_data :: "ep_state \<Rightarrow> nat \<Rightarrow> u32 \<Rightarrow> bytes option \<Rightarrow> ep_state option" where
  "wk_data e widx sid data =
     (case umap_get (cn_routes (ep_wk e ! widx)) sid of
        None \<Rightarrow> Some e
      | Some r \<Rightarrow> do {
          rt \<leftarrow> ep_routes e r;
          if \<not> rt_edge_idx rt < length (ep_edges e) \<or> edge_mux e (rt_edge_idx rt) = None then Some e
          else case fwd (wk_mux e widx) (rt_down_sid rt) (edge_mux e (rt_edge_idx rt)) (rt_up_sid rt) (rt_w2u rt) (blob data) (ep_mem e) of
            (src, dst, pend, h) \<Rightarrow>
              Some (upd_route (set_edge_mux (set_wk_mux (e\<lparr>ep_mem := h\<rparr>) widx src) (rt_edge_idx rt) dst) r
                     (\<lambda>rt. rt\<lparr>rt_w2u := pend\<rparr>))
        })"

definition wk_writable :: "ep_state \<Rightarrow> nat \<Rightarrow> u32 \<Rightarrow> ep_state option" where
  "wk_writable e widx sid =
     (case umap_get (cn_routes (ep_wk e ! widx)) sid of
        None \<Rightarrow> Some e
      | Some r \<Rightarrow> do {
          rt \<leftarrow> ep_routes e r;
          if \<not> rt_edge_idx rt < length (ep_edges e) \<or> edge_mux e (rt_edge_idx rt) = None then Some e
          else case flush_pend (edge_mux e (rt_edge_idx rt)) (rt_up_sid rt) (wk_mux e widx) (rt_down_sid rt) (rt_u2w rt) of
            (src, dst, pend) \<Rightarrow>
              Some (upd_route (set_wk_mux (set_edge_mux e (rt_edge_idx rt) src) widx dst) r
                     (\<lambda>rt. rt\<lparr>rt_u2w := pend\<rparr>))
        })"

definition wk_closed :: "ep_state \<Rightarrow> nat \<Rightarrow> u32 \<Rightarrow> ep_state option" where
  "wk_closed e widx sid =
     (case umap_get (cn_routes (ep_wk e ! widx)) sid of
        None \<Rightarrow> Some e
      | Some r \<Rightarrow> do {
          rt \<leftarrow> ep_routes e r;
          if \<not> rt_edge_idx rt < length (ep_edges e) \<or> edge_mux e (rt_edge_idx rt) = None then Some e
          else case flush_pend (wk_mux e widx) (rt_down_sid rt) (edge_mux e (rt_edge_idx rt)) (rt_up_sid rt) (rt_w2u rt) of
            (src, dst, pend) \<Rightarrow>
              let e = set_edge_mux (set_wk_mux e widx src) (rt_edge_idx rt) (via_close dst (rt_up_sid rt));
                  e = upd_route e r (\<lambda>rt. rt\<lparr>rt_w2u := pend, rt_down_fin := True\<rparr>)
              in if rt_up_fin rt then route_free e r else Some e
        })"

definition on_worker_event :: "ep_state \<Rightarrow> nat \<Rightarrow> mux_event \<Rightarrow> ep_state option" where
  "on_worker_event e widx ev =
     (case ev of
        EV_PEER_HELLO hi \<Rightarrow> do {
          ok \<leftarrow> check_auth e hi;
          Some (if \<not> ok then set_wk_mux e widx (via_goaway (wk_mux e widx) MUX_CODE_REFUSED)
                else upd_wk e widx (\<lambda>c. c\<lparr>cn_ready := True,
                       cn_weight := (if hi_weight hi \<noteq> 0 then hi_weight hi else 1), cn_swrr_cw := 0\<rparr>))
        }
      | EV_CAPACITY weight \<Rightarrow> Some (upd_wk e widx (\<lambda>c. c\<lparr>cn_weight := weight\<rparr>))
      | EV_STREAM_DATA sid data \<Rightarrow> wk_data e widx sid data
      | EV_WRITABLE sid \<Rightarrow> wk_writable e widx sid
      | EV_STREAM_CLOSED sid \<Rightarrow> wk_closed e widx sid
      | EV_STREAM_RESET sid code \<Rightarrow>
          (case umap_get (cn_routes (ep_wk e ! widx)) sid of
             None \<Rightarrow> Some e
           | Some r \<Rightarrow> route_kill e r True False)
      | EV_STREAM_OPENED sid meta \<Rightarrow>
          Some (set_wk_mux e widx (via_reset (wk_mux e widx) sid MUX_CODE_REFUSED))
      | _ \<Rightarrow> Some e)"

partial_function (option) on_worker_events :: "ep_state \<Rightarrow> nat \<Rightarrow> ep_state option" where
  "on_worker_events e widx =
     (case Option.bind (wk_mux e widx) mux_next_event of
        None \<Rightarrow> Some e
      | Some (ev, s) \<Rightarrow> do {
          ev \<leftarrow> ev;
          e \<leftarrow> on_worker_event (set_wk_mux e widx (Some s)) widx ev;
          on_worker_events e widx
        })"

section \<open>Losing a tunnel\<close>

text \<open>
  The two loops of \<open>drop_worker_routes\<close> and \<open>drop_edge_routes\<close>: reset the other side of every
  route in the map, then free the routes until the map is empty.
\<close>

fun reset_up :: "ep_state \<Rightarrow> nat mslot list \<Rightarrow> ep_state option" where
  "reset_up e [] = Some e"
| "reset_up e (sl # sls) =
     (if \<not> ms_used sl then reset_up e sls
      else case ms_v sl of
             None \<Rightarrow> reset_up e sls
           | Some r \<Rightarrow> do {
               rt \<leftarrow> ep_routes e r;
               let e = (if \<not> rt_gone rt \<and> rt_edge_idx rt < length (ep_edges e) \<and> edge_mux e (rt_edge_idx rt) \<noteq> None then
                          set_edge_mux e (rt_edge_idx rt) (via_reset (edge_mux e (rt_edge_idx rt)) (rt_up_sid rt) MUX_CODE_INTERNAL)
                        else e)
               in reset_up e sls
             })"

fun reset_down :: "ep_state \<Rightarrow> nat mslot list \<Rightarrow> ep_state option" where
  "reset_down e [] = Some e"
| "reset_down e (sl # sls) =
     (if \<not> ms_used sl then reset_down e sls
      else case ms_v sl of
             None \<Rightarrow> reset_down e sls
           | Some r \<Rightarrow> do {
               rt \<leftarrow> ep_routes e r;
               let e = (if \<not> rt_gone rt \<and> rt_worker_idx rt < length (ep_wk e) \<and> wk_mux e (rt_worker_idx rt) \<noteq> None then
                          set_wk_mux e (rt_worker_idx rt) (via_reset (wk_mux e (rt_worker_idx rt)) (rt_down_sid rt) MUX_CODE_INTERNAL)
                        else e)
               in reset_down e sls
             })"

datatype conn_ref = Edge nat | Wk nat

definition conn_at :: "ep_state \<Rightarrow> conn_ref \<Rightarrow> conn_t" where
  "conn_at e c = (case c of Edge i \<Rightarrow> ep_edges e ! i | Wk i \<Rightarrow> ep_wk e ! i)"

definition upd_conn :: "ep_state \<Rightarrow> conn_ref \<Rightarrow> (conn_t \<Rightarrow> conn_t) \<Rightarrow> ep_state" where
  "upd_conn e c f = (case c of Edge i \<Rightarrow> upd_edge e i f | Wk i \<Rightarrow> upd_wk e i f)"

partial_function (option) free_routes :: "ep_state \<Rightarrow> conn_ref \<Rightarrow> ep_state option" where
  "free_routes e c =
     (case find ms_used (um_s (cn_routes (conn_at e c))) of
        None \<Rightarrow> Some e
      | Some sl \<Rightarrow>
          (case ms_v sl of
             None \<Rightarrow> Some e
           | Some r \<Rightarrow> do {
               e \<leftarrow> route_free (upd_route e r (\<lambda>rt. rt\<lparr>rt_gone := True\<rparr>)) r;
               free_routes e c
             }))"

definition drop_worker_routes :: "ep_state \<Rightarrow> nat \<Rightarrow> ep_state option" where
  "drop_worker_routes e i = do {
     e \<leftarrow> reset_up e (um_s (cn_routes (ep_wk e ! i)));
     free_routes e (Wk i)
   }"

definition drop_edge_routes :: "ep_state \<Rightarrow> nat \<Rightarrow> ep_state option" where
  "drop_edge_routes e i = do {
     e \<leftarrow> reset_down e (um_s (cn_routes (ep_edges e ! i)));
     free_routes e (Edge i)
   }"

section \<open>Tunnel I/O\<close>

definition conn_flush :: "conn_t \<Rightarrow> sys_write list \<Rightarrow> bool \<times> conn_t \<times> sys_write list" where
  "conn_flush c ws =
     (case cn_mux c of
        None \<Rightarrow> (True, c, ws)
      | Some s \<Rightarrow> (case flush_loop s ws [] of (ok, s, ws, sent) \<Rightarrow> (ok, c\<lparr>cn_mux := Some s\<rparr>, ws)))"

text \<open>
  The \<open>mux_recv\<close> and the events after it, in \<open>conn_read\<close>: what \<open>mux_recv\<close> returned, and the
  state with the consumed bytes removed from the receive buffer.
\<close>

definition conn_pump :: "ep_state \<Rightarrow> conn_ref \<Rightarrow> ((mux_err + nat) \<times> ep_state) option" where
  "conn_pump e c =
     (let buf = cn_recv (conn_at e c)
      in case via (Inl MUX_ERR_PARAM) (\<lambda>s. mux_recv s (Some buf) (length buf)) (cn_mux (conn_at e c)) of
           (cc, m) \<Rightarrow> do {
             e \<leftarrow> (let e = upd_conn e c (\<lambda>c. c\<lparr>cn_mux := m\<rparr>)
                    in case c of Wk i \<Rightarrow> on_worker_events e i | Edge i \<Rightarrow> on_up_events e i);
             Some (cc, case cc of Inl _ \<Rightarrow> e | Inr n \<Rightarrow> upd_conn e c (\<lambda>c. c\<lparr>cn_recv := drop n (cn_recv c)\<rparr>))
           })"

partial_function (option) conn_read :: "ep_state \<Rightarrow> conn_ref \<Rightarrow> sys_read list \<Rightarrow> (bool \<times> ep_state \<times> sys_read list) option" where
  "conn_read e c rs =
     (let space = 262144 - length (cn_recv (conn_at e c))
      in if space = 0 then do {
           (cc, e) \<leftarrow> conn_pump e c;
           case cc of
             Inl _ \<Rightarrow> Some (False, e, rs)
           | Inr n \<Rightarrow> if n > 0 then conn_read e c rs else Some (True, e, rs)
         }
         else case rs of
           [] \<Rightarrow> Some (True, e, [])
         | r # rs \<Rightarrow>
             (case r of
                RdAgain \<Rightarrow> Some (True, e, rs)
              | RdErr \<Rightarrow> Some (False, e, rs)
              | RdEof \<Rightarrow> Some (False, e, rs)
              | RdData d \<Rightarrow>
                  let n = length (take space d)
                  in if n = 0 then Some (False, e, rs)
                     else do {
                       (cc, e) \<leftarrow> conn_pump (upd_conn e c (\<lambda>c. c\<lparr>cn_recv := cn_recv c @ take space d\<rparr>)) c;
                       case cc of
                         Inl _ \<Rightarrow> Some (False, e, rs)
                       | Inr _ \<Rightarrow> if n < space then Some (True, e, rs) else conn_read e c rs
                     }))"

definition conn_teardown :: "ep_state \<Rightarrow> conn_ref \<Rightarrow> u64 \<Rightarrow> ep_state option" where
  "conn_teardown e c now = do {
     e \<leftarrow> (case c of Wk i \<Rightarrow> drop_worker_routes e i | Edge i \<Rightarrow> drop_edge_routes e i);
     Some (upd_conn e c (\<lambda>c. c\<lparr>cn_mux := None, cn_fd := - 1, cn_connecting := False, cn_ready := False,
       cn_recv := [], cn_inflight := 0, cn_next_attempt := now + 500\<rparr>))
   }"

definition conn_tick_connect :: "conn_t \<Rightarrow> u64 \<Rightarrow> int \<Rightarrow> conn_t" where
  "conn_tick_connect c now dialed =
     (if cn_fd c \<ge> 0 then c
      else if now < cn_next_attempt c then c
      else if dialed < 0 then c\<lparr>cn_next_attempt := now + 1000\<rparr>
      else c\<lparr>cn_fd := dialed, cn_connecting := True\<rparr>)"

definition conn_finish_connect :: "ep_config \<Rightarrow> conn_t \<Rightarrow> bool \<Rightarrow> bytes \<Rightarrow> heap \<Rightarrow> u64 \<Rightarrow> sys_write list \<Rightarrow> (conn_t \<times> sys_write list) option" where
  "conn_finish_connect cfg c sock_error nonce h now ws =
     (if sock_error then Some (c\<lparr>cn_fd := - 1, cn_next_attempt := now + 1000\<rparr>, ws)
      else do {
        (mc, c) \<leftarrow> conn_build_cfg cfg c nonce;
        Some (case mux_session_new (Some mc) MUX_DIALER h of
                None \<Rightarrow> (c\<lparr>cn_mux := None, cn_fd := - 1, cn_next_attempt := now + 1000\<rparr>, ws)
              | Some s \<Rightarrow> (case conn_flush (c\<lparr>cn_mux := Some s, cn_connecting := False\<rparr>) ws of (ok, c, ws) \<Rightarrow> (c, ws)))
      })"

section \<open>The main loop\<close>

text \<open>
  The parts of \<open>ep_run\<close> around \<open>poll\<close>: the initial state, the timers of one tunnel, the events
  asked of \<open>poll\<close> (read, write) and the handling of those it reported for a tunnel.
\<close>

definition conn_zero :: conn_t where
  "conn_zero = \<lparr>cn_addr = [], cn_fd = - 1, cn_connecting = False, cn_mux = None, cn_ready = False, cn_recv = [],
     cn_next_attempt = 0, cn_is_worker = False, cn_idx = 0, cn_weight = 0, cn_swrr_cw = 0, cn_inflight = 0,
     cn_routes = umap_zero, cn_is_edge = False, cn_nonce = replicate 16 0, cn_proof = replicate 32 0\<rparr>"

definition ep_start :: "ep_config \<Rightarrow> heap \<Rightarrow> ep_state" where
  "ep_start cfg h =
     \<lparr>ep_cfg = cfg,
      ep_edges = map (\<lambda>i. conn_zero\<lparr>cn_addr := ec_edges cfg ! i, cn_is_edge := True, cn_idx := i\<rparr>) [0..<length (ec_edges cfg)],
      ep_wk = map (\<lambda>i. conn_zero\<lparr>cn_addr := ec_workers cfg ! i, cn_is_worker := True, cn_idx := i\<rparr>) [0..<length (ec_workers cfg)],
      ep_routes = Map.empty, ep_next = 0, ep_mem = h\<rparr>"

definition ep_tick :: "ep_state \<Rightarrow> conn_ref \<Rightarrow> u64 \<Rightarrow> sys_write list \<Rightarrow> ep_state option" where
  "ep_tick e c t ws =
     (case cn_mux (conn_at e c) of
        None \<Rightarrow> Some e
      | Some s \<Rightarrow> do {
          e \<leftarrow> (let e = upd_conn e c (\<lambda>c. c\<lparr>cn_mux := Some (snd (mux_on_timer s t))\<rparr>)
                 in case c of Edge i \<Rightarrow> on_up_events e i | Wk i \<Rightarrow> on_worker_events e i);
          Some (upd_conn e c (\<lambda>c. fst (snd (conn_flush c ws))))
        })"

definition poll_events :: "conn_t \<Rightarrow> (bool \<times> bool) option" where
  "poll_events c =
     (if cn_fd c \<ge> 0 then
        if cn_connecting c then Some (False, True)
        else let op = (case cn_mux c of None \<Rightarrow> 0 | Some s \<Rightarrow> mux_out_pending s)
             in Some (op < 4 * 2 ^ 20, op \<noteq> 0)
      else None)"

definition ep_dispatch ::
    "ep_state \<Rightarrow> conn_ref \<Rightarrow> bool \<Rightarrow> bool \<Rightarrow> bool \<Rightarrow> u64 \<Rightarrow> bool \<Rightarrow> bytes \<Rightarrow> sys_read list \<Rightarrow> sys_write list \<Rightarrow> ep_state option" where
  "ep_dispatch e c pollin pollout pollerr now sock_error nonce rs ws =
     (if \<not> (pollin \<or> pollout \<or> pollerr) then Some e
      else if cn_connecting (conn_at e c) then
        if pollout \<or> pollerr then do {
          (c', ws) \<leftarrow> conn_finish_connect (ep_cfg e) (conn_at e c) sock_error nonce (ep_mem e) now ws;
          Some (upd_conn e c (\<lambda>_. c'))
        } else Some e
      else do {
        (ok, e, rs) \<leftarrow> (if pollin \<or> pollerr then conn_read e c rs else Some (True, e, rs));
        if \<not> ok then conn_teardown e c now
        else if cn_fd (conn_at e c) \<ge> 0 \<and> pollout then
          (case conn_flush (conn_at e c) ws of
             (ok, c', ws) \<Rightarrow> let e = upd_conn e c (\<lambda>_. c') in if \<not> ok then conn_teardown e c now else Some e)
        else Some e
      })"

end
