(* ===== verification/Mux_Swrr.thy ===== *)
theory Mux_Swrr
  imports Mux_Router
begin

text \<open>
  The balancing of \<open>pick_worker\<close> (\<^verbatim>\<open>src/edge-peer/router.c\<close>): smooth weighted round robin over
  the workers that are ready and have a positive weight. The counter of a worker after some
  picks is a function of how often it was picked, which gives the shares.
\<close>

definition eligible :: "conn_t \<Rightarrow> bool" where
  "eligible w \<longleftrightarrow> cn_ready w \<and> cn_weight w \<noteq> 0"

definition bump :: "conn_t \<Rightarrow> conn_t" where
  "bump w = (if eligible w then w\<lparr>cn_swrr_cw := cn_swrr_cw w + uint (cn_weight w)\<rparr> else w)"

definition weight_sum :: "conn_t list \<Rightarrow> int" where
  "weight_sum ws = (\<Sum>w \<leftarrow> filter eligible ws. uint (cn_weight w))"

lemma weight_sum_simps [simp]:
  "weight_sum [] = 0" "weight_sum (w # ws) = (if eligible w then uint (cn_weight w) else 0) + weight_sum ws"
  by (simp_all add: weight_sum_def)

lemma weight_pos: "eligible w \<Longrightarrow> 0 < uint (cn_weight w)"
  by (metis eligible_def uint_0_iff uint_ge_0 order_le_less)

section \<open>One pick\<close>

definition best_in :: "conn_t list \<Rightarrow> nat \<Rightarrow> bool" where
  "best_in ws j \<longleftrightarrow> j < length ws \<and> eligible (ws ! j) \<and>
     (\<forall>w \<in> set ws. eligible w \<longrightarrow> cn_swrr_cw (bump w) \<le> cn_swrr_cw (bump (ws ! j)))"

lemma pick_loop_map: "pick_loop ws i tot best bc = (ws', t', best') \<Longrightarrow> ws' = map bump ws \<and> t' = tot + weight_sum ws"
proof (induction ws arbitrary: i tot best bc ws' t' best')
  case (Cons w ws)
  obtain ws2 t2 b2 where p: "pick_loop ws (i + 1) tot best bc = (ws2, t2, b2)" by (metis prod_cases3)
  show ?case
  proof (cases "eligible w")
    case False
    then have "ws' = w # ws2" "t' = t2" using Cons.prems p by (auto simp: eligible_def)
    then show ?thesis using Cons.IH [OF p] False by (simp add: bump_def)
  next
    case True
    let ?cw = "cn_swrr_cw w + uint (cn_weight w)"
    let ?b = "if best = None \<or> ?cw > bc then Some i else best" and ?c = "if best = None \<or> ?cw > bc then ?cw else bc"
    obtain ws2 t2 b2 where p: "pick_loop ws (i + 1) (tot + uint (cn_weight w)) ?b ?c = (ws2, t2, b2)" by (metis prod_cases3)
    have "ws' = bump w # ws2" "t' = t2" using Cons.prems True p by (auto simp: eligible_def bump_def Let_def split: if_splits)
    then show ?thesis using Cons.IH [OF p] True by simp
  qed
qed auto

lemma pick_loop_best:
  assumes "pick_loop ws i tot best bc = (ws', t', best')"
  shows "(best' = None \<longleftrightarrow> best = None \<and> \<not> (\<exists>w \<in> set ws. eligible w)) \<and>
    (\<forall>b. best' = Some b \<longrightarrow>
       best = Some b \<and> (\<forall>w \<in> set ws. eligible w \<longrightarrow> cn_swrr_cw (bump w) \<le> bc) \<or>
       (\<exists>j. b = i + j \<and> best_in ws j \<and> (best \<noteq> None \<longrightarrow> bc < cn_swrr_cw (bump (ws ! j)))))"
  using assms
proof (induction ws arbitrary: i tot best bc ws' t' best')
  case (Cons w ws)
  show ?case
  proof (cases "eligible w")
    case False
    obtain ws2 t2 b2 where p: "pick_loop ws (i + 1) tot best bc = (ws2, t2, b2)" by (metis prod_cases3)
    have b2: "best' = b2" using Cons.prems False p by (auto simp: eligible_def)
    have shift: "best_in ws j \<Longrightarrow> best_in (w # ws) (Suc j)" for j using False by (auto simp: best_in_def)
    show ?thesis using Cons.IH [OF p] False b2 shift by (auto intro: exI [of _ "Suc _"])
  next
    case True
    let ?cw = "cn_swrr_cw (bump w)"
    let ?b = "if best = None \<or> ?cw > bc then Some i else best" and ?c = "if best = None \<or> ?cw > bc then ?cw else bc"
    have cw: "?cw = cn_swrr_cw w + uint (cn_weight w)" using True by (simp add: bump_def)
    obtain ws2 t2 b2 where p: "pick_loop ws (i + 1) (tot + uint (cn_weight w)) ?b ?c = (ws2, t2, b2)" by (metis prod_cases3)
    have b2: "best' = b2" using Cons.prems True p by (auto simp: eligible_def Let_def cw split: if_splits)
    note IH = Cons.IH [OF p]
    have shift: "best_in ws j \<Longrightarrow> ?cw \<le> cn_swrr_cw (bump (ws ! j)) \<Longrightarrow> best_in (w # ws) (Suc j)" for j
      by (auto simp: best_in_def)
    have here: "(\<forall>x \<in> set ws. eligible x \<longrightarrow> cn_swrr_cw (bump x) \<le> ?cw) \<Longrightarrow> best_in (w # ws) 0" using True by (auto simp: best_in_def)
    have "best = Some b \<and> (\<forall>x \<in> set (w # ws). eligible x \<longrightarrow> cn_swrr_cw (bump x) \<le> bc) \<or>
       (\<exists>j. b = i + j \<and> best_in (w # ws) j \<and> (best \<noteq> None \<longrightarrow> bc < cn_swrr_cw (bump ((w # ws) ! j))))"
      if b: "best' = Some b" for b
    proof (cases "best = None \<or> ?cw > bc")
      case new: True
      then consider "b = i" "\<forall>x \<in> set ws. eligible x \<longrightarrow> cn_swrr_cw (bump x) \<le> ?cw"
        | j where "b = i + Suc j" "best_in ws j" "?cw < cn_swrr_cw (bump (ws ! j))"
        using IH b b2 by auto
      then show ?thesis
      proof cases
        case 1
        then show ?thesis using here new by (intro disjI2 exI [of _ 0]) auto
      next
        case 2
        then show ?thesis using shift [of j] new by (intro disjI2 exI [of _ "Suc j"]) auto
      qed
    next
      case old: False
      then have "?cw \<le> bc" by simp
      then show ?thesis using IH b b2 old shift True by (auto intro: exI [of _ "Suc _"])
    qed
    moreover have "best' \<noteq> None" using IH b2 by (auto split: if_splits)
    ultimately show ?thesis using True by auto
  qed
qed auto

lemma pick_worker_spec:
  assumes "\<exists>w \<in> set (ep_wk e). eligible w"
  obtains b where "best_in (ep_wk e) b"
    "pick_worker e = (Some b, e\<lparr>ep_wk := (map bump (ep_wk e))[b := (bump (ep_wk e ! b))
       \<lparr>cn_swrr_cw := cn_swrr_cw (bump (ep_wk e ! b)) - weight_sum (ep_wk e)\<rparr>]\<rparr>)"
proof -
  obtain ws t best where p: "pick_loop (ep_wk e) 0 0 None 0 = (ws, t, best)" by (metis prod_cases3)
  note m = pick_loop_map [OF p] and b = pick_loop_best [OF p]
  obtain j where j: "best = Some j" "best_in (ep_wk e) j" using b assms by (cases best) auto
  then have "j < length (ep_wk e)" by (simp add: best_in_def)
  then show thesis using that [of j] j m p by (simp add: pick_worker_def upd_wk_def)
qed

section \<open>Many picks\<close>

fun pick_many :: "nat \<Rightarrow> ep_state \<Rightarrow> nat option list \<times> ep_state" where
  "pick_many 0 e = ([], e)"
| "pick_many (Suc n) e = (case pick_many n e of (rs, e) \<Rightarrow> case pick_worker e of (r, e) \<Rightarrow> (rs @ [r], e))"

definition after_picks :: "conn_t list \<Rightarrow> nat list \<Rightarrow> nat \<Rightarrow> conn_t" where
  "after_picks ws ps i =
     (if eligible (ws ! i) then
        (ws ! i)\<lparr>cn_swrr_cw := int (length ps) * uint (cn_weight (ws ! i)) - weight_sum ws * int (count_list ps i)\<rparr>
      else ws ! i)"

definition swrr_state :: "conn_t list \<Rightarrow> nat list \<Rightarrow> conn_t list" where
  "swrr_state ws ps = map (after_picks ws ps) [0..<length ws]"

definition elig_ix :: "conn_t list \<Rightarrow> nat set" where
  "elig_ix ws = {i. i < length ws \<and> eligible (ws ! i)}"

lemma finite_elig_ix [simp]: "finite (elig_ix ws)"
  by (simp add: elig_ix_def)

lemma weight_sum_ix: "weight_sum ws = (\<Sum>i \<in> elig_ix ws. uint (cn_weight (ws ! i)))"
proof -
  have "weight_sum ws = (\<Sum>i < length ws. if eligible (ws ! i) then uint (cn_weight (ws ! i)) else 0)"
  proof (induction ws)
    case (Cons w ws)
    then show ?case unfolding length_Cons sum.lessThan_Suc_shift by (simp only: weight_sum_simps nth_Cons_0 nth_Cons_Suc)
  qed simp
  also have "\<dots> = (\<Sum>i \<in> {i \<in> {..<length ws}. eligible (ws ! i)}. uint (cn_weight (ws ! i)))"
    by (rule sum.inter_filter [symmetric]) simp
  finally show ?thesis by (simp add: elig_ix_def)
qed

lemma after_picks_same [simp]:
  "eligible (after_picks ws ps i) \<longleftrightarrow> eligible (ws ! i)" "cn_weight (after_picks ws ps i) = cn_weight (ws ! i)"
  by (auto simp: after_picks_def eligible_def)

lemma swrr_state_nth [simp]: "length (swrr_state ws ps) = length ws" "i < length ws \<Longrightarrow> swrr_state ws ps ! i = after_picks ws ps i"
  by (simp_all add: swrr_state_def)

lemma swrr_state_ix [simp]: "elig_ix (swrr_state ws ps) = elig_ix ws" "weight_sum (swrr_state ws ps) = weight_sum ws"
proof -
  show ix: "elig_ix (swrr_state ws ps) = elig_ix ws" by (auto simp: elig_ix_def)
  show "weight_sum (swrr_state ws ps) = weight_sum ws" unfolding weight_sum_ix ix by (rule sum.cong) (auto simp: elig_ix_def)
qed

lemma swrr_state_start:
  assumes "\<forall>w \<in> set ws. eligible w \<longrightarrow> cn_swrr_cw w = 0"
  shows "swrr_state ws [] = ws"
  using assms by (intro nth_equalityI) (auto simp: after_picks_def)

text \<open>The counters sum to 0.\<close>

lemma counters_sum:
  assumes "set ps \<subseteq> elig_ix ws"
  shows "(\<Sum>i \<in> elig_ix ws. cn_swrr_cw (after_picks ws ps i)) = 0"
proof -
  have "(\<Sum>i \<in> elig_ix ws. cn_swrr_cw (after_picks ws ps i)) =
      (\<Sum>i \<in> elig_ix ws. int (length ps) * uint (cn_weight (ws ! i)) - weight_sum ws * int (count_list ps i))"
    by (rule sum.cong) (auto simp: after_picks_def elig_ix_def)
  also have "\<dots> = int (length ps) * weight_sum ws - weight_sum ws * (\<Sum>i \<in> elig_ix ws. int (count_list ps i))"
    by (simp add: sum_subtractf sum_distrib_left weight_sum_ix)
  also have "(\<Sum>i \<in> elig_ix ws. int (count_list ps i)) = int (length ps)"
    using sum_count_set [OF assms] by (simp flip: of_nat_sum)
  finally show ?thesis by simp
qed

lemma swrr_step:
  assumes ps: "set ps \<subseteq> elig_ix ws" and ne: "elig_ix ws \<noteq> {}"
    and low: "\<forall>i \<in> elig_ix ws. - weight_sum ws < cn_swrr_cw (after_picks ws ps i)"
    and e: "ep_wk e = swrr_state ws ps"
  obtains b where "b \<in> elig_ix ws" "pick_worker e = (Some b, e\<lparr>ep_wk := swrr_state ws (ps @ [b])\<rparr>)"
    "\<forall>i \<in> elig_ix ws. - weight_sum ws < cn_swrr_cw (after_picks ws (ps @ [b]) i)"
proof -
  define S where "S = swrr_state ws ps"
  have W: "0 < weight_sum ws"
    unfolding weight_sum_ix using ne weight_pos by (intro sum_pos) (auto simp: elig_ix_def)
  have "\<exists>w \<in> set (ep_wk e). eligible w" using ne unfolding e by (auto simp: elig_ix_def swrr_state_def)
  then obtain b where b: "best_in S b" and pw: "pick_worker e = (Some b, e\<lparr>ep_wk := (map bump S)[b := (bump (S ! b))
       \<lparr>cn_swrr_cw := cn_swrr_cw (bump (S ! b)) - weight_sum S\<rparr>]\<rparr>)"
    using pick_worker_spec [of e] unfolding e S_def by blast
  have bi: "b < length ws" "eligible (ws ! b)" using b by (auto simp: best_in_def S_def)
  have cw: "cn_swrr_cw (after_picks ws (ps @ [b]) i) =
      cn_swrr_cw (after_picks ws ps i) + uint (cn_weight (ws ! i)) - (if i = b then weight_sum ws else 0)"
    if "i \<in> elig_ix ws" for i
    using that by (simp add: after_picks_def elig_ix_def algebra_simps)
  have eq: "(map bump S)[b := (bump (S ! b))\<lparr>cn_swrr_cw := cn_swrr_cw (bump (S ! b)) - weight_sum S\<rparr>] = swrr_state ws (ps @ [b])"
  proof (rule nth_equalityI)
    fix i assume "i < length ((map bump S)[b := (bump (S ! b))\<lparr>cn_swrr_cw := cn_swrr_cw (bump (S ! b)) - weight_sum S\<rparr>])"
    then have i: "i < length ws" by (simp add: S_def)
    have "bump (S ! i) = (if eligible (ws ! i) then (S ! i)\<lparr>cn_swrr_cw := cn_swrr_cw (S ! i) + uint (cn_weight (ws ! i))\<rparr> else S ! i)"
      using i by (simp add: S_def bump_def)
    then show "(map bump S)[b := (bump (S ! b))\<lparr>cn_swrr_cw := cn_swrr_cw (bump (S ! b)) - weight_sum S\<rparr>] ! i = swrr_state ws (ps @ [b]) ! i"
      using bi i by (cases "i = b") (simp_all add: S_def after_picks_def algebra_simps)
  qed (simp add: S_def)
  have "0 < cn_swrr_cw (after_picks ws ps b) + uint (cn_weight (ws ! b))"
  proof (rule ccontr)
    assume neg: "\<not> ?thesis"
    have "cn_swrr_cw (after_picks ws ps i) + uint (cn_weight (ws ! i)) \<le> 0" if i: "i \<in> elig_ix ws" for i
    proof -
      have "i < length S" "eligible (S ! i)" using i by (auto simp: elig_ix_def S_def)
      then have "S ! i \<in> set S" "eligible (S ! i)" by simp_all
      then have "cn_swrr_cw (bump (S ! i)) \<le> cn_swrr_cw (bump (S ! b))" using b by (simp add: best_in_def)
      then show ?thesis using neg i bi by (simp add: S_def bump_def elig_ix_def)
    qed
    then have "(\<Sum>i \<in> elig_ix ws. cn_swrr_cw (after_picks ws ps i) + uint (cn_weight (ws ! i))) \<le> 0"
      by (rule sum_nonpos)
    then show False using W counters_sum [OF ps] by (simp add: sum.distrib weight_sum_ix)
  qed
  moreover have be: "b \<in> elig_ix ws" using bi by (simp add: elig_ix_def)
  moreover have "- weight_sum ws < cn_swrr_cw (after_picks ws ps i) + uint (cn_weight (ws ! i))" if "i \<in> elig_ix ws" for i
    using low that weight_pos [of "ws ! i"] by (fastforce simp: elig_ix_def)
  ultimately have "\<forall>i \<in> elig_ix ws. - weight_sum ws < cn_swrr_cw (after_picks ws (ps @ [b]) i)" using cw by auto
  then show thesis using that [OF be] pw eq by simp
qed

lemma pick_many_form:
  assumes ne: "elig_ix (ep_wk e) \<noteq> {}" and start: "\<forall>w \<in> set (ep_wk e). eligible w \<longrightarrow> cn_swrr_cw w = 0"
  shows "\<exists>ps. pick_many n e = (map Some ps, e\<lparr>ep_wk := swrr_state (ep_wk e) ps\<rparr>) \<and> length ps = n \<and>
    set ps \<subseteq> elig_ix (ep_wk e) \<and>
    (\<forall>i \<in> elig_ix (ep_wk e). - weight_sum (ep_wk e) < cn_swrr_cw (after_picks (ep_wk e) ps i))"
proof (induction n)
  case 0
  have "0 < weight_sum (ep_wk e)"
    unfolding weight_sum_ix using ne weight_pos by (intro sum_pos) (auto simp: elig_ix_def)
  then show ?case using swrr_state_start [OF start] by (intro exI [of _ "[]"]) (simp add: after_picks_def elig_ix_def)
next
  case (Suc n)
  let ?ws = "ep_wk e"
  from Suc obtain ps where ps: "pick_many n e = (map Some ps, e\<lparr>ep_wk := swrr_state ?ws ps\<rparr>)" "length ps = n" "set ps \<subseteq> elig_ix ?ws"
    "\<forall>i \<in> elig_ix ?ws. - weight_sum ?ws < cn_swrr_cw (after_picks ?ws ps i)" by blast
  have wk: "ep_wk (e\<lparr>ep_wk := swrr_state ?ws ps\<rparr>) = swrr_state ?ws ps" by simp
  obtain b where b: "b \<in> elig_ix ?ws"
    "pick_worker (e\<lparr>ep_wk := swrr_state ?ws ps\<rparr>) = (Some b, (e\<lparr>ep_wk := swrr_state ?ws ps\<rparr>)\<lparr>ep_wk := swrr_state ?ws (ps @ [b])\<rparr>)"
    "\<forall>i \<in> elig_ix ?ws. - weight_sum ?ws < cn_swrr_cw (after_picks ?ws (ps @ [b]) i)"
    by (rule swrr_step [OF ps(3) ne ps(4) wk])
  have "pick_many (Suc n) e = (map Some (ps @ [b]), e\<lparr>ep_wk := swrr_state ?ws (ps @ [b])\<rparr>)" using ps(1) b(2) by simp
  moreover have "length (ps @ [b]) = Suc n" "set (ps @ [b]) \<subseteq> elig_ix ?ws" using ps(2,3) b(1) by auto
  ultimately show ?case using b(3) by blast
qed

text \<open>A full cycle: nobody above the weight, and the total is the sum of the weights.\<close>

lemma full_cycle:
  assumes len: "length ps = nat (weight_sum ws)" and ps: "set ps \<subseteq> elig_ix ws" and W: "0 < weight_sum ws"
    and low: "\<forall>i \<in> elig_ix ws. - weight_sum ws < cn_swrr_cw (after_picks ws ps i)" and i: "i \<in> elig_ix ws"
  shows "int (count_list ps i) = uint (cn_weight (ws ! i))"
proof -
  have le: "int (count_list ps i) \<le> uint (cn_weight (ws ! i))" if "i \<in> elig_ix ws" for i
  proof -
    have "- weight_sum ws < weight_sum ws * uint (cn_weight (ws ! i)) - weight_sum ws * int (count_list ps i)"
      using low that len W by (auto simp: after_picks_def elig_ix_def)
    then have "weight_sum ws * int (count_list ps i) < weight_sum ws * (uint (cn_weight (ws ! i)) + 1)"
      by (simp add: algebra_simps)
    then show ?thesis using W by (simp add: mult_less_cancel_left_pos)
  qed
  have "(\<Sum>j \<in> elig_ix ws. uint (cn_weight (ws ! j)) - int (count_list ps j)) = 0"
    using sum_count_set [OF ps] len W by (simp add: sum_subtractf weight_sum_ix flip: of_nat_sum)
  then have "\<forall>j \<in> elig_ix ws. uint (cn_weight (ws ! j)) - int (count_list ps j) = 0"
    using le sum_nonneg_eq_0_iff [of "elig_ix ws" "\<lambda>j. uint (cn_weight (ws ! j)) - int (count_list ps j)"] by simp
  then show ?thesis using i by simp
qed

text \<open>
  C15. Balancing is fair. Let the ready workers with a positive weight not change, their
  weights sum to \<open>W\<close>, and their counters start at 0, as a worker's HELLO sets them. Then in
  \<open>W\<close> successive picks every such worker is picked exactly as often as its weight says, no
  other worker is picked, and the state is the one at the start; and at every moment
  before, no worker was picked more than its proportional share, rounded up.
\<close>

theorem swrr_fair:
  assumes "\<exists>w \<in> set (ep_wk e). eligible w" "\<forall>w \<in> set (ep_wk e). eligible w \<longrightarrow> cn_swrr_cw w = 0"
    and W: "W = weight_sum (ep_wk e)"
  shows "(\<exists>ps. pick_many (nat W) e = (map Some ps, e) \<and>
       (\<forall>i < length (ep_wk e). count_list ps i = (if eligible (ep_wk e ! i) then unat (cn_weight (ep_wk e ! i)) else 0))) \<and>
    (\<forall>n. \<exists>ps e'. pick_many n e = (map Some ps, e') \<and> length ps = n \<and> set ps \<subseteq> elig_ix (ep_wk e) \<and>
       (\<forall>i \<in> elig_ix (ep_wk e). W * int (count_list ps i) < int n * uint (cn_weight (ep_wk e ! i)) + W))"
proof (intro conjI allI)
  let ?ws = "ep_wk e"
  have ne: "elig_ix ?ws \<noteq> {}" using assms(1) by (auto simp: elig_ix_def in_set_conv_nth)
  have W0: "0 < weight_sum ?ws"
    unfolding weight_sum_ix using ne weight_pos by (intro sum_pos) (auto simp: elig_ix_def)
  note form = pick_many_form [OF ne assms(2)]
  show "\<exists>ps. pick_many (nat W) e = (map Some ps, e) \<and>
      (\<forall>i < length ?ws. count_list ps i = (if eligible (?ws ! i) then unat (cn_weight (?ws ! i)) else 0))"
  proof -
    obtain ps where ps: "pick_many (nat W) e = (map Some ps, e\<lparr>ep_wk := swrr_state ?ws ps\<rparr>)" "length ps = nat W"
      "set ps \<subseteq> elig_ix ?ws" "\<forall>i \<in> elig_ix ?ws. - weight_sum ?ws < cn_swrr_cw (after_picks ?ws ps i)" using form by blast
    have c: "int (count_list ps i) = uint (cn_weight (?ws ! i))" if "i \<in> elig_ix ?ws" for i
      using full_cycle [OF _ ps(3) W0 ps(4) that] ps(2) W by simp
    have "swrr_state ?ws ps ! i = ?ws ! i" if "i < length ?ws" for i
    proof (cases "eligible (?ws ! i)")
      case True
      then have "cn_swrr_cw (?ws ! i) = 0" using assms(2) that by simp
      then show ?thesis using c [of i] True that ps(2) W0 W by (simp add: after_picks_def elig_ix_def)
    qed (use that in \<open>simp add: after_picks_def\<close>)
    then have "swrr_state ?ws ps = ?ws" by (intro nth_equalityI) auto
    moreover have "count_list ps i = (if eligible (?ws ! i) then unat (cn_weight (?ws ! i)) else 0)" if "i < length ?ws" for i
    proof (cases "eligible (?ws ! i)")
      case True
      then have "int (count_list ps i) = uint (cn_weight (?ws ! i))" using c that by (simp add: elig_ix_def)
      then have "nat (int (count_list ps i)) = unat (cn_weight (?ws ! i))" by (simp only: unat_eq_nat_uint)
      then show ?thesis using True by simp
    next
      case False
      then have "i \<notin> set ps" using ps(3) by (auto simp: elig_ix_def)
      then show ?thesis using False by (simp add: count_list_0_iff)
    qed
    ultimately show ?thesis using ps(1) by (intro exI [of _ ps]) simp
  qed
  fix n
  obtain ps where ps: "pick_many n e = (map Some ps, e\<lparr>ep_wk := swrr_state ?ws ps\<rparr>)" "length ps = n"
    "set ps \<subseteq> elig_ix ?ws" "\<forall>i \<in> elig_ix ?ws. - weight_sum ?ws < cn_swrr_cw (after_picks ?ws ps i)" using form by blast
  have "W * int (count_list ps i) < int n * uint (cn_weight (?ws ! i)) + W" if "i \<in> elig_ix ?ws" for i
    using ps(2,4) that W by (auto simp: after_picks_def elig_ix_def)
  then show "\<exists>ps e'. pick_many n e = (map Some ps, e') \<and> length ps = n \<and> set ps \<subseteq> elig_ix ?ws \<and>
      (\<forall>i \<in> elig_ix ?ws. W * int (count_list ps i) < int n * uint (cn_weight (?ws ! i)) + W)"
    using ps(1-3) by blast
qed

text \<open>Two ready workers of weight 2 and 1, and one that is draining.\<close>

definition wit_pool :: ep_state where
  "wit_pool = (ep_start \<lparr>ec_edges = [], ec_workers = [], ec_token = None, ec_peer_id = None,
       ec_init_window = 0, ec_session_window = 0, ec_heartbeat_ms = 0\<rparr> [])
     \<lparr>ep_wk := [conn_zero\<lparr>cn_ready := True, cn_weight := 2\<rparr>, conn_zero\<lparr>cn_ready := True, cn_weight := 0\<rparr>,
                conn_zero\<lparr>cn_ready := True, cn_weight := 1\<rparr>]\<rparr>"

theorem swrr_fair_witness:
  "\<exists>ps. pick_many 3 wit_pool = (map Some ps, wit_pool) \<and> count_list ps 0 = 2 \<and> count_list ps 1 = 0 \<and> count_list ps 2 = 1"
proof -
  have e: "\<exists>w \<in> set (ep_wk wit_pool). eligible w" "\<forall>w \<in> set (ep_wk wit_pool). eligible w \<longrightarrow> cn_swrr_cw w = 0"
    "3 = weight_sum (ep_wk wit_pool)"
    by (simp_all add: wit_pool_def eligible_def conn_zero_def)
  obtain ps where "pick_many (nat 3) wit_pool = (map Some ps, wit_pool)"
    "\<forall>i < length (ep_wk wit_pool). count_list ps i = (if eligible (ep_wk wit_pool ! i) then unat (cn_weight (ep_wk wit_pool ! i)) else 0)"
    using swrr_fair [OF e] by blast
  then show ?thesis by (intro exI [of _ ps]) (simp add: wit_pool_def eligible_def conn_zero_def nth_Cons')
qed

end
