(* ===== verification/Mux_Libpeer.thy ===== *)
theory Mux_Libpeer
  imports Mux_Transport Mux_Umap Mux_Bytebuf "HOL-Library.Monad_Syntax"
begin

text \<open>
  The worker SDK, \<^verbatim>\<open>src/libpeer/src/libpeer.c\<close>: one I/O thread owns the session, application
  threads work on per-stream buffers, and both run under one mutex. Every critical section
  is a function on the client's state, so an execution is a sequence of such functions. The
  object behind a \<open>lp_stream *\<close> is in the store \<open>lc_store\<close>; freeing it removes it, and
  \<open>None\<close> as a result is an access to a freed object or through a null table. The intrusive
  lists (accept queue, pending list, ready list, list of all streams) are lists of pointers,
  head first. Signals to condition variables have no state; a blocking call that would wait
  is \<open>Blocks\<close>. The two self-pipes are the number of bytes in them.
\<close>

unbundle bit_operations_syntax

section \<open>Data\<close>

definition LP_WBUF_HIGH :: nat where "LP_WBUF_HIGH = 2 ^ 20"

definition LP_ACCEPT :: u32 where "LP_ACCEPT = 1"
definition LP_READABLE :: u32 where "LP_READABLE = 2"
definition LP_WRITABLE :: u32 where "LP_WRITABLE = 4"
definition LP_CLOSED :: u32 where "LP_CLOSED = 8"

record lp_stream =
  ls_sid :: u32
  ls_in_reg :: bool
  ls_rbuf :: buf_t
  ls_wbuf :: buf_t
  ls_consume_pending :: nat
  ls_eof :: bool
  ls_reset :: bool
  ls_app_closed :: bool
  ls_fin_sent :: bool
  ls_proto_done :: bool
  ls_meta :: bytes
  ls_in_pending :: bool
  ls_ev_pending :: u32
  ls_in_ready :: bool
  ls_want_writable :: bool

record lp_config =
  lf_listen_addr :: "bytes option"
  lf_host :: "bytes option"
  lf_token :: "bytes option"
  lf_peer_id :: "bytes option"
  lf_weight :: u32
  lf_init_window :: u32
  lf_session_window :: u32
  lf_heartbeat_ms :: u32

record lp_client =
  lc_cfg :: lp_config
  lc_stopping :: bool
  lc_fd :: int
  lc_mux :: "mux_session option"
  lc_authed :: bool
  lc_nonce :: bytes
  lc_proof :: bytes
  lc_reg :: "nat umap"
  lc_accept :: "nat list"
  lc_pending :: "nat list"
  lc_all :: "nat list"
  lc_poll_mode :: bool
  lc_wake :: nat
  lc_notify :: nat
  lc_notified :: bool
  lc_ready :: "nat list"
  lc_recv :: bytes
  lc_store :: "nat \<Rightarrow> lp_stream option"
  lc_next :: nat
  lc_mem :: heap

definition upd_stream :: "lp_client \<Rightarrow> nat \<Rightarrow> (lp_stream \<Rightarrow> lp_stream) \<Rightarrow> lp_client" where
  "upd_stream c p f = c\<lparr>lc_store := (lc_store c)(p := map_option f (lc_store c p))\<rparr>"

section \<open>Registry\<close>

definition reg_put :: "lp_client \<Rightarrow> u32 \<Rightarrow> nat \<Rightarrow> lp_client option" where
  "reg_put c sid p = do {
     (new, m, h) \<leftarrow> umap_store (lc_reg c) sid (Some p) (lc_mem c);
     let c = c\<lparr>lc_reg := m, lc_mem := h\<rparr> in
     Some (if new then upd_stream c p (\<lambda>st. st\<lparr>ls_in_reg := True\<rparr>) else c)
   }"

definition reg_get :: "lp_client \<Rightarrow> u32 \<Rightarrow> nat option" where
  "reg_get c sid = umap_get (lc_reg c) sid"

definition reg_clear :: "lp_client \<Rightarrow> lp_client" where
  "reg_clear c =
     (let c = c\<lparr>lc_reg := \<lparr>um_s = replicate (um_cap (lc_reg c)) mslot_zero, um_count = 0\<rparr>\<rparr>
      in fold (\<lambda>p c. upd_stream c p (\<lambda>st. st\<lparr>ls_in_reg := False\<rparr>)) (lc_all c) c)"

section \<open>Wake-ups and lists\<close>

definition io_wake :: "lp_client \<Rightarrow> lp_client" where
  "io_wake c = c\<lparr>lc_wake := lc_wake c + 1\<rparr>"

definition pending_push :: "lp_client \<Rightarrow> nat \<Rightarrow> lp_client option" where
  "pending_push c p = do {
     st \<leftarrow> lc_store c p;
     Some (if ls_in_pending st then c
           else upd_stream (c\<lparr>lc_pending := p # lc_pending c\<rparr>) p (\<lambda>st. st\<lparr>ls_in_pending := True\<rparr>))
   }"

definition notify_raise :: "lp_client \<Rightarrow> lp_client" where
  "notify_raise c =
     (if \<not> lc_poll_mode c \<or> lc_notified c then c
      else c\<lparr>lc_notified := True, lc_notify := lc_notify c + 1\<rparr>)"

definition ready_mark :: "lp_client \<Rightarrow> nat \<Rightarrow> u32 \<Rightarrow> lp_client option" where
  "ready_mark c p bits =
     (if \<not> lc_poll_mode c then Some c
      else do {
        st \<leftarrow> lc_store c p;
        let c = upd_stream c p (\<lambda>st. st\<lparr>ls_ev_pending := ls_ev_pending st OR bits\<rparr>);
            c = (if \<not> ls_in_ready st then upd_stream (c\<lparr>lc_ready := p # lc_ready c\<rparr>) p (\<lambda>st. st\<lparr>ls_in_ready := True\<rparr>)
                 else c)
        in Some (notify_raise c)
      })"

section \<open>Stream lifecycle\<close>

definition stream_new :: "lp_client \<Rightarrow> u32 \<Rightarrow> bytes option \<Rightarrow> nat option \<times> lp_client" where
  "stream_new c sid meta =
     (case alloc (lc_mem c) of
        (False, h) \<Rightarrow> (None, c\<lparr>lc_mem := h\<rparr>)
      | (True, h) \<Rightarrow>
          let p = lc_next c;
              (ok, h) = (if blob meta \<noteq> [] then alloc h else (False, h))
          in (Some p, c\<lparr>lc_mem := h, lc_next := p + 1, lc_all := p # lc_all c,
                lc_store := (lc_store c)(p \<mapsto>
                  \<lparr>ls_sid = sid, ls_in_reg = False, ls_rbuf = buf_zero, ls_wbuf = buf_zero, ls_consume_pending = 0,
                   ls_eof = False, ls_reset = False, ls_app_closed = False, ls_fin_sent = False, ls_proto_done = False,
                   ls_meta = (if ok then blob meta else []), ls_in_pending = False, ls_ev_pending = 0,
                   ls_in_ready = False, ls_want_writable = False\<rparr>)\<rparr>))"

text \<open>
  The removal from the registry. Re-inserting the run behind the emptied cell goes through
  \<open>reg_put\<close>, which also sets \<open>in_reg\<close> of every stream in it. An entry is put back in its own
  cell or in one already passed, so the streams concerned are the run as it was.
\<close>

fun reg_run :: "nat mslot list \<Rightarrow> nat \<Rightarrow> nat \<Rightarrow> nat option list" where
  "reg_run s j 0 = []"
| "reg_run s j (Suc n) =
     (if ms_used (s ! j) then ms_v (s ! j) # reg_run s ((j + 1) AND (length s - 1)) n else [])"

definition reg_moved :: "nat umap \<Rightarrow> u32 \<Rightarrow> nat option list" where
  "reg_moved m sid =
     (let mask = um_cap m - 1
      in case umap_probe (um_s m) sid (umix sid mask) (mask + 1) of
           Hit i \<Rightarrow> reg_run (um_s (umap_clear m i)) ((i + 1) AND mask) (mask + 1)
         | Miss i \<Rightarrow> reg_run (um_s m) ((i + 1) AND mask) (mask + 1)
         | Round i \<Rightarrow> reg_run (um_s m) ((i + 1) AND mask) (mask + 1))"

fun reg_touch :: "lp_client \<Rightarrow> nat option list \<Rightarrow> lp_client option" where
  "reg_touch c [] = Some c"
| "reg_touch c (v # vs) = do {
     p \<leftarrow> v;
     st \<leftarrow> lc_store c p;
     reg_touch (upd_stream c p (\<lambda>st. st\<lparr>ls_in_reg := True\<rparr>)) vs
   }"

definition reg_remove :: "lp_client \<Rightarrow> u32 \<Rightarrow> lp_client option" where
  "reg_remove c sid =
     (if um_cap (lc_reg c) = 0 then None
      else do {
        (m, h) \<leftarrow> reg_del (lc_reg c) sid (lc_mem c);
        reg_touch (c\<lparr>lc_reg := m, lc_mem := h\<rparr>) (reg_moved (lc_reg c) sid)
      })"

definition stream_try_free :: "lp_client \<Rightarrow> nat \<Rightarrow> lp_client option" where
  "stream_try_free c p = do {
     st \<leftarrow> lc_store c p;
     if \<not> (ls_proto_done st \<and> ls_app_closed st) then Some c
     else if ls_in_pending st \<or> ls_in_ready st then Some c
     else do {
       c \<leftarrow> (if ls_in_reg st then reg_remove c (ls_sid st) else Some c);
       Some (c\<lparr>lc_all := remove1 p (lc_all c), lc_store := (lc_store c)(p := None)\<rparr>)
     }
   }"

section \<open>Events of the session\<close>

definition ev_hello :: "lp_client \<Rightarrow> hello_info \<Rightarrow> lp_client option" where
  "ev_hello c hi =
     (case lf_token (lc_cfg c) of
        Some t \<Rightarrow> do {
          ok \<leftarrow> hello_authentic (Some t) hi;
          let c = c\<lparr>lc_authed := ok\<rparr> in
          Some (if \<not> ok then c\<lparr>lc_mux := via_goaway (lc_mux c) MUX_CODE_REFUSED\<rparr> else c)
        }
      | None \<Rightarrow> Some (c\<lparr>lc_authed := True\<rparr>))"

definition ev_opened :: "lp_client \<Rightarrow> u32 \<Rightarrow> bytes option \<Rightarrow> lp_client option" where
  "ev_opened c sid meta =
     (case stream_new c sid meta of
        (None, c) \<Rightarrow> Some (c\<lparr>lc_mux := via_reset (lc_mux c) sid MUX_CODE_INTERNAL\<rparr>)
      | (Some p, c) \<Rightarrow> do {
          c \<leftarrow> reg_put c sid p;
          Some (notify_raise (c\<lparr>lc_accept := lc_accept c @ [p]\<rparr>))
        })"

definition ev_data :: "lp_client \<Rightarrow> u32 \<Rightarrow> bytes option \<Rightarrow> lp_client option" where
  "ev_data c sid data =
     (case reg_get c sid of
        None \<Rightarrow> Some c
      | Some p \<Rightarrow> do {
          st \<leftarrow> lc_store c p;
          case libpeer_buf_append (ls_rbuf st) (blob data) (lc_mem c) of
            (ok, b, h) \<Rightarrow> ready_mark (upd_stream (c\<lparr>lc_mem := h\<rparr>) p (\<lambda>st. st\<lparr>ls_rbuf := b\<rparr>)) p LP_READABLE
        })"

definition ev_closed :: "lp_client \<Rightarrow> u32 \<Rightarrow> lp_client option" where
  "ev_closed c sid =
     (case reg_get c sid of
        None \<Rightarrow> Some c
      | Some p \<Rightarrow> do {
          st \<leftarrow> lc_store c p;
          c \<leftarrow> ready_mark (upd_stream c p (\<lambda>st. st\<lparr>ls_eof := True,
                  ls_proto_done := (if ls_fin_sent st then True else ls_proto_done st)\<rparr>)) p (LP_READABLE OR LP_CLOSED);
          stream_try_free c p
        })"

definition ev_reset :: "lp_client \<Rightarrow> u32 \<Rightarrow> lp_client option" where
  "ev_reset c sid =
     (case reg_get c sid of
        None \<Rightarrow> Some c
      | Some p \<Rightarrow> do {
          st \<leftarrow> lc_store c p;
          c \<leftarrow> ready_mark (upd_stream c p (\<lambda>st. st\<lparr>ls_reset := True, ls_eof := True, ls_proto_done := True\<rparr>)) p
                 (LP_READABLE OR LP_CLOSED);
          stream_try_free c p
        })"

definition ev_writable :: "lp_client \<Rightarrow> u32 \<Rightarrow> lp_client option" where
  "ev_writable c sid =
     (case reg_get c sid of
        None \<Rightarrow> Some c
      | Some p \<Rightarrow> do {
          st \<leftarrow> lc_store c p;
          if buf_avail (ls_wbuf st) > 0 then pending_push c p else Some c
        })"

definition handle_event :: "lp_client \<Rightarrow> mux_event \<Rightarrow> lp_client option" where
  "handle_event c ev =
     (case ev of
        EV_PEER_HELLO hi \<Rightarrow> ev_hello c hi
      | EV_STREAM_OPENED sid meta \<Rightarrow> ev_opened c sid meta
      | EV_STREAM_DATA sid data \<Rightarrow> ev_data c sid data
      | EV_STREAM_CLOSED sid \<Rightarrow> ev_closed c sid
      | EV_STREAM_RESET sid code \<Rightarrow> ev_reset c sid
      | EV_WRITABLE sid \<Rightarrow> ev_writable c sid
      | EV_FATAL code \<Rightarrow> Some c
      | _ \<Rightarrow> Some c)"

partial_function (option) handle_events :: "lp_client \<Rightarrow> lp_client option" where
  "handle_events c =
     (case Option.bind (lc_mux c) mux_next_event of
        None \<Rightarrow> Some c
      | Some (ev, s) \<Rightarrow> do {
          ev \<leftarrow> ev;
          c \<leftarrow> handle_event (c\<lparr>lc_mux := Some s\<rparr>) ev;
          handle_events c
        })"

section \<open>Work queued by the application\<close>

function drain_wbuf :: "mux_session option \<Rightarrow> u32 \<Rightarrow> buf_t \<Rightarrow> mux_session option \<times> buf_t" where
  "drain_wbuf m sid b =
     (if \<not> buf_avail b > 0 then (m, b)
      else
        case via_write m sid (buf_bytes b) of (r, m) \<Rightarrow>
          if accepted_by r = 0 then (m, b) else drain_wbuf m sid (buf_advance b (accepted_by r)))"
  by pat_completeness auto
termination
  by (relation "measure (\<lambda>(m, sid, b). buf_avail b)")
    (auto simp: buf_avail_def buf_advance_def Let_def)

declare drain_wbuf.simps [simp del]

definition flush_wbuf :: "lp_client \<Rightarrow> nat \<Rightarrow> lp_client option" where
  "flush_wbuf c p = do {
     st \<leftarrow> lc_store c p;
     case drain_wbuf (lc_mux c) (ls_sid st) (ls_wbuf st) of
       (m, b) \<Rightarrow>
         let c = upd_stream (c\<lparr>lc_mux := m\<rparr>) p (\<lambda>st. st\<lparr>ls_wbuf := b\<rparr>)
         in if buf_avail b \<le> LP_WBUF_HIGH div 2 \<and> ls_want_writable st then
              ready_mark (upd_stream c p (\<lambda>st. st\<lparr>ls_want_writable := False\<rparr>)) p LP_WRITABLE
            else Some c
   }"

text \<open>The three steps of \<open>process_pending\<close> before its \<open>stream_try_free\<close>.\<close>

definition pending_credit :: "lp_client \<Rightarrow> nat \<Rightarrow> lp_client option" where
  "pending_credit c p = do {
     st \<leftarrow> lc_store c p;
     Some (if ls_consume_pending st > 0 then
             upd_stream (c\<lparr>lc_mux := via_consume (lc_mux c) (ls_sid st) (ls_consume_pending st)\<rparr>) p
               (\<lambda>st. st\<lparr>ls_consume_pending := 0\<rparr>)
           else c)
   }"

definition pending_flush :: "lp_client \<Rightarrow> nat \<Rightarrow> lp_client option" where
  "pending_flush c p = do {
     st \<leftarrow> lc_store c p;
     if buf_avail (ls_wbuf st) > 0 then flush_wbuf c p else Some c
   }"

definition pending_fin :: "lp_client \<Rightarrow> nat \<Rightarrow> lp_client option" where
  "pending_fin c p = do {
     st \<leftarrow> lc_store c p;
     Some (if ls_app_closed st \<and> \<not> ls_fin_sent st \<and> buf_avail (ls_wbuf st) = 0 then
             upd_stream (c\<lparr>lc_mux := via_close (lc_mux c) (ls_sid st)\<rparr>) p
               (\<lambda>st. st\<lparr>ls_fin_sent := True, ls_proto_done := (if ls_eof st then True else ls_proto_done st)\<rparr>)
           else c)
   }"

definition process_pending :: "lp_client \<Rightarrow> nat \<Rightarrow> lp_client option" where
  "process_pending c p = do {
     c \<leftarrow> pending_credit c p;
     c \<leftarrow> pending_flush c p;
     c \<leftarrow> pending_fin c p;
     stream_try_free c p
   }"

text \<open>The walk over the detached pending list, in \<open>io_main\<close>.\<close>

fun process_all :: "lp_client \<Rightarrow> nat list \<Rightarrow> lp_client option" where
  "process_all c [] = Some c"
| "process_all c (p # ps) = do {
     st \<leftarrow> lc_store c p;
     c \<leftarrow> process_pending (upd_stream c p (\<lambda>st. st\<lparr>ls_in_pending := False\<rparr>)) p;
     process_all c ps
   }"

definition run_pending :: "lp_client \<Rightarrow> lp_client option" where
  "run_pending c = process_all (c\<lparr>lc_pending := []\<rparr>) (lc_pending c)"

section \<open>The tunnel\<close>

definition tunnel_flush :: "lp_client \<Rightarrow> sys_write list \<Rightarrow> bool \<times> lp_client \<times> sys_write list" where
  "tunnel_flush c ws =
     (case lc_mux c of
        None \<Rightarrow> (True, c, ws)
      | Some s \<Rightarrow> (case flush_loop s ws [] of (ok, s, ws, sent) \<Rightarrow> (ok, c\<lparr>lc_mux := Some s\<rparr>, ws)))"

definition tunnel_pump :: "lp_client \<Rightarrow> (bool \<times> lp_client) option" where
  "tunnel_pump c =
     (case via (Inl MUX_ERR_PARAM) (\<lambda>s. mux_recv s (Some (lc_recv c)) (length (lc_recv c))) (lc_mux c) of
        (cc, m) \<Rightarrow> do {
          c \<leftarrow> handle_events (c\<lparr>lc_mux := m\<rparr>);
          Some (case cc of Inl _ \<Rightarrow> (False, c) | Inr n \<Rightarrow> (True, c\<lparr>lc_recv := drop n (lc_recv c)\<rparr>))
        })"

partial_function (option) tunnel_read :: "lp_client \<Rightarrow> sys_read list \<Rightarrow> (bool \<times> lp_client \<times> sys_read list) option" where
  "tunnel_read c rs =
     (let space = 262144 - length (lc_recv c)
      in if space = 0 then do {
           (ok, c') \<leftarrow> tunnel_pump c;
           if \<not> ok then Some (False, c', rs)
           else if length (lc_recv c') = length (lc_recv c) then Some (True, c', rs)
           else tunnel_read c' rs
         }
         else case rs of
           [] \<Rightarrow> Some (True, c, [])
         | r # rs \<Rightarrow>
             (case r of
                RdAgain \<Rightarrow> Some (True, c, rs)
              | RdErr \<Rightarrow> Some (False, c, rs)
              | RdEof \<Rightarrow> Some (False, c, rs)
              | RdData d \<Rightarrow>
                  let n = length (take space d)
                  in if n = 0 then Some (False, c, rs)
                     else do {
                       (ok, c) \<leftarrow> tunnel_pump (c\<lparr>lc_recv := lc_recv c @ take space d\<rparr>);
                       if \<not> ok then Some (False, c, rs)
                       else if n < space then Some (True, c, rs) else tunnel_read c rs
                     }))"

text \<open>The four passes of \<open>session_down\<close> over the list of streams.\<close>

fun down_mark :: "lp_client \<Rightarrow> nat list \<Rightarrow> lp_client option" where
  "down_mark c [] = Some c"
| "down_mark c (p # ps) = do {
     st \<leftarrow> lc_store c p;
     c \<leftarrow> ready_mark (if \<not> ls_proto_done st
             then upd_stream c p (\<lambda>st. st\<lparr>ls_reset := True, ls_eof := True, ls_proto_done := True\<rparr>) else c) p
            (LP_READABLE OR LP_CLOSED);
     down_mark c ps
   }"

fun down_free :: "lp_client \<Rightarrow> nat list \<Rightarrow> lp_client option" where
  "down_free c [] = Some c"
| "down_free c (p # ps) = do { c \<leftarrow> stream_try_free c p; down_free c ps }"

definition session_down :: "lp_client \<Rightarrow> lp_client option" where
  "session_down c = do {
     c \<leftarrow> down_mark c (lc_all c);
     let c = c\<lparr>lc_pending := []\<rparr>;
         c = fold (\<lambda>p c. upd_stream c p (\<lambda>st. st\<lparr>ls_in_pending := False\<rparr>)) (lc_all c) c;
         c = reg_clear c;
         c = c\<lparr>lc_mux := None, lc_fd := - 1, lc_authed := False, lc_recv := []\<rparr>
     in down_free c (lc_all c)
   }"

text \<open>
  \<open>session_up\<close> once the transport is connected: \<open>fd\<close> is the accepted or dialed socket, \<open>ok\<close>
  whether it is connected.
\<close>

definition lp_mux_config :: "lp_client \<Rightarrow> bytes \<Rightarrow> (mux_config \<times> lp_client) option" where
  "lp_mux_config c nonce =
     (let f = lc_cfg c;
          mc = \<lparr>cfg_init_window = lf_init_window f, cfg_session_window = lf_session_window f, cfg_max_streams = 0,
                cfg_heartbeat_ms = (if lf_heartbeat_ms f \<noteq> 0 then lf_heartbeat_ms f else 15000),
                cfg_keepalive_timeout_ms = 0, cfg_weight = (if lf_weight f \<noteq> 0 then lf_weight f else 1),
                cfg_max_out_buffer = 0, cfg_peer_id = lf_peer_id f, cfg_peer_id_len = length (blob (lf_peer_id f)),
                cfg_auth = None, cfg_auth_len = 0, cfg_nonce = None, cfg_nonce_len = 0\<rparr>
      in case lf_token f of
           None \<Rightarrow> Some (mc, c)
         | Some token \<Rightarrow> do {
             proof \<leftarrow> mux_auth_proof token nonce;
             Some (mc\<lparr>cfg_nonce := Some nonce, cfg_nonce_len := length nonce,
                      cfg_auth := Some proof, cfg_auth_len := length proof\<rparr>,
                   c\<lparr>lc_nonce := nonce, lc_proof := proof\<rparr>)
           })"

definition session_up :: "lp_client \<Rightarrow> int \<Rightarrow> bool \<Rightarrow> bytes \<Rightarrow> (bool \<times> lp_client) option" where
  "session_up c fd ok nonce =
     (if \<not> ok then Some (False, c)
      else do {
        (mc, c) \<leftarrow> lp_mux_config c nonce;
        Some (case mux_session_new (Some mc) (if lf_listen_addr (lc_cfg c) \<noteq> None then MUX_ACCEPTOR else MUX_DIALER) (lc_mem c) of
                None \<Rightarrow> (False, c\<lparr>lc_mux := None, lc_fd := - 1\<rparr>)
              | Some s \<Rightarrow> (True, c\<lparr>lc_mux := Some s, lc_fd := fd\<rparr>))
      })"

text \<open>
  One round of \<open>io_main\<close> while the tunnel is up: the queued work and a flush, the events asked
  of \<open>poll\<close>, and the work after it. A result of \<open>poll\<close> other than EINTR, the readiness of the
  two descriptors, the clock and the system calls are arguments.
\<close>

definition io_before_poll :: "lp_client \<Rightarrow> sys_write list \<Rightarrow> (bool \<times> lp_client) option" where
  "io_before_poll c ws = do {
     c \<leftarrow> run_pending c;
     case tunnel_flush c ws of
       (ok, c, ws) \<Rightarrow> if ok then Some (True, c) else do { c \<leftarrow> session_down c; Some (False, c) }
   }"

definition io_poll_events :: "lp_client \<Rightarrow> bool \<times> bool" where
  "io_poll_events c =
     (let out_pending = (case lc_mux c of None \<Rightarrow> 0 | Some s \<Rightarrow> mux_out_pending s)
      in (out_pending < 4 * 2 ^ 20, out_pending \<noteq> 0))"

definition io_timer :: "lp_client \<Rightarrow> u64 \<Rightarrow> sys_write list \<Rightarrow> lp_client option" where
  "io_timer c now ws =
     (case lc_mux c of
        None \<Rightarrow> Some c
      | Some s \<Rightarrow> do {
          c \<leftarrow> handle_events (c\<lparr>lc_mux := Some (snd (mux_on_timer s now))\<rparr>);
          Some (fst (snd (tunnel_flush c ws)))
        })"

definition io_after_poll ::
    "lp_client \<Rightarrow> bool \<Rightarrow> bool \<Rightarrow> bool \<Rightarrow> bool \<Rightarrow> u64 \<Rightarrow> sys_read list \<Rightarrow> sys_write list \<Rightarrow> lp_client option" where
  "io_after_poll c poll_failed wake_in tun_in tun_out now rs ws =
     (if poll_failed then session_down c
      else
        let c = (if wake_in then c\<lparr>lc_wake := 0\<rparr> else c)
        in do {
          (ok, c, rs) \<leftarrow> (if lc_fd c \<ge> 0 \<and> tun_in then tunnel_read c rs else Some (True, c, rs));
          if \<not> ok then session_down c
          else case (if lc_fd c \<ge> 0 \<and> tun_out then tunnel_flush c ws else (True, c, ws)) of
                 (ok, c, ws) \<Rightarrow> if \<not> ok then session_down c else io_timer c now ws
        })"

text \<open>The flush before the thread ends: at most \<open>n\<close> attempts.\<close>

fun io_drain :: "nat \<Rightarrow> lp_client \<Rightarrow> sys_write list list \<Rightarrow> lp_client" where
  "io_drain (Suc n) c (ws # wss) =
     (if (case lc_mux c of None \<Rightarrow> 0 | Some s \<Rightarrow> mux_out_pending s) = 0 then c
      else case tunnel_flush c ws of (ok, c, _) \<Rightarrow> if \<not> ok then c else io_drain n c wss)"
| "io_drain _ c _ = c"

definition io_finish :: "lp_client \<Rightarrow> sys_write list list \<Rightarrow> lp_client option" where
  "io_finish c wss = do {
     c \<leftarrow> (if lc_mux c \<noteq> None \<and> lc_fd c \<ge> 0 then do { c \<leftarrow> run_pending c; Some (io_drain 100 c wss) } else Some c);
     session_down c
   }"

section \<open>The blocking API\<close>

datatype 'a call = Blocks | Returns 'a

text \<open>
  The strings of the configuration are copied; a copy that fails leaves a null pointer, as
  if the option had not been given. The copies replace the originals in \<open>lc_cfg\<close>. The last
  three arguments are the results of the two \<^verbatim>\<open>pipe\<close> calls and of \<^verbatim>\<open>pthread_create\<close>.
\<close>

definition strdup_opt :: "bytes option \<Rightarrow> heap \<Rightarrow> bytes option \<times> heap" where
  "strdup_opt p h =
     (case p of None \<Rightarrow> (None, h) | Some s \<Rightarrow> (case alloc h of (ok, h) \<Rightarrow> (if ok then Some s else None, h)))"

definition lp_client_init :: "lp_config \<Rightarrow> heap \<Rightarrow> lp_client" where
  "lp_client_init cfg h =
     \<lparr>lc_cfg = cfg, lc_stopping = False, lc_fd = - 1, lc_mux = None, lc_authed = False,
      lc_nonce = replicate 16 0, lc_proof = replicate 32 0, lc_reg = umap_zero, lc_accept = [], lc_pending = [],
      lc_all = [], lc_poll_mode = False, lc_wake = 0, lc_notify = 0, lc_notified = False, lc_ready = [],
      lc_recv = [], lc_store = Map.empty, lc_next = 0, lc_mem = h\<rparr>"

definition lp_connect :: "lp_config option \<Rightarrow> heap \<Rightarrow> bool \<Rightarrow> bool \<Rightarrow> bool \<Rightarrow> lp_client option" where
  "lp_connect cfgp h wake_ok notify_ok thread_ok =
     (case cfgp of
        None \<Rightarrow> None
      | Some cfg \<Rightarrow>
          if lf_listen_addr cfg = None \<and> lf_host cfg = None then None
          else case alloc h of
                 (False, h) \<Rightarrow> None
               | (True, h) \<Rightarrow>
                   (case strdup_opt (lf_host cfg) h of (host, h) \<Rightarrow>
                    case strdup_opt (lf_listen_addr cfg) h of (listen_addr, h) \<Rightarrow>
                    case strdup_opt (lf_token cfg) h of (token, h) \<Rightarrow>
                    case strdup_opt (lf_peer_id cfg) h of (peer_id, h) \<Rightarrow>
                      if \<not> wake_ok \<or> \<not> notify_ok \<or> \<not> thread_ok then None
                      else Some (lp_client_init (cfg\<lparr>lf_host := host, lf_listen_addr := listen_addr,
                                                    lf_token := token, lf_peer_id := peer_id\<rparr>) h)))"

text \<open>
  \<open>lp_disconnect\<close>: the request to stop, and, once the I/O thread has ended (\<open>io_finish\<close>), the
  release of the streams the application has abandoned.
\<close>

definition lp_stop :: "lp_client \<Rightarrow> lp_client" where
  "lp_stop c = io_wake (c\<lparr>lc_stopping := True\<rparr>)"

fun lp_release :: "lp_client \<Rightarrow> nat list \<Rightarrow> lp_client option" where
  "lp_release c [] = Some c"
| "lp_release c (p # ps) = do { st \<leftarrow> lc_store c p; lp_release (c\<lparr>lc_store := (lc_store c)(p := None)\<rparr>) ps }"

definition lp_disconnect :: "lp_client \<Rightarrow> sys_write list list \<Rightarrow> lp_client option" where
  "lp_disconnect c wss = do { c \<leftarrow> io_finish (lp_stop c) wss; lp_release c (lc_all c) }"

definition lp_accept :: "lp_client \<Rightarrow> nat option call \<times> lp_client" where
  "lp_accept c =
     (case lc_accept c of
        [] \<Rightarrow> (if \<not> lc_stopping c then (Blocks, c) else (Returns None, c))
      | p # ps \<Rightarrow> (Returns (Some p), c\<lparr>lc_accept := ps\<rparr>))"

text \<open>
  The part of a read after the tests: \<open>take\<close> bytes leave the receive buffer and are counted
  as consumed, to be credited by the I/O thread.
\<close>

definition read_out :: "lp_client \<Rightarrow> nat \<Rightarrow> lp_stream \<Rightarrow> nat \<Rightarrow> (bytes \<times> lp_client) option" where
  "read_out c p st n =
     (let avail = buf_avail (ls_rbuf st);
          k = (if n < avail then n else avail);
          c = upd_stream c p (\<lambda>st. st\<lparr>ls_rbuf := buf_advance (ls_rbuf st) k,
                                     ls_consume_pending := ls_consume_pending st + k\<rparr>)
      in do { c \<leftarrow> pending_push c p; Some (take k (buf_bytes (ls_rbuf st)), io_wake c) })"

text \<open>The value returned: bytes read (none at the end of the stream), or an error.\<close>

datatype io_result = Got bytes | Again | Failed

definition lp_read :: "lp_client \<Rightarrow> nat \<Rightarrow> nat \<Rightarrow> (io_result call \<times> lp_client) option" where
  "lp_read c p n =
     (if n = 0 then Some (Returns (Got []), c)
      else do {
        st \<leftarrow> lc_store c p;
        if buf_avail (ls_rbuf st) = 0 \<and> \<not> ls_eof st \<and> \<not> ls_reset st \<and> \<not> lc_stopping c then Some (Blocks, c)
        else if ls_reset st then Some (Returns Failed, c)
        else if buf_avail (ls_rbuf st) = 0 then Some (Returns (Got []), c)
        else do { (b, c) \<leftarrow> read_out c p st n; Some (Returns (Got b), c) }
      })"

definition lp_read_nb :: "lp_client \<Rightarrow> nat \<Rightarrow> nat \<Rightarrow> (io_result \<times> lp_client) option" where
  "lp_read_nb c p n =
     (if n = 0 then Some (Got [], c)
      else do {
        st \<leftarrow> lc_store c p;
        if ls_reset st then Some (Failed, c)
        else if buf_avail (ls_rbuf st) = 0 then Some (if ls_eof st then Got [] else Again, c)
        else do { (b, c) \<leftarrow> read_out c p st n; Some (Got b, c) }
      })"

text \<open>A write queues all its bytes or none; the result is \<open>Got\<close> of the bytes queued.\<close>

definition write_in :: "lp_client \<Rightarrow> nat \<Rightarrow> lp_stream \<Rightarrow> bytes \<Rightarrow> (io_result \<times> lp_client) option" where
  "write_in c p st buf =
     (case libpeer_buf_append (ls_wbuf st) buf (lc_mem c) of
        (ok, b, h) \<Rightarrow>
          let c = upd_stream (c\<lparr>lc_mem := h\<rparr>) p (\<lambda>st. st\<lparr>ls_wbuf := b\<rparr>)
          in if \<not> ok then Some (Failed, c)
             else do { c \<leftarrow> pending_push c p; Some (Got buf, io_wake c) })"

definition lp_write :: "lp_client \<Rightarrow> nat \<Rightarrow> bytes \<Rightarrow> (io_result call \<times> lp_client) option" where
  "lp_write c p buf =
     (if buf = [] then Some (Returns (Got []), c)
      else do {
        st \<leftarrow> lc_store c p;
        if buf_avail (ls_wbuf st) \<ge> LP_WBUF_HIGH \<and> \<not> ls_reset st \<and> \<not> ls_fin_sent st \<and> \<not> lc_stopping c then Some (Blocks, c)
        else if ls_reset st \<or> ls_fin_sent st \<or> lc_stopping c then Some (Returns Failed, c)
        else do { (r, c) \<leftarrow> write_in c p st buf; Some (Returns r, c) }
      })"

definition lp_write_nb :: "lp_client \<Rightarrow> nat \<Rightarrow> bytes \<Rightarrow> (io_result \<times> lp_client) option" where
  "lp_write_nb c p buf =
     (if buf = [] then Some (Got [], c)
      else do {
        st \<leftarrow> lc_store c p;
        if ls_reset st \<or> ls_fin_sent st \<or> lc_stopping c then Some (Failed, c)
        else if buf_avail (ls_wbuf st) \<ge> LP_WBUF_HIGH then
          Some (Again, upd_stream c p (\<lambda>st. st\<lparr>ls_want_writable := True\<rparr>))
        else write_in c p st buf
      })"

definition lp_close :: "lp_client \<Rightarrow> nat \<Rightarrow> lp_client option" where
  "lp_close c p = do {
     st \<leftarrow> lc_store c p;
     c \<leftarrow> pending_push (upd_stream c p (\<lambda>st. st\<lparr>ls_app_closed := True\<rparr>)) p;
     Some (io_wake c)
   }"

definition lp_stream_meta :: "lp_client \<Rightarrow> nat \<Rightarrow> bytes option" where
  "lp_stream_meta c p = map_option ls_meta (lc_store c p)"

section \<open>The readiness API\<close>

definition lp_fileno :: "lp_client \<Rightarrow> lp_client" where
  "lp_fileno c = c\<lparr>lc_poll_mode := True\<rparr>"

fun poll_ready :: "lp_client \<Rightarrow> nat list \<Rightarrow> nat \<Rightarrow> (lp_client \<times> (nat \<times> u32) list) option" where
  "poll_ready c [] room = Some (c\<lparr>lc_ready := []\<rparr>, [])"
| "poll_ready c (p # ps) room =
     (if room = 0 then Some (c\<lparr>lc_ready := p # ps\<rparr>, [])
      else do {
        st \<leftarrow> lc_store c p;
        let c = upd_stream (c\<lparr>lc_ready := ps\<rparr>) p (\<lambda>st. st\<lparr>ls_in_ready := False, ls_ev_pending := 0\<rparr>) in
        if ls_app_closed st then do { c \<leftarrow> stream_try_free c p; poll_ready c ps room }
        else do { (c, out) \<leftarrow> poll_ready c ps (room - 1); Some (c, (p, ls_ev_pending st) # out) }
      })"

definition lp_poll :: "lp_client \<Rightarrow> nat \<Rightarrow> (lp_client \<times> (nat \<times> u32) list) option" where
  "lp_poll c maxn =
     (if maxn = 0 then Some (c, [])
      else
        let c = c\<lparr>lc_notify := 0, lc_notified := False\<rparr>;
            acc = take maxn (lc_accept c);
            c = c\<lparr>lc_accept := drop maxn (lc_accept c)\<rparr>
        in do {
          (c, out) \<leftarrow> poll_ready c (lc_ready c) (maxn - length acc);
          Some (if lc_accept c \<noteq> [] \<or> lc_ready c \<noteq> [] then notify_raise (c\<lparr>lc_notified := False\<rparr>) else c,
                map (\<lambda>p. (p, LP_ACCEPT)) acc @ out)
        })"

end
