(* ===== verification/Mux_Host.thy ===== *)
theory Mux_Host
  imports Mux_Transport Mux_Events
begin

text \<open>
  What the hosts of a session (router, relay, libpeer) rely on when they call it through a
  pointer: the session only moves along its step relation, so the invariants of Mux_Events
  hold of it, and a call that only produces output does not add to the events still to be
  handled, except that a failure counts for one event, so the event loops of the hosts end.
\<close>

section \<open>Paths\<close>

definition mux_path :: "mux_session option \<Rightarrow> mux_session option \<Rightarrow> bool" where
  "mux_path m m' \<longleftrightarrow>
     (case m of None \<Rightarrow> m' = None | Some s \<Rightarrow> \<exists>s'. m' = Some s' \<and> sess_step\<^sup>*\<^sup>* s s')"

lemma mux_path_refl [simp]: "mux_path m m"
  by (simp add: mux_path_def split: option.splits)

lemma mux_path_trans: "mux_path m m' \<Longrightarrow> mux_path m' m'' \<Longrightarrow> mux_path m m''"
  by (auto simp: mux_path_def split: option.splits)

lemma steps_fresh: "sess_step\<^sup>*\<^sup>* s s' \<Longrightarrow> ids_fresh L s \<Longrightarrow> ids_fresh L s'"
  by (induction rule: rtranclp_induct) (auto intro: fresh.inv_step)

lemma mux_path_step: "sess_step s s' \<Longrightarrow> mux_path (Some s) (Some s')"
  by (simp add: mux_path_def)

lemma via_path_write: "mux_path m (snd (via_write m sid p))"
  by (cases m) (auto simp: via_write_def intro!: mux_path_step step_write)

lemma via_path_consume: "mux_path m (via_consume m sid n)"
  by (cases m) (simp_all add: via_consume_def mux_path_step step_consume)

lemma via_path_close: "mux_path m (via_close m sid)"
  by (cases m) (simp_all add: via_close_def mux_path_step step_close)

lemma via_path_goaway: "mux_path m (via_goaway m reason)"
  by (cases m) (simp_all add: via_goaway_def mux_path_step step_goaway)

lemma via_path_reset: "mux_path m (via_reset m sid code)"
  by (cases m) (simp_all add: via_reset_def mux_path_step step_reset)

lemma via_path_recv:
  "via (Inl MUX_ERR_PARAM) (\<lambda>s. mux_recv s (Some b) n) m = (r, m') \<Longrightarrow> mux_path m m'"
  by (cases m) (auto intro!: mux_path_step step_recv)

section \<open>Events left\<close>

text \<open>The events left to handle, with one more for a failure to come.\<close>

definition evs_left :: "mux_session option \<Rightarrow> nat" where
  "evs_left m = (case m of None \<Rightarrow> 0 | Some s \<Rightarrow> evq_count (s_q s) + of_bool (\<not> s_dead s))"

lemma evs_left_few: "evs_left (Some s) \<le> n \<longleftrightarrow> few_events n s"
  by (simp add: evs_left_def few_events_def)

lemma next_event_left:
  assumes "ids_fresh L s" "mux_next_event s = Some (e, s')" shows "evs_left (Some s') < evs_left (Some s)"
proof -
  have "evq_inv (s_q s)" using assms(1) by (simp add: ids_fresh_def)
  from next_event_few [OF this assms(2), of "evs_left (Some s)"] show ?thesis
    unfolding evs_left_few [symmetric] by linarith
qed

text \<open>A call that only produces output: no more events to handle, the id counter where it was.\<close>

definition next_id :: "mux_session option \<Rightarrow> u32" where
  "next_id m = (case m of None \<Rightarrow> 0 | Some s \<Rightarrow> s_next_local_sid s)"

definition mux_out :: "mux_session option \<Rightarrow> mux_session option \<Rightarrow> bool" where
  "mux_out m m' \<longleftrightarrow> mux_path m m' \<and> evs_left m' \<le> evs_left m \<and> next_id m' = next_id m"

lemma mux_out_refl [simp]: "mux_out m m"
  by (simp add: mux_out_def)

lemma mux_out_trans: "mux_out m m' \<Longrightarrow> mux_out m' m'' \<Longrightarrow> mux_out m m''"
  unfolding mux_out_def using mux_path_trans by (metis le_trans)

lemma mux_path_None [simp]: "mux_path None m \<longleftrightarrow> m = None" "mux_path m None \<longleftrightarrow> m = None"
  by (auto simp: mux_path_def split: option.splits)

lemma via_out_call:
  assumes "\<And>s. sess_step s (snd (f s))" "\<And>n s. few_events n s \<Longrightarrow> few_events n (snd (f s))"
    "\<And>s. s_next_local_sid (snd (f s)) = s_next_local_sid s"
  shows "mux_out m (snd (via null f m))"
proof (cases m)
  case (Some s)
  have "evs_left (Some (snd (f s))) \<le> evs_left (Some s)" unfolding evs_left_few by (rule assms(2)) (simp flip: evs_left_few)
  then show ?thesis using Some mux_path_step [OF assms(1)] assms(3) by (simp add: mux_out_def next_id_def)
qed simp

lemma via_out:
  "mux_out m (snd (via_write m sid p))" "mux_out m (via_consume m sid n)" "mux_out m (via_close m sid)"
  "mux_out m (via_reset m sid code)" "mux_out m (via_goaway m reason)"
  unfolding via_write_def via_consume_def via_close_def via_reset_def via_goaway_def
  by (rule via_out_call; fastforce intro: step_write step_consume step_close step_reset step_goaway
      few.inv_write few.inv_calls counter.inv_write counter.inv_calls)+

lemma timer_out: "evs_left (Some (snd (mux_on_timer s now))) \<le> evs_left (Some s)"
  "next_id (Some (snd (mux_on_timer s now))) = next_id (Some s)" "mux_path (Some s) (Some (snd (mux_on_timer s now)))"
  using few.inv_timer [of "evs_left (Some s)" s now] counter.inv_timer [of s "s_next_local_sid s" now]
  by (simp_all add: evs_left_few next_id_def mux_path_step step_timer few_events_def evs_left_def)

lemma flush_loop_out:
  "flush_loop s ws sent = (ok, s', ws', sent') \<Longrightarrow> mux_out (Some s) (Some s')"
proof (induction s ws sent rule: flush_loop.induct)
  case (2 s w ws sent)
  let ?k = "\<lambda>n. min n (length (mux_send_buf s))"
  show ?case
  proof (cases "\<exists>n. w = WrOk n \<and> 0 < ?k n")
    case True
    then obtain n where n: "w = WrOk n" "0 < ?k n" by blast
    have "mux_out (Some (mux_send_advance s (?k n))) (Some s')"
      using 2(1) [OF refl refl _ n(1) refl n(2)] 2(2) n by (auto simp: Let_def)
    moreover have "mux_out (Some s) (Some (mux_send_advance s (?k n)))"
      using mux_path_step [OF step_advance] by (simp add: mux_out_def evs_left_def next_id_def mux_send_advance_def)
    ultimately show ?thesis using mux_out_trans by blast
  qed (use 2(2) in \<open>auto simp: Let_def split: if_splits sys_write.splits\<close>)
qed simp

section \<open>Opening streams\<close>

text \<open>Room for \<open>k\<close> more streams before the id counter reaches its end.\<close>

definition ids_room :: "nat \<Rightarrow> mux_session option \<Rightarrow> bool" where
  "ids_room k m \<longleftrightarrow> next_id m = 0 \<or> unat (next_id m) + 2 * k < 2 ^ 32"

lemma ids_room_out: "mux_out m m' \<Longrightarrow> ids_room k m' = ids_room k m"
  by (simp add: mux_out_def ids_room_def)

lemma ids_room_less: "ids_room k m \<Longrightarrow> j \<le> k \<Longrightarrow> ids_room j m"
  by (auto simp: ids_room_def)

lemma ids_room_left: "ids_room (Suc k) (Some s) \<Longrightarrow> ids_left s"
  by (auto simp: ids_room_def next_id_def ids_left_def)

lemma via_open_spec:
  assumes o: "via_open m meta = (r, m')" and room: "ids_room (Suc k) m"
  shows "mux_path m m' \<and> evs_left m' \<le> evs_left m \<and> ids_room k m' \<and>
    (\<forall>sid. r = Inr sid \<longrightarrow> (\<exists>s s'. m = Some s \<and> m' = Some s' \<and> \<not> ids_below sid s \<and> ids_below sid s'))"
proof (cases m)
  case None
  then show ?thesis using o by (auto simp: via_open_def ids_room_def next_id_def)
next
  case (Some s)
  let ?n = "case meta of None \<Rightarrow> 0 | Some b \<Rightarrow> length b"
  define s' where "s' = snd (mux_open s meta ?n)"
  have r: "mux_open s meta ?n = (r, s')" "m' = Some s'" using o Some by (auto simp: s'_def)
  have ids: "ids_left s" using ids_room_left room Some by blast
  have p: "mux_path (Some s) (Some s')" unfolding s'_def by (rule mux_path_step [OF step_open [OF ids]]) auto
  have few: "evs_left (Some s') \<le> evs_left (Some s)"
    unfolding evs_left_few s'_def by (rule few.inv_open) (simp_all add: ids flip: evs_left_few)
  have "s_next_local_sid s' \<in> {s_next_local_sid s, s_next_local_sid s + 2}"
    using r(1) by (auto simp: mux_open_def Let_def split: if_splits option.splits prod.splits dest!: emit_same_core same_core_sel(14))
  moreover have "s_next_local_sid s + 2 = 0 \<or> unat (s_next_local_sid s + 2) \<le> unat (s_next_local_sid s) + 2"
    by (subst unat_word_ariths) (simp add: mod_less_eq_dividend)
  moreover have "s_next_local_sid s = 0 \<Longrightarrow> s' = s"
    using r(1) by (auto simp: mux_open_def Let_def MUX_SID_CONTROL_def split: if_splits)
  ultimately have "ids_room k (Some s')" using room Some by (auto simp: ids_room_def next_id_def)
  moreover have "\<not> ids_below sid s \<and> ids_below sid s'" if "r = Inr sid" for sid
    using mux_open_id [of s meta ?n sid s'] r(1) that ids by auto
  ultimately show ?thesis using p few Some r(2) by simp
qed

end
