(* ===== verification/Mux_Libpeer_Inv.thy ===== *)
theory Mux_Libpeer_Inv
  imports Mux_Libpeer Mux_Host
begin

text \<open>
  Memory safety of libpeer, first part: the invariant and the I/O thread's handlers. The
  invariant \<open>lp_inv\<close> ties the registry and the four lists of a client to the flags of the
  live streams. \<open>reg_fresh\<close> ties the registry to the session: the ids registered are ids the
  session has announced, so an id announced later is not among them. Every critical section
  keeps both and never touches a freed stream; \<open>safe\<close> says so of a result.
\<close>

definition flagged :: "(lp_stream \<Rightarrow> bool) \<Rightarrow> lp_client \<Rightarrow> nat set" where
  "flagged P c = {p. \<exists>st. lc_store c p = Some st \<and> P st}"

text \<open>\<open>X\<close> is the rest of a pending list that the I/O thread has detached and is working through.\<close>

definition lp_inv_at :: "nat list \<Rightarrow> lp_client \<Rightarrow> bool" where
  "lp_inv_at X c \<longleftrightarrow>
     umap_inv (lc_reg c) \<and>
     (\<forall>sid p. umap_view (lc_reg c) sid = Some p \<longleftrightarrow> p \<in> flagged (\<lambda>st. ls_in_reg st \<and> ls_sid st = sid) c) \<and>
     distinct (lc_all c) \<and> set (lc_all c) = dom (lc_store c) \<and> (\<forall>p \<in> dom (lc_store c). p < lc_next c) \<and>
     distinct (lc_pending c @ X) \<and> set (lc_pending c @ X) = flagged ls_in_pending c \<and>
     distinct (lc_ready c) \<and> set (lc_ready c) = flagged ls_in_ready c \<and>
     distinct (lc_accept c) \<and> set (lc_accept c) \<subseteq> flagged (\<lambda>st. \<not> ls_app_closed st) c \<and>
     dom (lc_store c) \<subseteq> flagged (\<lambda>st. buf_inv (ls_rbuf st) \<and> buf_inv (ls_wbuf st)) c \<and> lc_mem c = []"

abbreviation lp_inv :: "lp_client \<Rightarrow> bool" where
  "lp_inv \<equiv> lp_inv_at []"

abbreviation app_open :: "lp_client \<Rightarrow> nat set" where
  "app_open \<equiv> flagged (\<lambda>st. \<not> ls_app_closed st)"

definition reg_fresh :: "lp_client \<Rightarrow> bool" where
  "reg_fresh c \<longleftrightarrow> (\<exists>L. dom (umap_view (lc_reg c)) \<subseteq> set L \<and>
     (case lc_mux c of None \<Rightarrow> L = [] | Some s \<Rightarrow> ids_fresh L s))"

text \<open>
  The handles the application holds: streams it has accepted and not closed. What a critical
  section of the I/O thread does to the rest: it neither frees nor hands out one of them.
\<close>

definition handles :: "lp_client \<Rightarrow> nat set" where
  "handles c = app_open c - set (lc_accept c)"

definition calm :: "lp_client \<Rightarrow> lp_client \<Rightarrow> bool" where
  "calm c c' \<longleftrightarrow> handles c' = handles c \<and> lc_recv c' = lc_recv c \<and> lc_fd c' = lc_fd c \<and>
     (lc_mux c = None \<longrightarrow> lc_mux c' = None) \<and> (reg_fresh c \<longrightarrow> reg_fresh c')"

definition safe :: "nat list \<Rightarrow> nat set \<Rightarrow> lp_client \<Rightarrow> lp_client option \<Rightarrow> bool" where
  "safe X K c r \<longleftrightarrow> (\<exists>c'. r = Some c' \<and> lp_inv_at X c' \<and> calm c c' \<and> dom (lc_store c) \<inter> K \<subseteq> dom (lc_store c'))"

lemma calm_refl [simp]: "calm c c"
  by (simp add: calm_def)

lemma calm_trans: "calm c c' \<Longrightarrow> calm c' c'' \<Longrightarrow> calm c c''"
  by (simp add: calm_def)

lemma safe_Some: "lp_inv_at X c' \<Longrightarrow> calm c c' \<Longrightarrow> dom (lc_store c) \<inter> K \<subseteq> dom (lc_store c') \<Longrightarrow> safe X K c (Some c')"
  by (simp add: safe_def)

lemma safe_self: "lp_inv_at X c \<Longrightarrow> safe X K c (Some c)"
  by (simp add: safe_def)

lemma safe_bind:
  assumes "safe X K c r"
    and "\<And>c'. r = Some c' \<Longrightarrow> lp_inv_at X c' \<Longrightarrow> calm c c' \<Longrightarrow> dom (lc_store c) \<inter> K \<subseteq> dom (lc_store c') \<Longrightarrow> safe Y K c' (f c')"
  shows "safe Y K c (r \<bind> f)"
proof -
  obtain c' where c': "r = Some c'" "lp_inv_at X c'" "calm c c'" "dom (lc_store c) \<inter> K \<subseteq> dom (lc_store c')"
    using assms(1) by (auto simp: safe_def)
  obtain c'' where c'': "f c' = Some c''" "lp_inv_at Y c''" "calm c' c''" "dom (lc_store c') \<inter> K \<subseteq> dom (lc_store c'')"
    using assms(2) [OF c'] by (auto simp: safe_def)
  have "dom (lc_store c) \<inter> K \<subseteq> dom (lc_store c'')" using c'(4) c''(4) by blast
  then show ?thesis using c'(1) c''(1,2) calm_trans [OF c'(3) c''(3)] by (simp add: safe_def)
qed

lemma safe_from:
  "safe X K c' r \<Longrightarrow> calm c c' \<Longrightarrow> dom (lc_store c) \<inter> K \<subseteq> dom (lc_store c') \<Longrightarrow> safe X K c r"
  unfolding safe_def by (elim exE conjE, intro exI conjI, assumption, assumption, erule (1) calm_trans) blast

lemma safe_less: "safe X K c r \<Longrightarrow> K' \<subseteq> K \<Longrightarrow> safe X K' c r"
  unfolding safe_def by blast

text \<open>Fields the invariant does not read.\<close>

lemma lp_inv_at_other [simp]:
  "lp_inv_at X (c\<lparr>lc_mux := m\<rparr>) = lp_inv_at X c" "lp_inv_at X (c\<lparr>lc_fd := i\<rparr>) = lp_inv_at X c"
  "lp_inv_at X (c\<lparr>lc_authed := b\<rparr>) = lp_inv_at X c" "lp_inv_at X (c\<lparr>lc_recv := bs\<rparr>) = lp_inv_at X c"
  "lp_inv_at X (c\<lparr>lc_notify := n\<rparr>) = lp_inv_at X c" "lp_inv_at X (c\<lparr>lc_notified := b\<rparr>) = lp_inv_at X c"
  "lp_inv_at X (c\<lparr>lc_wake := n\<rparr>) = lp_inv_at X c" "lp_inv_at X (c\<lparr>lc_stopping := b\<rparr>) = lp_inv_at X c"
  "lp_inv_at X (c\<lparr>lc_poll_mode := b\<rparr>) = lp_inv_at X c" "lp_inv_at X (c\<lparr>lc_nonce := bs\<rparr>) = lp_inv_at X c"
  "lp_inv_at X (c\<lparr>lc_proof := bs\<rparr>) = lp_inv_at X c"
  by (simp_all add: lp_inv_at_def flagged_def)

lemma flagged_other [simp]:
  "flagged P (c\<lparr>lc_mux := m\<rparr>) = flagged P c" "flagged P (c\<lparr>lc_authed := b\<rparr>) = flagged P c"
  "flagged P (c\<lparr>lc_pending := q\<rparr>) = flagged P c" "flagged P (c\<lparr>lc_ready := q\<rparr>) = flagged P c"
  "flagged P (c\<lparr>lc_accept := q\<rparr>) = flagged P c" "flagged P (c\<lparr>lc_reg := m'\<rparr>) = flagged P c"
  by (simp_all add: flagged_def)

lemma calm_other [simp]:
  "calm c (c\<lparr>lc_authed := b\<rparr>)" "calm c (c\<lparr>lc_notify := n\<rparr>)" "calm c (c\<lparr>lc_notified := b\<rparr>)"
  "calm c (c\<lparr>lc_wake := n\<rparr>)" "calm c (c\<lparr>lc_stopping := b\<rparr>)" "calm c (c\<lparr>lc_poll_mode := b\<rparr>)"
  by (simp_all add: calm_def handles_def reg_fresh_def flagged_def)

lemma lp_inv_mem: "lp_inv_at X c \<Longrightarrow> lc_mem c = []"
  by (simp add: lp_inv_at_def)

lemma mem_same: "lc_mem c = [] \<Longrightarrow> c\<lparr>lc_mem := []\<rparr> = c"
  by (cases c) simp

lemma live_in:
  "lp_inv_at X c \<Longrightarrow> p \<in> set (lc_pending c @ X) \<or> p \<in> set (lc_ready c) \<or> p \<in> set (lc_accept c) \<or> p \<in> set (lc_all c) \<or>
     umap_view (lc_reg c) sid = Some p \<Longrightarrow> \<exists>st. lc_store c p = Some st"
  unfolding lp_inv_at_def flagged_def by (elim conjE disjE) blast+

section \<open>The session behind the client\<close>

lemma reg_fresh_path:
  assumes "reg_fresh c" "mux_path (lc_mux c) (lc_mux c')" "dom (umap_view (lc_reg c')) \<subseteq> dom (umap_view (lc_reg c))"
  shows "reg_fresh c'"
proof -
  obtain L where L: "dom (umap_view (lc_reg c)) \<subseteq> set L" "case lc_mux c of None \<Rightarrow> L = [] | Some s \<Rightarrow> ids_fresh L s"
    using assms(1) by (auto simp: reg_fresh_def)
  have "case lc_mux c' of None \<Rightarrow> L = [] | Some s \<Rightarrow> ids_fresh L s"
    using L(2) assms(2) steps_fresh by (auto simp: mux_path_def split: option.splits)
  then show ?thesis unfolding reg_fresh_def using L(1) assms(3) by blast
qed

lemma calm_path: "mux_path (lc_mux c) m \<Longrightarrow> calm c (c\<lparr>lc_mux := m\<rparr>)"
  using reg_fresh_path [of c "c\<lparr>lc_mux := m\<rparr>"] by (auto simp: calm_def handles_def mux_path_def)

section \<open>Updates of a stream\<close>

text \<open>Updates that change neither identity, list membership, nor the application's claim.\<close>

definition quiet :: "(lp_stream \<Rightarrow> lp_stream) \<Rightarrow> bool" where
  "quiet f \<longleftrightarrow> (\<forall>st. ls_sid (f st) = ls_sid st \<and> ls_in_reg (f st) = ls_in_reg st \<and>
     ls_in_pending (f st) = ls_in_pending st \<and> ls_in_ready (f st) = ls_in_ready st \<and>
     ls_app_closed (f st) = ls_app_closed st \<and>
     (buf_inv (ls_rbuf st) \<and> buf_inv (ls_wbuf st) \<longrightarrow> buf_inv (ls_rbuf (f st)) \<and> buf_inv (ls_wbuf (f st))))"

lemma upd_stream_sel [simp]:
  "lc_store (upd_stream c p f) q = (if q = p then map_option f (lc_store c p) else lc_store c q)"
  "dom (lc_store (upd_stream c p f)) = dom (lc_store c)"
  "lc_reg (upd_stream c p f) = lc_reg c" "lc_all (upd_stream c p f) = lc_all c"
  "lc_pending (upd_stream c p f) = lc_pending c" "lc_ready (upd_stream c p f) = lc_ready c"
  "lc_accept (upd_stream c p f) = lc_accept c" "lc_next (upd_stream c p f) = lc_next c"
  "lc_mem (upd_stream c p f) = lc_mem c" "lc_poll_mode (upd_stream c p f) = lc_poll_mode c"
  "lc_mux (upd_stream c p f) = lc_mux c" "lc_cfg (upd_stream c p f) = lc_cfg c"
  "lc_recv (upd_stream c p f) = lc_recv c" "lc_fd (upd_stream c p f) = lc_fd c"
  by (auto simp: upd_stream_def)

lemma reg_fresh_upd [simp]: "reg_fresh (upd_stream c p f) = reg_fresh c"
  by (simp add: reg_fresh_def)

lemma flagged_upd:
  "flagged P (upd_stream c p f) = (flagged P c - {p}) \<union> (if \<exists>st. lc_store c p = Some st \<and> P (f st) then {p} else {})"
  by (auto simp: flagged_def)

lemma flagged_quiet:
  assumes "\<And>st. P (f st) = P st" shows "flagged P (upd_stream c p f) = flagged P c"
  using assms by (auto simp: flagged_def)

lemma calm_upd: "(\<And>st. ls_app_closed (f st) = ls_app_closed st) \<Longrightarrow> calm c (upd_stream c p f)"
  by (simp add: calm_def handles_def flagged_quiet)

lemma upd_quiet:
  assumes inv: "lp_inv_at X c" and q: "quiet f"
  shows "lp_inv_at X (upd_stream c p f)" "calm c (upd_stream c p f)"
proof -
  have "flagged (\<lambda>st. buf_inv (ls_rbuf st) \<and> buf_inv (ls_wbuf st)) c \<subseteq>
      flagged (\<lambda>st. buf_inv (ls_rbuf st) \<and> buf_inv (ls_wbuf st)) (upd_stream c p f)"
    using q by (auto simp: flagged_def quiet_def)
  then show "lp_inv_at X (upd_stream c p f)"
    using inv q unfolding lp_inv_at_def quiet_def
    by (auto simp: flagged_quiet)
  show "calm c (upd_stream c p f)" using q by (simp add: calm_upd quiet_def)
qed

lemma upd_quiet_safe:
  assumes "lp_inv_at X c" "quiet f" "safe X K (upd_stream c p f) r" shows "safe X K c r"
  by (rule safe_from [OF assms(3) upd_quiet(2) [OF assms(1,2)]]) simp

section \<open>The lists\<close>

lemma pending_push_safe:
  assumes inv: "lp_inv_at X c" and p: "lc_store c p = Some st"
  shows "safe X K c (pending_push c p)"
proof (cases "ls_in_pending st")
  case True
  then show ?thesis using inv p by (simp add: pending_push_def safe_self)
next
  case False
  let ?f = "\<lambda>st. st\<lparr>ls_in_pending := True\<rparr>"
  let ?c = "upd_stream (c\<lparr>lc_pending := p # lc_pending c\<rparr>) p ?f"
  have np: "p \<notin> flagged ls_in_pending c" using False p by (auto simp: flagged_def)
  have "flagged ls_in_pending ?c = insert p (flagged ls_in_pending c)" using p by (auto simp: flagged_upd)
  moreover have q: "flagged P ?c = flagged P c" if "\<And>st. P (?f st) = P st" for P
    using flagged_quiet [of P ?f "c\<lparr>lc_pending := p # lc_pending c\<rparr>" p] that by simp
  ultimately have "lp_inv_at X ?c" using inv np unfolding lp_inv_at_def by auto
  moreover have "calm c ?c" using q by (simp add: calm_def handles_def reg_fresh_def)
  ultimately show ?thesis using p False by (simp add: pending_push_def safe_def)
qed

lemma notify_raise_inv [simp]: "lp_inv_at X (notify_raise c) = lp_inv_at X c"
  by (simp add: notify_raise_def)

lemma notify_raise_sel [simp]:
  "lc_store (notify_raise c) = lc_store c" "lc_accept (notify_raise c) = lc_accept c" "lc_all (notify_raise c) = lc_all c"
  "lc_ready (notify_raise c) = lc_ready c" "lc_pending (notify_raise c) = lc_pending c" "lc_mux (notify_raise c) = lc_mux c"
  "lc_reg (notify_raise c) = lc_reg c" "lc_mem (notify_raise c) = lc_mem c" "lc_cfg (notify_raise c) = lc_cfg c"
  "lc_recv (notify_raise c) = lc_recv c" "lc_fd (notify_raise c) = lc_fd c" "lc_next (notify_raise c) = lc_next c"
  by (simp_all add: notify_raise_def)

lemma notify_raise_calm [simp]: "calm c (notify_raise c') = calm c c'"
  by (simp add: calm_def handles_def flagged_def reg_fresh_def)

lemma ready_mark_safe:
  assumes inv: "lp_inv_at X c" and p: "lc_store c p = Some st"
  shows "safe X K c (ready_mark c p bits)"
proof (cases "lc_poll_mode c")
  case True
  define c1 where "c1 = upd_stream c p (\<lambda>st. st\<lparr>ls_ev_pending := ls_ev_pending st OR bits\<rparr>)"
  have 1: "lp_inv_at X c1" "calm c c1" unfolding c1_def by (rule upd_quiet [OF inv]; simp add: quiet_def)+
  let ?f = "\<lambda>st. st\<lparr>ls_in_ready := True\<rparr>"
  define c2 where "c2 = (if \<not> ls_in_ready st then upd_stream (c1\<lparr>lc_ready := p # lc_ready c1\<rparr>) p ?f else c1)"
  have "lp_inv_at X c2 \<and> calm c1 c2"
  proof (cases "ls_in_ready st")
    case False
    let ?c = "upd_stream (c1\<lparr>lc_ready := p # lc_ready c1\<rparr>) p ?f"
    have p1: "\<exists>st'. lc_store c1 p = Some st'" and np: "p \<notin> flagged ls_in_ready c1"
      using False p by (auto simp: flagged_def c1_def)
    have "flagged ls_in_ready ?c = insert p (flagged ls_in_ready c1)" using p1 by (auto simp: flagged_upd)
    moreover have q: "flagged P ?c = flagged P c1" if "\<And>st. P (?f st) = P st" for P
      using flagged_quiet [of P ?f "c1\<lparr>lc_ready := p # lc_ready c1\<rparr>" p] that by simp
    ultimately have "lp_inv_at X ?c" using 1 np unfolding lp_inv_at_def by auto
    moreover have "calm c1 ?c" using q by (simp add: calm_def handles_def reg_fresh_def)
    ultimately show ?thesis using False by (simp add: c2_def)
  qed (use 1 in \<open>simp add: c2_def\<close>)
  moreover have "ready_mark c p bits = Some (notify_raise c2)" using True p by (simp add: ready_mark_def c1_def c2_def)
  moreover have "dom (lc_store c2) = dom (lc_store c)" by (simp add: c2_def c1_def)
  ultimately show ?thesis using calm_trans [OF 1(2)] by (simp add: safe_def)
qed (use inv in \<open>simp add: ready_mark_def safe_self\<close>)

section \<open>Creating and freeing\<close>

lemma ev_opened_inv:
  assumes inv: "lp_inv_at X c" and fresh: "umap_view (lc_reg c) sid = None"
  shows "\<exists>c' st. ev_opened c sid meta = Some c' \<and> lp_inv_at X c' \<and> lc_accept c' = lc_accept c @ [lc_next c] \<and>
    lc_mux c' = lc_mux c \<and> dom (umap_view (lc_reg c')) = insert sid (dom (umap_view (lc_reg c))) \<and>
    lc_next c' = lc_next c + 1 \<and> lc_recv c' = lc_recv c \<and> lc_fd c' = lc_fd c \<and>
    lc_store c' = (lc_store c)(lc_next c \<mapsto> st) \<and> ls_sid st = sid \<and> ls_meta st = blob meta \<and> \<not> ls_app_closed st"
proof -
  let ?p = "lc_next c"
  have mem: "lc_mem c = []" and reg: "umap_inv (lc_reg c)" using inv by (simp_all add: lp_inv_at_def)
  define st where "st = \<lparr>ls_sid = sid, ls_in_reg = False, ls_rbuf = buf_zero, ls_wbuf = buf_zero, ls_consume_pending = 0,
     ls_eof = False, ls_reset = False, ls_app_closed = False, ls_fin_sent = False, ls_proto_done = False,
     ls_meta = blob meta, ls_in_pending = False, ls_ev_pending = 0, ls_in_ready = False, ls_want_writable = False\<rparr>"
  define c1 where "c1 = c\<lparr>lc_next := ?p + 1, lc_all := ?p # lc_all c, lc_store := (lc_store c)(?p \<mapsto> st)\<rparr>"
  have new: "stream_new c sid meta = (Some ?p, c1)"
    using mem by (cases c; cases "blob meta") (simp_all add: stream_new_def c1_def st_def)
  obtain m where m: "umap_store (lc_reg c) sid (Some ?p) [] = Some (True, m, [])" "umap_inv m"
    "umap_view m = (umap_view (lc_reg c))(sid \<mapsto> ?p)"
    using umap_store_spec [OF reg, of sid ?p] fresh by auto
  define st' where "st' = st\<lparr>ls_in_reg := True\<rparr>"
  define c2 where "c2 = c1\<lparr>lc_reg := m, lc_mem := [], lc_store := (lc_store c)(?p \<mapsto> st'), lc_accept := lc_accept c @ [?p]\<rparr>"
  have op: "ev_opened c sid meta = Some (notify_raise c2)"
    using new m(1) mem by (simp add: ev_opened_def reg_put_def c1_def c2_def upd_stream_def st'_def Let_def)
  have out: "?p \<notin> dom (lc_store c)" using inv by (auto simp: lp_inv_at_def)
  have fl: "flagged P c2 = flagged P c \<union> (if P st' then {?p} else {})" for P
    using out by (auto simp: flagged_def c2_def c1_def)
  have no: "ls_sid x \<noteq> sid" if "lc_store c q = Some x" "ls_in_reg x" for q x
  proof
    assume "ls_sid x = sid"
    then have "q \<in> flagged (\<lambda>st. ls_in_reg st \<and> ls_sid st = sid) c" using that by (simp add: flagged_def)
    then have "umap_view (lc_reg c) sid = Some q" using inv by (simp add: lp_inv_at_def)
    then show False using fresh by simp
  qed
  have dp: "?p \<notin> set (lc_all c)" "?p \<notin> set (lc_pending c @ X)" "?p \<notin> set (lc_ready c)" "?p \<notin> set (lc_accept c)"
    using live_in [OF inv, of ?p] out by blast+
  have "lp_inv_at X c2"
    unfolding lp_inv_at_def fl using inv out dp m(2,3) no mem
    by (auto simp: lp_inv_at_def c2_def c1_def st'_def st_def less_Suc_eq flagged_def split: if_splits)
  then show ?thesis
    using op m(3) by (intro exI [of _ "notify_raise c2"] exI [of _ st']) (simp add: c2_def c1_def st'_def st_def)
qed

text \<open>Re-inserting writes a flag that is set already.\<close>

lemma used_cell_view:
  assumes inv: "umap_inv m" and i: "i < um_cap m" "ms_used (um_s m ! i)"
  shows "umap_view m (ms_k (um_s m ! i)) = ms_v (um_s m ! i) \<and> ms_v (um_s m ! i) \<noteq> None"
proof -
  have p: "um.pinv (um_s m)" using inv by (simp add: umap_inv_def)
  have k: "um_key (um_s m ! i) = Some (ms_k (um_s m ! i))" using i by (simp add: um_key_def)
  have "table_view um_key (um_s m) (ms_k (um_s m ! i)) = Some (um_s m ! i)"
    using um.view_keyed [of "um_s m"] um.pinv_unique [OF p] i(1) k by auto
  then show ?thesis using inv by (auto simp: umap_view_def umap_inv_def)
qed

lemma reg_run_values:
  assumes "\<And>i. i < length s \<Longrightarrow> ms_used (s ! i) \<Longrightarrow> Q (ms_v (s ! i))" "length s = 2 ^ k" "j < length s" "v \<in> set (reg_run s j n)"
  shows "Q v"
  using assms(3,4)
proof (induction n arbitrary: j)
  case (Suc n)
  have "(j + 1) AND (length s - 1) < length s" using and_mask_mod [OF assms(2), of "j + 1"] assms(2) by simp
  then show ?case using Suc.IH [of "(j + 1) AND (length s - 1)"] Suc.prems assms(1) by (auto split: if_splits)
qed simp

lemma reg_moved_live:
  assumes inv: "lp_inv_at X c" and cap: "um_cap (lc_reg c) \<noteq> 0" and v: "v \<in> set (reg_moved (lc_reg c) sid)"
  shows "\<exists>p st. v = Some p \<and> lc_store c p = Some st \<and> ls_in_reg st"
proof -
  let ?m = "lc_reg c"
  let ?Q = "\<lambda>v. \<exists>p st. v = Some p \<and> lc_store c p = Some st \<and> ls_in_reg st"
  have reg: "umap_inv ?m" using inv by (simp add: lp_inv_at_def)
  obtain k where k: "um_cap ?m = 2 ^ k" using reg cap by (auto simp: umap_inv_def)
  have q: "?Q (ms_v (um_s ?m ! i))" if i: "i < um_cap ?m" "ms_used (um_s ?m ! i)" for i
  proof -
    obtain p where "ms_v (um_s ?m ! i) = Some p" "umap_view ?m (ms_k (um_s ?m ! i)) = Some p"
      using used_cell_view [OF reg i] by auto
    then show ?thesis using inv by (auto simp: lp_inv_at_def flagged_def)
  qed
  have q': "?Q (ms_v (um_s (umap_clear ?m x) ! i))" if "i < um_cap ?m" "ms_used (um_s (umap_clear ?m x) ! i)" for i x
    using that q [of i] by (cases "i = x") (auto simp: umap_clear_def)
  have lt: "(x + 1) AND (um_cap ?m - 1) < um_cap ?m" for x using and_mask_mod [OF k, of "x + 1"] k by simp
  have len: "length (um_s (umap_clear ?m x)) = um_cap ?m" for x by (simp add: umap_clear_def)
  show ?thesis
  proof (cases "umap_probe (um_s ?m) sid (umix sid (um_cap ?m - 1)) (um_cap ?m - 1 + 1)")
    case (Hit x)
    then have "v \<in> set (reg_run (um_s (umap_clear ?m x)) ((x + 1) AND (um_cap ?m - 1)) (um_cap ?m - 1 + 1))"
      using v by (simp add: reg_moved_def Let_def)
    from reg_run_values [OF _ _ _ this, of ?Q k] show ?thesis using q' lt k unfolding len by blast
  next
    case (Miss x)
    then have "v \<in> set (reg_run (um_s ?m) ((x + 1) AND (um_cap ?m - 1)) (um_cap ?m - 1 + 1))"
      using v by (simp add: reg_moved_def Let_def)
    from reg_run_values [OF _ _ _ this, of ?Q k] show ?thesis using q lt k by blast
  next
    case (Round x)
    then have "v \<in> set (reg_run (um_s ?m) ((x + 1) AND (um_cap ?m - 1)) (um_cap ?m - 1 + 1))"
      using v by (simp add: reg_moved_def Let_def)
    from reg_run_values [OF _ _ _ this, of ?Q k] show ?thesis using q lt k by blast
  qed
qed

lemma reg_touch_same:
  assumes "\<And>v. v \<in> set vs \<Longrightarrow> \<exists>p st. v = Some p \<and> lc_store c p = Some st \<and> ls_in_reg st"
  shows "reg_touch c vs = Some c"
  using assms
proof (induction vs)
  case (Cons v vs)
  obtain p st where p: "v = Some p" "lc_store c p = Some st" "ls_in_reg st" using Cons.prems [of v] by auto
  have "st\<lparr>ls_in_reg := True\<rparr> = st" using p(3) by (cases st) simp
  then have "upd_stream c p (\<lambda>st. st\<lparr>ls_in_reg := True\<rparr>) = c"
    using p by (cases c) (auto simp: upd_stream_def fun_upd_idem_iff)
  then show ?case using p Cons by simp
qed simp

lemma reg_remove_eq:
  assumes inv: "lp_inv_at X c" and at: "umap_view (lc_reg c) sid = Some p"
  shows "\<exists>m. reg_remove c sid = Some (c\<lparr>lc_reg := m\<rparr>) \<and> umap_inv m \<and> umap_view m = (umap_view (lc_reg c))(sid := None)"
proof -
  have reg: "umap_inv (lc_reg c)" and mem: "lc_mem c = []" using inv by (simp_all add: lp_inv_at_def)
  have cap: "um_cap (lc_reg c) \<noteq> 0" using at by (auto simp: umap_view_def table_view_def)
  obtain m where m: "reg_del (lc_reg c) sid [] = Some (m, [])" "umap_inv m" "umap_view m = (umap_view (lc_reg c))(sid := None)"
    using reg_del_spec [OF reg cap] by blast
  have "reg_touch (c\<lparr>lc_reg := m\<rparr>) (reg_moved (lc_reg c) sid) = Some (c\<lparr>lc_reg := m\<rparr>)"
    using reg_moved_live [OF inv cap] by (intro reg_touch_same) simp
  moreover have same: "c\<lparr>lc_reg := m, lc_mem := []\<rparr> = c\<lparr>lc_reg := m\<rparr>" using mem by (cases c) simp
  ultimately show ?thesis using m mem cap by (intro exI [of _ m]) (simp add: reg_remove_def same)
qed

text \<open>A stream that is freed leaves the registry and the list of streams; no other list has it.\<close>

lemma free_registry:
  assumes inv: "lp_inv_at X c" and p: "lc_store c p = Some st"
  shows "\<exists>m. (if ls_in_reg st then reg_remove c (ls_sid st) else Some c) = Some (c\<lparr>lc_reg := m\<rparr>) \<and> umap_inv m \<and>
    dom (umap_view m) \<subseteq> dom (umap_view (lc_reg c)) \<and>
    (\<forall>sid q. umap_view m sid = Some q \<longleftrightarrow> q \<in> flagged (\<lambda>st. ls_in_reg st \<and> ls_sid st = sid) c - {p})"
proof (cases "ls_in_reg st")
  case True
  have at: "umap_view (lc_reg c) sid = Some q \<longleftrightarrow> q \<in> flagged (\<lambda>st. ls_in_reg st \<and> ls_sid st = sid) c" for sid q
    using inv by (simp add: lp_inv_at_def)
  have v: "umap_view (lc_reg c) (ls_sid st) = Some p" unfolding at using p True by (simp add: flagged_def)
  obtain m where m: "reg_remove c (ls_sid st) = Some (c\<lparr>lc_reg := m\<rparr>)" "umap_inv m"
    "umap_view m = (umap_view (lc_reg c))(ls_sid st := None)" using reg_remove_eq [OF inv v] by blast
  have "umap_view m sid = Some q \<longleftrightarrow> q \<in> flagged (\<lambda>st. ls_in_reg st \<and> ls_sid st = sid) c - {p}" for sid q
  proof (cases "sid = ls_sid st")
    case True
    then show ?thesis using at [of sid q] v m(3) by auto
  next
    case False
    then have "p \<notin> flagged (\<lambda>st. ls_in_reg st \<and> ls_sid st = sid) c" using p by (auto simp: flagged_def)
    then show ?thesis using at [of sid q] m(3) False by auto
  qed
  then show ?thesis using m True by (intro exI [of _ m]) auto
next
  case False
  then have "p \<notin> flagged (\<lambda>st. ls_in_reg st \<and> ls_sid st = sid) c" for sid using p by (auto simp: flagged_def)
  then show ?thesis using inv False by (intro exI [of _ "lc_reg c"]) (auto simp: lp_inv_at_def)
qed

lemma stream_try_free_safe:
  assumes inv: "lp_inv_at X c" and p: "lc_store c p = Some st"
  shows "safe X (- {p}) c (stream_try_free c p)"
proof (cases "ls_proto_done st \<and> ls_app_closed st \<and> \<not> ls_in_pending st \<and> \<not> ls_in_ready st")
  case False
  then show ?thesis using inv p by (auto simp: stream_try_free_def safe_self)
next
  case True
  obtain m where m: "(if ls_in_reg st then reg_remove c (ls_sid st) else Some c) = Some (c\<lparr>lc_reg := m\<rparr>)" "umap_inv m"
    "dom (umap_view m) \<subseteq> dom (umap_view (lc_reg c))"
    "\<forall>sid q. umap_view m sid = Some q \<longleftrightarrow> q \<in> flagged (\<lambda>st. ls_in_reg st \<and> ls_sid st = sid) c - {p}"
    using free_registry [OF inv p] by blast
  define c' where "c' = c\<lparr>lc_reg := m, lc_all := remove1 p (lc_all c), lc_store := (lc_store c)(p := None)\<rparr>"
  have free: "stream_try_free c p = Some c'" using True p m(1) by (simp add: stream_try_free_def c'_def)
  have fl: "flagged P c' = flagged P c - {p}" for P by (auto simp: flagged_def c'_def)
  have np: "p \<notin> flagged ls_in_pending c" "p \<notin> flagged ls_in_ready c" "p \<notin> app_open c"
    using True p by (auto simp: flagged_def)
  have "lp_inv_at X c'"
    unfolding lp_inv_at_def fl using inv np m(2,4)
    by (auto simp: lp_inv_at_def c'_def set_remove1_eq)
  moreover have "calm c c'"
    using np(3) m(3) reg_fresh_path [of c c'] fl by (simp add: calm_def handles_def c'_def)
  ultimately show ?thesis using free by (auto simp: safe_def c'_def)
qed

section \<open>Events\<close>

lemma reg_get_live:
  assumes "lp_inv_at X c" "reg_get c sid = Some p" shows "\<exists>st. lc_store c p = Some st"
proof -
  have "umap_view (lc_reg c) sid = Some p" using assms umap_get_view [of "lc_reg c" sid] by (simp add: reg_get_def lp_inv_at_def)
  then show ?thesis using live_in [OF assms(1)] by blast
qed

lemma ev_data_safe: "lp_inv_at X c \<Longrightarrow> safe X UNIV c (ev_data c sid data)"
proof (cases "reg_get c sid")
  case (Some p)
  assume inv: "lp_inv_at X c"
  obtain st where st: "lc_store c p = Some st" using reg_get_live [OF inv Some] by blast
  obtain ok b h where b: "libpeer_buf_append (ls_rbuf st) (blob data) [] = (ok, b, h)" by (metis prod_cases3)
  have ri: "buf_inv (ls_rbuf st)" using inv st by (auto simp: lp_inv_at_def flagged_def)
  note sp = libpeer_buf_append_spec [OF ri b]
  have q: "quiet (\<lambda>st. st\<lparr>ls_rbuf := b\<rparr>)" using sp by (simp add: quiet_def)
  have "safe X UNIV (upd_stream c p (\<lambda>st. st\<lparr>ls_rbuf := b\<rparr>))
      (ready_mark (upd_stream c p (\<lambda>st. st\<lparr>ls_rbuf := b\<rparr>)) p LP_READABLE)"
    by (rule ready_mark_safe [OF upd_quiet(1) [OF inv q]]) (simp add: st)
  then show ?thesis
    using upd_quiet_safe [OF inv q] Some st b sp lp_inv_mem [OF inv] by (simp add: ev_data_def mem_same)
qed (simp add: ev_data_def safe_self)

lemma mark_and_free:
  assumes inv: "lp_inv_at X c" and st: "lc_store c p = Some st" and q: "quiet f"
  shows "safe X (- {p}) c (do { c \<leftarrow> ready_mark (upd_stream c p f) p bits; stream_try_free c p })"
proof (rule upd_quiet_safe [OF inv q, of _ p])
  let ?c = "upd_stream c p f"
  have inv': "lp_inv_at X ?c" and st': "lc_store ?c p = Some (f st)" using upd_quiet(1) [OF inv q] st by simp_all
  obtain c1 where c1: "ready_mark ?c p bits = Some c1" "lp_inv_at X c1" "calm ?c c1" "dom (lc_store ?c) \<subseteq> dom (lc_store c1)"
    using ready_mark_safe [OF inv' st', of UNIV bits] by (auto simp: safe_def)
  obtain st1 where "lc_store c1 p = Some st1" using c1(4) st' by blast
  from stream_try_free_safe [OF c1(2) this] c1(1,3,4)
  show "safe X (- {p}) ?c (do { c \<leftarrow> ready_mark ?c p bits; stream_try_free c p })"
    by (simp add: safe_from subset_iff)
qed

lemma ev_closed_safe: "lp_inv_at X c \<Longrightarrow> safe X {} c (ev_closed c sid)"
proof (cases "reg_get c sid")
  case (Some p)
  assume inv: "lp_inv_at X c"
  obtain st where st: "lc_store c p = Some st" using reg_get_live [OF inv Some] by blast
  show ?thesis using safe_less [OF mark_and_free [OF inv st]] Some st by (simp add: ev_closed_def quiet_def)
qed (simp add: ev_closed_def safe_self)

lemma ev_reset_safe: "lp_inv_at X c \<Longrightarrow> safe X {} c (ev_reset c sid)"
proof (cases "reg_get c sid")
  case (Some p)
  assume inv: "lp_inv_at X c"
  obtain st where st: "lc_store c p = Some st" using reg_get_live [OF inv Some] by blast
  show ?thesis using safe_less [OF mark_and_free [OF inv st]] Some st by (simp add: ev_reset_def quiet_def)
qed (simp add: ev_reset_def safe_self)

lemma ev_writable_safe: "lp_inv_at X c \<Longrightarrow> safe X {} c (ev_writable c sid)"
proof (cases "reg_get c sid")
  case (Some p)
  assume inv: "lp_inv_at X c"
  obtain st where st: "lc_store c p = Some st" using reg_get_live [OF inv Some] by blast
  show ?thesis using pending_push_safe [OF inv st] safe_self [OF inv] Some st by (simp add: ev_writable_def)
qed (simp add: ev_writable_def safe_self)

lemma ev_hello_safe: "lp_inv_at X c \<Longrightarrow> safe X {} c (ev_hello c hi)"
proof (cases "lf_token (lc_cfg c)")
  case (Some t)
  assume inv: "lp_inv_at X c"
  obtain ok where "hello_authentic (Some t) hi = Some ok" using hello_authentic_total by blast
  moreover have "calm c (c\<lparr>lc_authed := False, lc_mux := via_goaway (lc_mux c) MUX_CODE_REFUSED\<rparr>)"
    by (rule calm_trans [OF calm_other(1) calm_path]) (simp add: via_path_goaway)
  ultimately show ?thesis using Some inv by (simp add: ev_hello_def Let_def safe_def)
qed (simp add: ev_hello_def safe_def)

text \<open>Taking an event: the id of a stream announced now is not registered.\<close>

lemma next_event_fresh:
  assumes f: "reg_fresh c" and n: "lc_mux c = Some s" "mux_next_event s = Some (ev, s')"
  shows "reg_fresh (c\<lparr>lc_mux := Some s'\<rparr>)" "\<exists>e. ev = Some e"
    "ev = Some (EV_STREAM_OPENED sid m) \<Longrightarrow> umap_view (lc_reg c) sid = None"
    "ev = Some (EV_STREAM_OPENED sid m) \<Longrightarrow> dom (umap_view (lc_reg c')) = insert sid (dom (umap_view (lc_reg c))) \<Longrightarrow>
       lc_mux c' = Some s' \<Longrightarrow> reg_fresh c'"
proof -
  obtain L where L: "dom (umap_view (lc_reg c)) \<subseteq> set L" "ids_fresh L s" using f n(1) by (auto simp: reg_fresh_def)
  have "mux_path (Some s) (Some s')" using n(2) by (intro mux_path_step step_event)
  then show "reg_fresh (c\<lparr>lc_mux := Some s'\<rparr>)" using reg_fresh_path [OF f, of "c\<lparr>lc_mux := Some s'\<rparr>"] n(1) by simp
  have "evq_inv (s_q s)" using L(2) by (simp add: ids_fresh_def)
  then show "\<exists>e. ev = Some e"
    using n(2) evq_next_spec [of "s_q s"] by (cases "evq_content (s_q s)") (auto simp: mux_next_event_def split: option.splits)
  assume op: "ev = Some (EV_STREAM_OPENED sid m)"
  have f': "ids_fresh (L @ [sid]) s'" using next_opened [OF L(2) n(2)] op by simp
  have "sid \<notin> set L"
  proof
    assume "sid \<in> set L"
    then show False using f' by (auto simp: ids_fresh_def sorted_wrt_append)
  qed
  then show "umap_view (lc_reg c) sid = None" using L(1) by blast
  show "reg_fresh c'" if "dom (umap_view (lc_reg c')) = insert sid (dom (umap_view (lc_reg c)))" "lc_mux c' = Some s'"
    unfolding reg_fresh_def using that f' L(1) by (intro exI [of _ "L @ [sid]"]) auto
qed

lemma event_safe:
  assumes inv: "lp_inv_at X c" and f: "reg_fresh c" and n: "lc_mux c = Some s" "mux_next_event s = Some (Some e, s')"
  shows "safe X {} c (handle_event (c\<lparr>lc_mux := Some s'\<rparr>) e)"
proof (cases "\<exists>sid m. e = EV_STREAM_OPENED sid m")
  case True
  then obtain sid m where e: "e = EV_STREAM_OPENED sid m" by blast
  let ?c = "c\<lparr>lc_mux := Some s'\<rparr>"
  have inv': "lp_inv_at X ?c" and none: "umap_view (lc_reg ?c) sid = None"
    using inv next_event_fresh(3) [OF f n] e by simp_all
  obtain c' st where c': "ev_opened ?c sid m = Some c'" "lp_inv_at X c'" "lc_accept c' = lc_accept c @ [lc_next c]"
    "lc_mux c' = Some s'" "dom (umap_view (lc_reg c')) = insert sid (dom (umap_view (lc_reg c)))"
    "lc_next c' = lc_next c + 1" "lc_recv c' = lc_recv c" "lc_fd c' = lc_fd c" "lc_store c' = (lc_store c)(lc_next c \<mapsto> st)"
    "\<not> ls_app_closed st"
    using ev_opened_inv [OF inv' none, of m] by auto
  have "reg_fresh c'" using next_event_fresh(4) [OF f n, of sid m c'] e c'(4,5) by simp
  moreover have "handles c' = handles c"
    using c'(3,9,10) inv by (auto simp: handles_def flagged_def lp_inv_at_def split: if_splits)
  ultimately have "calm c c'" using c'(7,8) n(1) by (simp add: calm_def)
  then show ?thesis using c'(1,2) e by (simp add: safe_def handle_event_def)
next
  case False
  have cal: "calm c (c\<lparr>lc_mux := Some s'\<rparr>)" using next_event_fresh(1) [OF f n] n(1) by (simp add: calm_def handles_def)
  have inv': "lp_inv_at X (c\<lparr>lc_mux := Some s'\<rparr>)" using inv by simp
  have "safe X {} (c\<lparr>lc_mux := Some s'\<rparr>) (handle_event (c\<lparr>lc_mux := Some s'\<rparr>) e)"
    using False safe_less [OF ev_data_safe [OF inv']] ev_closed_safe [OF inv'] ev_reset_safe [OF inv'] ev_writable_safe [OF inv']
      ev_hello_safe [OF inv'] safe_self [OF inv']
    by (cases e) (simp_all add: handle_event_def)
  from safe_from [OF this cal] show ?thesis by simp
qed

end
