(* ===== verification/Mux_Libpeer_Safe.thy ===== *)
theory Mux_Libpeer_Safe
  imports Mux_Libpeer_Inv
begin

text \<open>
  Memory safety of libpeer, second part: the loops of the I/O thread end, the teardown of a
  session, the calls of the application, and the theorem over all interleavings of the two
  sides.
\<close>

section \<open>The event loop ends\<close>

lemma ready_mark_mux: "ready_mark c p b = Some c' \<Longrightarrow> lc_mux c' = lc_mux c"
  by (auto simp: ready_mark_def Let_def split: bind_splits if_splits)

lemma reg_touch_mux: "reg_touch c vs = Some c' \<Longrightarrow> lc_mux c' = lc_mux c"
  by (induction vs arbitrary: c) (auto split: bind_splits)

lemma stream_try_free_mux: "stream_try_free c p = Some c' \<Longrightarrow> lc_mux c' = lc_mux c"
  by (auto simp: stream_try_free_def reg_remove_def split: bind_splits if_splits dest!: reg_touch_mux)

lemma pending_push_mux: "pending_push c p = Some c' \<Longrightarrow> lc_mux c' = lc_mux c"
  by (auto simp: pending_push_def split: bind_splits if_splits)

lemma handle_event_left:
  assumes "handle_event c e = Some c'" "lc_mem c = []" shows "evs_left (lc_mux c') \<le> evs_left (lc_mux c)"
proof (cases e)
  case (EV_PEER_HELLO hi)
  then show ?thesis using assms(1) via_out(5) [of "lc_mux c" MUX_CODE_REFUSED]
    by (auto simp: handle_event_def ev_hello_def Let_def mux_out_def split: option.splits bind_splits if_splits)
next
  case (EV_STREAM_OPENED sid m)
  then show ?thesis using assms
    by (auto simp: handle_event_def ev_opened_def stream_new_def reg_put_def Let_def split: bind_splits prod.splits if_splits)
qed (use assms(1) in \<open>auto simp: handle_event_def ev_data_def ev_closed_def ev_reset_def ev_writable_def
    split: option.splits bind_splits if_splits prod.splits dest!: ready_mark_mux stream_try_free_mux pending_push_mux\<close>)

lemma handle_events_safe: "lp_inv_at X c \<Longrightarrow> reg_fresh c \<Longrightarrow> safe X {} c (handle_events c)"
proof (induction "evs_left (lc_mux c)" arbitrary: c rule: less_induct)
  case less
  note inv = less.prems(1) and f = less.prems(2)
  show ?case
  proof (cases "Option.bind (lc_mux c) mux_next_event")
    case None
    then show ?thesis using inv by (simp add: handle_events.simps [of c] safe_self)
  next
    case (Some evs)
    then obtain s ev s' where n: "lc_mux c = Some s" "mux_next_event s = Some (ev, s')" "evs = (ev, s')"
      by (cases "lc_mux c") (auto intro: prod.exhaust [of evs])
    obtain e where e: "ev = Some e" using next_event_fresh(2) [OF f n(1,2)] by blast
    obtain L where L: "ids_fresh L s" using f n(1) by (auto simp: reg_fresh_def)
    obtain c1 where c1: "handle_event (c\<lparr>lc_mux := Some s'\<rparr>) e = Some c1" "lp_inv_at X c1" "calm c c1"
      using event_safe [OF inv f n(1)] n(2) e by (auto simp: safe_def)
    have "evs_left (lc_mux c1) \<le> evs_left (Some s')" using handle_event_left [OF c1(1)] lp_inv_mem [OF inv] by simp
    then have lt: "evs_left (lc_mux c1) < evs_left (lc_mux c)" using next_event_left [OF L n(2)] n(1) by simp
    have f1: "reg_fresh c1" using c1(3) f by (simp add: calm_def)
    have "safe X {} c (handle_events c1)" by (rule safe_from [OF less.hyps [OF lt c1(2) f1] c1(3)]) simp
    then show ?thesis using Some n e c1(1) by (subst handle_events.simps) simp
  qed
qed

section \<open>Work queued by the application\<close>

lemma drain_wbuf_path:
  "buf_inv b \<Longrightarrow> drain_wbuf m sid b = (m', b') \<Longrightarrow> mux_path m m' \<and> buf_inv b'"
proof (induction m sid b rule: drain_wbuf.induct)
  case (1 m sid b)
  obtain r m1 where w: "via_write m sid (buf_bytes b) = (r, m1)" by (metis prod.collapse)
  have p: "mux_path m m1" using via_path_write [of m sid "buf_bytes b"] w by simp
  show ?case
  proof (cases "\<not> buf_avail b > 0 \<or> accepted_by r = 0")
    case True
    then show ?thesis using "1.prems" w p by (subst (asm) drain_wbuf.simps) (auto split: if_splits)
  next
    case False
    have "length (buf_bytes b) \<le> buf_avail b" by (simp add: buf_bytes_def)
    then have "accepted_by r \<le> buf_avail b" using via_write_le [OF w] by linarith
    then have "mux_path m1 m' \<and> buf_inv b'"
      using "1.IH" [OF _ w [symmetric]] "1.prems" False w buf_advance_spec [of b "accepted_by r"]
      by (subst (asm) drain_wbuf.simps) (auto split: if_splits)
    then show ?thesis using p mux_path_trans by blast
  qed
qed

lemma flush_wbuf_safe:
  assumes inv: "lp_inv_at X c" and st: "lc_store c p = Some st"
  shows "safe X UNIV c (flush_wbuf c p)"
proof -
  obtain m b where d: "drain_wbuf (lc_mux c) (ls_sid st) (ls_wbuf st) = (m, b)" by (metis prod.collapse)
  have "buf_inv (ls_wbuf st)" using inv st by (auto simp: lp_inv_at_def flagged_def)
  then have path: "mux_path (lc_mux c) m" and bi: "buf_inv b" using drain_wbuf_path d by blast+
  let ?f = "\<lambda>st. st\<lparr>ls_wbuf := b\<rparr>" and ?g = "\<lambda>st. st\<lparr>ls_want_writable := False\<rparr>" and ?c = "c\<lparr>lc_mux := m\<rparr>"
  have i0: "lp_inv_at X ?c" using inv by simp
  have q: "quiet ?f" "quiet ?g" using bi by (simp_all add: quiet_def)
  have i1: "lp_inv_at X (upd_stream ?c p ?f)" by (rule upd_quiet(1) [OF i0 q(1)])
  have "safe X UNIV (upd_stream ?c p ?f) (ready_mark (upd_stream (upd_stream ?c p ?f) p ?g) p LP_WRITABLE)"
    by (rule upd_quiet_safe [OF i1 q(2)], rule ready_mark_safe [OF upd_quiet(1) [OF i1 q(2)]]) (simp add: st)
  then have "safe X UNIV (upd_stream ?c p ?f) (flush_wbuf c p)"
    using st d safe_self [OF i1] by (simp add: flush_wbuf_def Let_def)
  then have "safe X UNIV ?c (flush_wbuf c p)" by (rule upd_quiet_safe [OF i0 q(1)])
  then show ?thesis by (rule safe_from [OF _ calm_path [OF path]]) simp
qed

lemma pending_credit_safe:
  assumes inv: "lp_inv_at X c" and st: "lc_store c p = Some st"
  shows "safe X UNIV c (pending_credit c p)"
proof -
  let ?c = "c\<lparr>lc_mux := via_consume (lc_mux c) (ls_sid st) (ls_consume_pending st)\<rparr>"
  let ?f = "\<lambda>st. st\<lparr>ls_consume_pending := 0\<rparr>"
  have i0: "lp_inv_at X ?c" and q: "quiet ?f" using inv by (simp_all add: quiet_def)
  have "safe X UNIV ?c (Some (upd_stream ?c p ?f))"
    by (rule upd_quiet_safe [OF i0 q], rule safe_self [OF upd_quiet(1) [OF i0 q]])
  then have "safe X UNIV c (Some (upd_stream ?c p ?f))"
    by (rule safe_from [OF _ calm_path]) (simp_all add: via_path_consume)
  then show ?thesis using st safe_self [OF inv] by (simp add: pending_credit_def)
qed

lemma pending_flush_safe:
  "lp_inv_at X c \<Longrightarrow> lc_store c p = Some st \<Longrightarrow> safe X UNIV c (pending_flush c p)"
  using flush_wbuf_safe safe_self by (simp add: pending_flush_def)

lemma pending_fin_safe:
  assumes inv: "lp_inv_at X c" and st: "lc_store c p = Some st"
  shows "safe X UNIV c (pending_fin c p)"
proof -
  let ?c = "c\<lparr>lc_mux := via_close (lc_mux c) (ls_sid st)\<rparr>"
  let ?f = "\<lambda>st. st\<lparr>ls_fin_sent := True, ls_proto_done := (if ls_eof st then True else ls_proto_done st)\<rparr>"
  have i0: "lp_inv_at X ?c" and q: "quiet ?f" using inv by (simp_all add: quiet_def)
  have "safe X UNIV ?c (Some (upd_stream ?c p ?f))"
    by (rule upd_quiet_safe [OF i0 q], rule safe_self [OF upd_quiet(1) [OF i0 q]])
  then have "safe X UNIV c (Some (upd_stream ?c p ?f))"
    by (rule safe_from [OF _ calm_path]) (simp_all add: via_path_close)
  then show ?thesis using st safe_self [OF inv] by (simp add: pending_fin_def)
qed

lemma safe_then:
  assumes r: "safe X UNIV c r" and p: "lc_store c p = Some st"
    and f: "\<And>c' st'. lp_inv_at X c' \<Longrightarrow> lc_store c' p = Some st' \<Longrightarrow> safe X K c' (f c')"
  shows "safe X K c (r \<bind> f)"
proof (rule safe_bind [OF safe_less [OF r subset_UNIV]])
  fix c' assume c': "r = Some c'" "lp_inv_at X c'"
  have "dom (lc_store c) \<subseteq> dom (lc_store c')" using r c'(1) by (simp add: safe_def)
  then obtain st' where "lc_store c' p = Some st'" using p by blast
  then show "safe X K c' (f c')" by (rule f [OF c'(2)])
qed

lemma process_pending_safe:
  assumes inv: "lp_inv_at X c" and st: "lc_store c p = Some st"
  shows "safe X {} c (process_pending c p)"
  unfolding process_pending_def
  by (rule safe_then [OF pending_credit_safe [OF inv st] st], rule safe_then [OF pending_flush_safe], assumption+,
      rule safe_then [OF pending_fin_safe], assumption+, rule safe_less [OF stream_try_free_safe]) auto

lemma detach_safe:
  assumes inv: "lp_inv_at (p # ps) c"
  shows "lp_inv_at ps (upd_stream c p (\<lambda>st. st\<lparr>ls_in_pending := False\<rparr>))"
proof -
  let ?f = "\<lambda>st. st\<lparr>ls_in_pending := False\<rparr>"
  have q: "flagged P (upd_stream c p ?f) = flagged P c" if "\<And>st. P (?f st) = P st" for P by (rule flagged_quiet) (rule that)
  have "flagged ls_in_pending (upd_stream c p ?f) = flagged ls_in_pending c - {p}" by (auto simp: flagged_upd)
  then show ?thesis using inv q unfolding lp_inv_at_def by auto
qed

lemma process_all_safe: "lp_inv_at ps c \<Longrightarrow> safe [] {} c (process_all c ps)"
proof (induction ps arbitrary: c)
  case (Cons p ps)
  obtain st where st: "lc_store c p = Some st" using live_in [OF Cons.prems, of p] by auto
  let ?c = "upd_stream c p (\<lambda>st. st\<lparr>ls_in_pending := False\<rparr>)"
  have "safe ps {} ?c (process_pending ?c p)" by (rule process_pending_safe [OF detach_safe [OF Cons.prems]]) (simp add: st)
  then have "safe [] {} ?c (process_pending ?c p \<bind> (\<lambda>c. process_all c ps))"
    by (rule safe_bind) (rule Cons.IH)
  then have "safe [] {} c (process_pending ?c p \<bind> (\<lambda>c. process_all c ps))"
    by (rule safe_from [OF _ calm_upd]) simp_all
  then show ?case using st by simp
qed (simp add: safe_self)

lemma run_pending_safe: "lp_inv c \<Longrightarrow> safe [] {} c (run_pending c)"
proof -
  assume inv: "lp_inv c"
  have "lp_inv_at (lc_pending c) (c\<lparr>lc_pending := []\<rparr>)" using inv by (simp add: lp_inv_at_def)
  from process_all_safe [OF this] show ?thesis
    unfolding run_pending_def by (rule safe_from) (simp_all add: calm_def handles_def reg_fresh_def)
qed

section \<open>Teardown\<close>

text \<open>What holds between critical sections.\<close>

definition good :: "lp_client \<Rightarrow> bool" where
  "good c \<longleftrightarrow> lp_inv c \<and> reg_fresh c \<and> (lc_fd c < 0 \<longrightarrow> lc_mux c = None)"

lemma safe_good: "good c \<Longrightarrow> safe [] K c r \<Longrightarrow> \<exists>c'. r = Some c' \<and> good c' \<and> handles c' = handles c \<and>
    lc_recv c' = lc_recv c \<and> lc_fd c' = lc_fd c"
  by (auto simp: safe_def good_def calm_def)

lemma down_mark_safe: "lp_inv_at X c \<Longrightarrow> set ps \<subseteq> dom (lc_store c) \<Longrightarrow> safe X UNIV c (down_mark c ps)"
proof (induction ps arbitrary: c)
  case (Cons p ps)
  obtain st where st: "lc_store c p = Some st" using Cons.prems(2) by auto
  let ?f = "\<lambda>st. st\<lparr>ls_reset := True, ls_eof := True, ls_proto_done := True\<rparr>"
  let ?c = "if \<not> ls_proto_done st then upd_stream c p ?f else c"
  have q: "quiet ?f" by (simp add: quiet_def)
  have 1: "lp_inv_at X ?c" "calm c ?c" "lc_store ?c p \<noteq> None" "dom (lc_store ?c) = dom (lc_store c)"
    using upd_quiet [OF Cons.prems(1) q] Cons.prems(1) st by simp_all
  then obtain st' where st': "lc_store ?c p = Some st'" by blast
  have "safe X UNIV c (ready_mark ?c p (LP_READABLE OR LP_CLOSED))"
    by (rule safe_from [OF ready_mark_safe [OF 1(1) st'] 1(2)]) (simp add: 1(4))
  from safe_bind [OF this] have "safe X UNIV c (ready_mark ?c p (LP_READABLE OR LP_CLOSED) \<bind> (\<lambda>c. down_mark c ps))"
    using Cons.IH Cons.prems(2) by force
  then show ?case using st by simp
qed (simp add: safe_self)

lemma fold_upd:
  assumes "\<And>st. f (f st) = f st"
  shows "fold (\<lambda>p c. upd_stream c p f) ps c = c\<lparr>lc_store := (\<lambda>q. if q \<in> set ps then map_option f (lc_store c q) else lc_store c q)\<rparr>"
proof (induction ps arbitrary: c)
  case (Cons p ps)
  have "(if q \<in> set ps then map_option f (lc_store (upd_stream c p f) q) else lc_store (upd_stream c p f) q) =
      (if q \<in> set (p # ps) then map_option f (lc_store c q) else lc_store c q)" for q
    using assms by (cases "lc_store c q") auto
  then show ?case using Cons.IH [of "upd_stream c p f"] by (simp add: upd_stream_def)
qed simp

lemma fold_upd_all:
  assumes "\<And>st. f (f st) = f st" "set ps = dom (lc_store c)"
  shows "fold (\<lambda>p c. upd_stream c p f) ps c = c\<lparr>lc_store := (\<lambda>q. map_option f (lc_store c q))\<rparr>"
proof -
  have "(if q \<in> set ps then map_option f (lc_store c q) else lc_store c q) = map_option f (lc_store c q)" for q
    using assms(2) by (cases "lc_store c q") auto
  then show ?thesis using fold_upd [of f ps c] assms(1) by simp
qed

lemma umap_inv_wiped:
  assumes "umap_inv (m :: 'v umap)"
  shows "umap_inv \<lparr>um_s = replicate (um_cap m) (mslot_zero :: 'v mslot), um_count = 0 :: nat\<rparr>"
    "umap_view \<lparr>um_s = replicate (um_cap m) (mslot_zero :: 'v mslot), um_count = 0 :: nat\<rparr> k = None"
proof -
  have v: "table_view um_key (replicate n (mslot_zero :: 'v mslot)) k = None" for n k by (rule um.view_replicate) simp
  have p: "um.pinv (replicate n (mslot_zero :: 'v mslot))" for n by (rule um.pinv_replicate) simp
  have "cnt ms_used (replicate n (mslot_zero :: 'v mslot)) = 0" for n by (induction n) simp_all
  then show "umap_inv \<lparr>um_s = replicate (um_cap m) (mslot_zero :: 'v mslot), um_count = 0 :: nat\<rparr>"
    using assms p v by (auto simp: umap_inv_def)
  show "umap_view \<lparr>um_s = replicate (um_cap m) (mslot_zero :: 'v mslot), um_count = 0 :: nat\<rparr> k = None"
    using v by (simp add: umap_view_def)
qed

text \<open>The state after the passes that mark the streams, empty the pending list and wipe the registry.\<close>

definition wiped :: "lp_client \<Rightarrow> lp_client" where
  "wiped c = c\<lparr>lc_pending := [], lc_reg := \<lparr>um_s = replicate (um_cap (lc_reg c)) mslot_zero, um_count = 0\<rparr>,
     lc_mux := None, lc_fd := - 1, lc_authed := False, lc_recv := [],
     lc_store := (\<lambda>q. map_option (\<lambda>st. st\<lparr>ls_in_pending := False, ls_in_reg := False\<rparr>) (lc_store c q))\<rparr>"

lemma session_down_wiped:
  assumes inv: "lp_inv c" shows "session_down c = do { c \<leftarrow> down_mark c (lc_all c); down_free (wiped c) (lc_all (wiped c)) }"
proof -
  obtain c1 where c1: "down_mark c (lc_all c) = Some c1" "lp_inv c1"
    using down_mark_safe [OF inv, of "lc_all c"] inv by (auto simp: safe_def lp_inv_at_def)
  define c2 where "c2 = c1\<lparr>lc_pending := [], lc_store := (\<lambda>q. map_option (\<lambda>st. st\<lparr>ls_in_pending := False\<rparr>) (lc_store c1 q))\<rparr>"
  have all: "set (lc_all c1) = dom (lc_store c1)" using c1(2) by (simp add: lp_inv_at_def)
  have 2: "fold (\<lambda>p c. upd_stream c p (\<lambda>st. st\<lparr>ls_in_pending := False\<rparr>)) (lc_all c1) (c1\<lparr>lc_pending := []\<rparr>) = c2"
    using fold_upd_all [of "\<lambda>st. st\<lparr>ls_in_pending := False\<rparr>" "lc_all c1" "c1\<lparr>lc_pending := []\<rparr>"] all by (simp add: c2_def)
  define c3 where "c3 = c2\<lparr>lc_reg := \<lparr>um_s = replicate (um_cap (lc_reg c2)) mslot_zero, um_count = 0\<rparr>\<rparr>"
  have all2: "set (lc_all c3) = dom (lc_store c3)" using all by (auto simp: c2_def c3_def)
  have "reg_clear c2 = c3\<lparr>lc_store := (\<lambda>q. map_option (\<lambda>st. st\<lparr>ls_in_reg := False\<rparr>) (lc_store c3 q))\<rparr>"
    using fold_upd_all [OF _ all2, of "\<lambda>st. st\<lparr>ls_in_reg := False\<rparr>"] by (simp add: reg_clear_def Let_def c3_def)
  then have "(reg_clear c2)\<lparr>lc_mux := None, lc_fd := - 1, lc_authed := False, lc_recv := []\<rparr> = wiped c1"
    "lc_all (reg_clear c2) = lc_all (wiped c1)"
    by (simp_all add: c3_def c2_def wiped_def option.map_comp o_def)
  then show ?thesis using c1(1) 2 by (simp add: session_down_def Let_def)
qed

lemma wiped_good:
  assumes inv: "lp_inv c" shows "lp_inv (wiped c)" "reg_fresh (wiped c)" "handles (wiped c) = handles c"
proof -
  have reg: "umap_inv (lc_reg c)" using inv by (simp add: lp_inv_at_def)
  have fl: "flagged P (wiped c) = flagged P c" if "\<And>st. P (st\<lparr>ls_in_pending := False, ls_in_reg := False\<rparr>) = P st" for P
    using that by (auto simp: flagged_def wiped_def)
  have no: "flagged ls_in_pending (wiped c) = {}" "flagged (\<lambda>st. ls_in_reg st \<and> ls_sid st = sid) (wiped c) = {}" for sid
    by (auto simp: flagged_def wiped_def)
  have dom: "dom (lc_store (wiped c)) = dom (lc_store c)" by (auto simp: wiped_def)
  have view: "umap_view (lc_reg (wiped c)) sid = None" for sid using umap_inv_wiped(2) [OF reg] by (simp add: wiped_def)
  have sel: "lc_all (wiped c) = lc_all c" "lc_next (wiped c) = lc_next c" "lc_pending (wiped c) = []" "lc_ready (wiped c) = lc_ready c"
    "lc_accept (wiped c) = lc_accept c" "lc_mem (wiped c) = lc_mem c" "umap_inv (lc_reg (wiped c))"
    using umap_inv_wiped(1) [OF reg] by (simp_all add: wiped_def)
  show "lp_inv (wiped c)" unfolding lp_inv_at_def dom sel view no using inv sel(7) by (auto simp: lp_inv_at_def fl)
  show "reg_fresh (wiped c)" using view by (auto simp: reg_fresh_def wiped_def)
  show "handles (wiped c) = handles c" by (simp add: handles_def sel fl)
qed

lemma down_free_safe:
  "lp_inv_at X c \<Longrightarrow> distinct ps \<Longrightarrow> set ps \<subseteq> dom (lc_store c) \<Longrightarrow> safe X {} c (down_free c ps)"
proof (induction ps arbitrary: c)
  case (Cons p ps)
  obtain st where st: "lc_store c p = Some st" using Cons.prems(3) by auto
  obtain c1 where c1: "stream_try_free c p = Some c1" "lp_inv_at X c1" "calm c c1" "dom (lc_store c) \<inter> - {p} \<subseteq> dom (lc_store c1)"
    using stream_try_free_safe [OF Cons.prems(1) st] by (auto simp: safe_def)
  have "set ps \<subseteq> dom (lc_store c) \<inter> - {p}" using Cons.prems(2,3) by auto
  then have "set ps \<subseteq> dom (lc_store c1)" using c1(4) by blast
  then have "safe X {} c1 (down_free c1 ps)" using Cons.IH [OF c1(2)] Cons.prems(2) by simp
  from safe_from [OF this c1(3)] show ?case using c1(1) by simp
qed (simp add: safe_self)

lemma session_down_safe:
  assumes g: "good c" shows "\<exists>c'. session_down c = Some c' \<and> good c' \<and> handles c' = handles c"
proof -
  have inv: "lp_inv c" using g by (simp add: good_def)
  have "safe [] UNIV c (down_mark c (lc_all c))" using inv by (intro down_mark_safe) (auto simp: lp_inv_at_def)
  then obtain c1 where c1: "down_mark c (lc_all c) = Some c1" "good c1" "handles c1 = handles c"
    using safe_good [OF g] by blast
  have inv1: "lp_inv c1" using c1(2) by (simp add: good_def)
  note w = wiped_good [OF inv1]
  have gw: "good (wiped c1)" using w by (simp add: good_def wiped_def)
  have "safe [] {} (wiped c1) (down_free (wiped c1) (lc_all (wiped c1)))"
    using w(1) by (intro down_free_safe) (auto simp: lp_inv_at_def)
  then obtain c2 where "down_free (wiped c1) (lc_all (wiped c1)) = Some c2" "good c2" "handles c2 = handles (wiped c1)"
    using safe_good [OF gw] by blast
  then show ?thesis using session_down_wiped [OF inv] c1 w(3) by simp
qed

section \<open>The tunnel\<close>

lemma tunnel_flush_safe:
  assumes g: "good c" and f: "tunnel_flush c ws = (ok, c', ws')"
  shows "good c' \<and> handles c' = handles c \<and> lc_fd c' = lc_fd c"
proof (cases "lc_mux c")
  case (Some s)
  obtain s' sent where s': "flush_loop s ws [] = (ok, s', ws', sent)" "c' = c\<lparr>lc_mux := Some s'\<rparr>"
    using f Some by (auto simp: tunnel_flush_def split: prod.splits)
  have "mux_path (lc_mux c) (Some s')" using flush_loop_out [OF s'(1)] Some by (simp add: mux_out_def)
  from calm_path [OF this] show ?thesis using g s'(2) by (auto simp: good_def calm_def)
qed (use f g in \<open>simp add: tunnel_flush_def\<close>)

lemma tunnel_pump_safe:
  assumes g: "good c"
  shows "\<exists>ok c' n. tunnel_pump c = Some (ok, c') \<and> good c' \<and> handles c' = handles c \<and> lc_fd c' = lc_fd c \<and>
    lc_recv c' = drop n (lc_recv c)"
proof -
  obtain cc m where v: "via (Inl MUX_ERR_PARAM) (\<lambda>s. mux_recv s (Some (lc_recv c)) (length (lc_recv c))) (lc_mux c) = (cc, m)"
    by (metis prod.collapse)
  have "mux_path (lc_mux c) m" by (rule via_path_recv [OF v])
  from calm_path [OF this] have g1: "good (c\<lparr>lc_mux := m\<rparr>)" "handles (c\<lparr>lc_mux := m\<rparr>) = handles c"
    using g by (simp_all add: good_def calm_def)
  then obtain c1 where c1: "handle_events (c\<lparr>lc_mux := m\<rparr>) = Some c1" "good c1" "handles c1 = handles c"
    "lc_recv c1 = lc_recv c" "lc_fd c1 = lc_fd c"
    using safe_good [OF g1(1) handle_events_safe] by (auto simp: good_def)
  have other: "good (c1\<lparr>lc_recv := b\<rparr>)" "handles (c1\<lparr>lc_recv := b\<rparr>) = handles c1" for b
    using c1(2) by (simp_all add: good_def reg_fresh_def handles_def flagged_def)
  show ?thesis
  proof (cases cc)
    case (Inl e)
    then show ?thesis using v c1 by (auto simp: tunnel_pump_def intro!: exI [of _ 0])
  next
    case (Inr n)
    then show ?thesis using v c1 other by (auto simp: tunnel_pump_def intro!: exI [of _ n])
  qed
qed

definition reads :: "lp_client \<Rightarrow> sys_read list \<Rightarrow> bool" where
  "reads c rs \<longleftrightarrow> (\<exists>ok c' rs'. tunnel_read c rs = Some (ok, c', rs') \<and> good c' \<and> handles c' = handles c \<and> lc_fd c' = lc_fd c)"

text \<open>A full buffer is pumped until there is room or nothing moves any more.\<close>

lemma tunnel_read_room:
  assumes room: "\<And>c. good c \<Longrightarrow> length (lc_recv c) < 262144 \<Longrightarrow> reads c rs" and g: "good c"
  shows "reads c rs"
  using g
proof (induction "length (lc_recv c)" arbitrary: c rule: less_induct)
  case less
  obtain ok c1 n where c1: "tunnel_pump c = Some (ok, c1)" "good c1" "handles c1 = handles c" "lc_fd c1 = lc_fd c"
    "lc_recv c1 = drop n (lc_recv c)" using tunnel_pump_safe [OF less.prems] by blast
  show ?case
  proof (cases "length (lc_recv c) < 262144")
    case False
    show ?thesis
    proof (cases "ok \<and> length (lc_recv c1) \<noteq> length (lc_recv c)")
      case True
      then have "length (lc_recv c1) < length (lc_recv c)" using c1(5) by auto
      from less.hyps [OF this c1(2)] show ?thesis
        unfolding reads_def using c1 True False by (subst tunnel_read.simps) (simp add: Let_def)
    qed (unfold reads_def, use c1 False less.prems in \<open>subst tunnel_read.simps, auto simp: Let_def\<close>)
  qed (rule room [OF less.prems])
qed

lemma tunnel_read_safe: "good c \<Longrightarrow> reads c rs"
proof (induction rs arbitrary: c)
  case Nil
  show ?case
  proof (rule tunnel_read_room [OF _ Nil])
    show "reads c []" if "good c" "length (lc_recv c) < 262144" for c
      unfolding reads_def using that by (subst tunnel_read.simps) (auto simp: Let_def)
  qed
next
  case (Cons r rs)
  show ?case
  proof (rule tunnel_read_room [OF _ Cons.prems])
    fix c assume c: "good c" "length (lc_recv c) < 262144"
    show "reads c (r # rs)"
    proof (cases r)
      case (RdData d)
      let ?c = "c\<lparr>lc_recv := lc_recv c @ take (262144 - length (lc_recv c)) d\<rparr>"
      have g2: "good ?c" "handles ?c = handles c" using c(1) by (simp_all add: good_def reg_fresh_def handles_def flagged_def)
      obtain ok2 c2 n2 where c2: "tunnel_pump ?c = Some (ok2, c2)" "good c2" "handles c2 = handles c" "lc_fd c2 = lc_fd c"
        using tunnel_pump_safe [OF g2(1)] g2(2) by auto
      show ?thesis
        using Cons.IH [OF c2(2)] c2 RdData c unfolding reads_def by (subst tunnel_read.simps) (auto simp: Let_def)
    qed (use c in \<open>auto simp: reads_def Let_def tunnel_read.simps [of c]\<close>)
  qed
qed

section \<open>The rounds of the I/O thread\<close>

lemma lp_mux_config_total:
  "\<exists>mc c1. lp_mux_config c nonce = Some (mc, c1) \<and> (\<exists>n q. c1 = c\<lparr>lc_nonce := n, lc_proof := q\<rparr>)"
proof (cases "lf_token (lc_cfg c)")
  case None
  then show ?thesis by (cases c) (simp add: lp_mux_config_def Let_def)
next
  case (Some t)
  obtain q where "mux_auth_proof t nonce = Some q" by (auto simp: mux_auth_proof_def hmac_eq)
  then show ?thesis using Some by (auto simp: lp_mux_config_def Let_def)
qed

lemma session_up_safe:
  assumes g: "good c" and m: "lc_mux c = None" and fd: "ok \<Longrightarrow> 0 \<le> fd"
  shows "\<exists>b c'. session_up c fd ok nonce = Some (b, c') \<and> good c' \<and> handles c' = handles c"
proof (cases ok)
  case True
  obtain mc n q where mc: "lp_mux_config c nonce = Some (mc, c\<lparr>lc_nonce := n, lc_proof := q\<rparr>)"
    using lp_mux_config_total by blast
  have empty: "dom (umap_view (lc_reg c)) = {}" using g m by (auto simp: good_def reg_fresh_def)
  have h: "handles (c\<lparr>lc_nonce := n, lc_proof := q, lc_mux := s, lc_fd := i\<rparr>) = handles c" for s i
    by (simp add: handles_def flagged_def)
  let ?new = "mux_session_new (Some mc) (if lf_listen_addr (lc_cfg c) \<noteq> None then MUX_ACCEPTOR else MUX_DIALER) (lc_mem c)"
  show ?thesis
  proof (cases ?new)
    case None
    have "good (c\<lparr>lc_nonce := n, lc_proof := q, lc_mux := None, lc_fd := - 1\<rparr>)"
      using g empty by (simp add: good_def reg_fresh_def)
    then show ?thesis using True mc None h by (auto simp: session_up_def split del: if_split)
  next
    case (Some s)
    have "ids_fresh [] s" by (rule fresh_start.inv_new [OF Some])
    then have "good (c\<lparr>lc_nonce := n, lc_proof := q, lc_mux := Some s, lc_fd := fd\<rparr>)"
      using g empty fd True by (auto simp: good_def reg_fresh_def intro!: exI [of _ "[]"])
    then show ?thesis using True mc Some h by (auto simp: session_up_def split del: if_split)
  qed
qed (use g in \<open>auto simp: session_up_def\<close>)

lemma io_before_poll_safe:
  assumes g: "good c" shows "\<exists>b c'. io_before_poll c ws = Some (b, c') \<and> good c' \<and> handles c' = handles c"
proof -
  obtain c1 where c1: "run_pending c = Some c1" "good c1" "handles c1 = handles c"
    using safe_good [OF g run_pending_safe] g by (auto simp: good_def)
  obtain ok c2 ws' where f: "tunnel_flush c1 ws = (ok, c2, ws')" by (metis prod_cases3)
  have c2: "good c2" "handles c2 = handles c" using tunnel_flush_safe [OF c1(2) f] c1(3) by simp_all
  show ?thesis using session_down_safe [OF c2(1)] c1 c2 f by (auto simp: io_before_poll_def)
qed

lemma io_timer_safe:
  assumes g: "good c" shows "\<exists>c'. io_timer c now ws = Some c' \<and> good c' \<and> handles c' = handles c"
proof (cases "lc_mux c")
  case (Some s)
  let ?c = "c\<lparr>lc_mux := Some (snd (mux_on_timer s now))\<rparr>"
  have "mux_path (lc_mux c) (Some (snd (mux_on_timer s now)))" using Some mux_path_step [OF step_timer] by simp
  from calm_path [OF this] have g1: "good ?c" "handles ?c = handles c" using g by (auto simp: good_def calm_def)
  obtain c1 where c1: "handle_events ?c = Some c1" "good c1" "handles c1 = handles c"
    using safe_good [OF g1(1) handle_events_safe] g1 by (auto simp: good_def)
  obtain ok c2 ws' where f: "tunnel_flush c1 ws = (ok, c2, ws')" by (metis prod_cases3)
  show ?thesis using tunnel_flush_safe [OF c1(2) f] c1 f Some by (auto simp: io_timer_def)
qed (use g in \<open>simp add: io_timer_def\<close>)

lemma io_after_poll_safe:
  assumes g: "good c"
  shows "\<exists>c'. io_after_poll c pf wi ti to now rs ws = Some c' \<and> good c' \<and> handles c' = handles c"
proof (cases pf)
  case True
  then show ?thesis using session_down_safe [OF g] by (simp add: io_after_poll_def)
next
  case False
  let ?c = "if wi then c\<lparr>lc_wake := 0\<rparr> else c"
  have g0: "good ?c" "handles ?c = handles c" using g by (simp_all add: good_def reg_fresh_def handles_def flagged_def)
  obtain ok c1 rs1 where c1: "(if lc_fd ?c \<ge> 0 \<and> ti then tunnel_read ?c rs else Some (True, ?c, rs)) = Some (ok, c1, rs1)"
    "good c1" "handles c1 = handles c"
    using tunnel_read_safe [OF g0(1), of rs] g0 unfolding reads_def by (cases "lc_fd ?c \<ge> 0 \<and> ti") auto
  obtain ok2 c2 ws2 where f: "(if lc_fd c1 \<ge> 0 \<and> to then tunnel_flush c1 ws else (True, c1, ws)) = (ok2, c2, ws2)" by (metis prod_cases3)
  have c2: "good c2" "handles c2 = handles c"
    using f c1(2,3) tunnel_flush_safe [OF c1(2)] by (auto split: if_splits)
  show ?thesis
  proof (cases ok)
    case True
    then show ?thesis
      using io_timer_safe [OF c2(1), of now ws2] session_down_safe [OF c2(1)] c1(1) c2(2) f False
      by (cases ok2) (auto simp: io_after_poll_def Let_def simp del: if_split split del: if_split)
  next
    case no: False
    then show ?thesis using session_down_safe [OF c1(2)] c1 False by (simp add: io_after_poll_def Let_def split del: if_split)
  qed
qed

lemma io_drain_safe: "good c \<Longrightarrow> good (io_drain n c wss) \<and> handles (io_drain n c wss) = handles c"
proof (induction n c wss rule: io_drain.induct)
  case (1 n c ws wss)
  obtain ok c1 ws' where f: "tunnel_flush c ws = (ok, c1, ws')" by (metis prod_cases3)
  show ?case using tunnel_flush_safe [OF "1.prems" f] 1 f by auto
qed simp_all

lemma io_finish_safe:
  assumes g: "good c" shows "\<exists>c'. io_finish c wss = Some c' \<and> good c' \<and> handles c' = handles c"
proof -
  obtain c1 where c1: "run_pending c = Some c1" "good c1" "handles c1 = handles c"
    using safe_good [OF g run_pending_safe] g by (auto simp: good_def)
  show ?thesis
    using session_down_safe [OF g] session_down_safe [of "io_drain 100 c1 wss"] io_drain_safe [OF c1(2), of 100 wss] c1
    by (auto simp: io_finish_def)
qed

section \<open>The calls of the application\<close>

lemma handle_live: "p \<in> handles c \<Longrightarrow> \<exists>st. lc_store c p = Some st"
  by (auto simp: handles_def flagged_def)

lemma io_wake_good [simp]: "good (io_wake c) = good c" "handles (io_wake c) = handles c"
  by (simp_all add: io_wake_def good_def reg_fresh_def handles_def flagged_def)

lemma push_and_wake:
  assumes g: "good c" and p: "lc_store c p = Some st" and q: "quiet f"
  shows "\<exists>c'. pending_push (upd_stream c p f) p = Some c' \<and> good c' \<and> handles c' = handles c"
proof -
  have inv: "lp_inv c" using g by (simp add: good_def)
  have "safe [] UNIV c (pending_push (upd_stream c p f) p)"
    by (rule upd_quiet_safe [OF inv q], rule pending_push_safe [OF upd_quiet(1) [OF inv q]]) (simp add: p)
  then show ?thesis using safe_good [OF g] by blast
qed

lemma read_out_safe:
  assumes g: "good c" and p: "lc_store c p = Some st"
  shows "\<exists>b c'. read_out c p st n = Some (b, c') \<and> good c' \<and> handles c' = handles c"
proof -
  let ?k = "if n < buf_avail (ls_rbuf st) then n else buf_avail (ls_rbuf st)"
  let ?f = "\<lambda>st. st\<lparr>ls_rbuf := buf_advance (ls_rbuf st) ?k, ls_consume_pending := ls_consume_pending st + ?k\<rparr>"
  let ?g = "\<lambda>st'. if st' = st then ?f st else st'"
  have "buf_inv (buf_advance (ls_rbuf st) ?k)" if "buf_inv (ls_rbuf st)" using buf_advance_spec [OF that, of ?k] by simp
  then have "quiet ?g" by (auto simp: quiet_def)
  from push_and_wake [OF g p this] have "\<exists>c'. pending_push (upd_stream c p ?f) p = Some c' \<and> good c' \<and> handles c' = handles c"
    using p by (simp add: upd_stream_def)
  then show ?thesis by (auto simp: read_out_def Let_def)
qed

lemma lp_read_safe:
  assumes g: "good c" and p: "p \<in> handles c"
  shows "\<exists>r c'. lp_read c p n = Some (r, c') \<and> good c' \<and> handles c' = handles c"
    "\<exists>r c'. lp_read_nb c p n = Some (r, c') \<and> good c' \<and> handles c' = handles c"
proof -
  obtain st where st: "lc_store c p = Some st" using handle_live [OF p] by blast
  obtain b c' where r: "read_out c p st n = Some (b, c')" "good c'" "handles c' = handles c" using read_out_safe [OF g st] by blast
  show "\<exists>r c'. lp_read c p n = Some (r, c') \<and> good c' \<and> handles c' = handles c"
    "\<exists>r c'. lp_read_nb c p n = Some (r, c') \<and> good c' \<and> handles c' = handles c"
    using g st r by (simp_all add: lp_read_def lp_read_nb_def)
qed

lemma write_in_safe:
  assumes g: "good c" and p: "lc_store c p = Some st"
  shows "\<exists>b c'. write_in c p st buf = Some (b, c') \<and> good c' \<and> handles c' = handles c"
proof -
  have inv: "lp_inv c" and mem: "lc_mem c = []" using g by (simp_all add: good_def lp_inv_at_def)
  obtain ok b h where b: "libpeer_buf_append (ls_wbuf st) buf [] = (ok, b, h)" by (metis prod_cases3)
  have "buf_inv (ls_wbuf st)" using inv p by (auto simp: lp_inv_at_def flagged_def)
  note sp = libpeer_buf_append_spec [OF this b]
  have q: "quiet (\<lambda>st. st\<lparr>ls_wbuf := b\<rparr>)" using sp by (simp add: quiet_def)
  show ?thesis using push_and_wake [OF g p q] b sp mem by (auto simp: write_in_def mem_same Let_def)
qed

lemma lp_write_safe:
  assumes g: "good c" and p: "p \<in> handles c"
  shows "\<exists>r c'. lp_write c p buf = Some (r, c') \<and> good c' \<and> handles c' = handles c"
    "\<exists>r c'. lp_write_nb c p buf = Some (r, c') \<and> good c' \<and> handles c' = handles c"
proof -
  obtain st where st: "lc_store c p = Some st" using handle_live [OF p] by blast
  obtain b c' where r: "write_in c p st buf = Some (b, c')" "good c'" "handles c' = handles c" using write_in_safe [OF g st] by blast
  have "quiet (\<lambda>st. st\<lparr>ls_want_writable := True\<rparr>)" by (simp add: quiet_def)
  from upd_quiet [OF _ this, of "[]" c p] have w: "good (upd_stream c p (\<lambda>st. st\<lparr>ls_want_writable := True\<rparr>))"
    "handles (upd_stream c p (\<lambda>st. st\<lparr>ls_want_writable := True\<rparr>)) = handles c" using g by (simp_all add: good_def calm_def)
  show "\<exists>r c'. lp_write c p buf = Some (r, c') \<and> good c' \<and> handles c' = handles c"
    "\<exists>r c'. lp_write_nb c p buf = Some (r, c') \<and> good c' \<and> handles c' = handles c"
    using g st r w by (simp_all add: lp_write_def lp_write_nb_def)
qed

lemma lp_close_safe:
  assumes g: "good c" and p: "p \<in> handles c"
  shows "\<exists>c'. lp_close c p = Some c' \<and> good c' \<and> handles c' = handles c - {p}"
proof -
  obtain st where st: "lc_store c p = Some st" using handle_live [OF p] by blast
  let ?f = "\<lambda>st. st\<lparr>ls_app_closed := True\<rparr>"
  let ?c = "upd_stream c p ?f"
  have q: "flagged P ?c = flagged P c" if "\<And>st. P (?f st) = P st" for P by (rule flagged_quiet) (rule that)
  have op: "app_open ?c = app_open c - {p}" by (auto simp: flagged_upd)
  have acc: "p \<notin> set (lc_accept c)" using p by (simp add: handles_def)
  have g1: "good ?c" using g q op acc unfolding good_def lp_inv_at_def by auto
  have h1: "handles ?c = handles c - {p}" using op by (auto simp: handles_def)
  have "safe [] UNIV ?c (pending_push ?c p)" using g1 st by (intro pending_push_safe) (simp_all add: good_def)
  from safe_good [OF g1 this] show ?thesis using h1 st by (auto simp: lp_close_def)
qed

lemma lp_accept_safe:
  assumes g: "good c" and a: "lp_accept c = (r, c')"
  shows "good c' \<and> (case r of Returns (Some p) \<Rightarrow> p \<notin> handles c \<and> handles c' = insert p (handles c) | _ \<Rightarrow> handles c' = handles c)"
proof (cases "lc_accept c")
  case (Cons p ps)
  have d: "distinct (p # ps)" "set (p # ps) \<subseteq> app_open c" using g Cons by (auto simp: good_def lp_inv_at_def)
  have "good (c\<lparr>lc_accept := ps\<rparr>)" using g d by (auto simp: good_def lp_inv_at_def reg_fresh_def)
  then show ?thesis using a Cons d by (auto simp: lp_accept_def handles_def)
qed (use g a in \<open>auto simp: lp_accept_def split: if_splits\<close>)

lemma reg_touch_ready: "reg_touch c vs = Some c' \<Longrightarrow> lc_ready c' = lc_ready c \<and> lc_accept c' = lc_accept c"
  by (induction vs arbitrary: c) (auto split: bind_splits)

lemma stream_try_free_ready: "stream_try_free c p = Some c' \<Longrightarrow> lc_ready c' = lc_ready c \<and> lc_accept c' = lc_accept c"
  by (auto simp: stream_try_free_def reg_remove_def split: bind_splits if_splits dest!: reg_touch_ready)

lemma unready:
  assumes g: "good c" and r: "lc_ready c = p # ps"
  shows "good (upd_stream (c\<lparr>lc_ready := ps\<rparr>) p (\<lambda>st. st\<lparr>ls_in_ready := False, ls_ev_pending := 0\<rparr>))"
    "handles (upd_stream (c\<lparr>lc_ready := ps\<rparr>) p (\<lambda>st. st\<lparr>ls_in_ready := False, ls_ev_pending := 0\<rparr>)) = handles c"
proof -
  let ?c = "upd_stream (c\<lparr>lc_ready := ps\<rparr>) p (\<lambda>st. st\<lparr>ls_in_ready := False, ls_ev_pending := 0\<rparr>)"
  let ?f = "\<lambda>st. st\<lparr>ls_in_ready := False, ls_ev_pending := 0\<rparr>"
  have q: "flagged P ?c = flagged P c" if "\<And>st. P (?f st) = P st" for P
    using flagged_quiet [of P ?f "c\<lparr>lc_ready := ps\<rparr>" p] that by simp
  have "flagged ls_in_ready ?c = flagged ls_in_ready c - {p}" by (auto simp: flagged_upd)
  then show "good ?c" using g r q unfolding good_def lp_inv_at_def by (auto simp: reg_fresh_def)
  show "handles ?c = handles c" using q by (simp add: handles_def)
qed

lemma poll_ready_safe:
  assumes "good c" "lc_ready c = ps" "room \<noteq> 0 \<Longrightarrow> lc_accept c = []"
  shows "\<exists>c' out. poll_ready c ps room = Some (c', out) \<and> good c' \<and> handles c' = handles c \<and> fst ` set out \<subseteq> handles c \<and>
    length out \<le> room"
  using assms
proof (induction c ps room rule: poll_ready.induct)
  case (1 c room)
  then show ?case by (cases c) simp
next
  case (2 c p ps room)
  show ?case
  proof (cases "room = 0")
    case True
    then show ?thesis using "2.prems" by (cases c) simp
  next
    case False
    obtain st where st: "lc_store c p = Some st" using live_in [of "[]" c p] "2.prems"(1,2) by (auto simp: good_def)
    define c1 where "c1 = upd_stream (c\<lparr>lc_ready := ps\<rparr>) p (\<lambda>st. st\<lparr>ls_in_ready := False, ls_ev_pending := 0\<rparr>)"
    have c1: "good c1" "handles c1 = handles c" "lc_ready c1 = ps" "lc_accept c1 = []"
      using unready [OF "2.prems"(1,2)] "2.prems"(3) False by (simp_all add: c1_def)
    show ?thesis
    proof (cases "ls_app_closed st")
      case True
      obtain st1 where "lc_store c1 p = Some st1" by (simp add: c1_def st)
      then have "safe [] (- {p}) c1 (stream_try_free c1 p)" using stream_try_free_safe c1(1) by (simp add: good_def)
      from safe_good [OF c1(1) this] obtain c2 where c2: "stream_try_free c1 p = Some c2" "good c2" "handles c2 = handles c"
        using c1(2) by auto
      have r2: "lc_ready c2 = ps" "lc_accept c2 = []" using stream_try_free_ready [OF c2(1)] c1 by simp_all
      show ?thesis using "2.IH"(1) [OF False st refl True, folded c1_def, OF c2(1,2) r2(1)] r2(2) c2 st True False
        by (simp add: c1_def [symmetric] Let_def)
    next
      case open_st: False
      have "p \<in> handles c" using st open_st "2.prems"(3) False by (simp add: handles_def flagged_def)
      moreover have "\<exists>c' out. poll_ready c1 ps (room - 1) = Some (c', out) \<and> good c' \<and> handles c' = handles c \<and>
          fst ` set out \<subseteq> handles c \<and> length out \<le> room - 1"
        using "2.IH"(2) [OF False st refl open_st, folded c1_def, OF c1(1,3)] c1(2,4) by simp
      ultimately show ?thesis using st open_st False by (auto simp: c1_def [symmetric] Let_def)
    qed
  qed
qed

lemma lp_poll_safe:
  assumes g: "good c"
  shows "\<exists>c' out. lp_poll c maxn = Some (c', out) \<and> good c' \<and> handles c' = handles c \<union> set (take maxn (lc_accept c)) \<and>
    fst ` set out \<subseteq> handles c' \<and> length out \<le> maxn"
proof (cases "maxn = 0")
  case True
  then show ?thesis using g by (simp add: lp_poll_def)
next
  case False
  define c1 where "c1 = c\<lparr>lc_notify := 0, lc_notified := False, lc_accept := drop maxn (lc_accept c)\<rparr>"
  have d: "distinct (take maxn (lc_accept c) @ drop maxn (lc_accept c))" "set (take maxn (lc_accept c) @ drop maxn (lc_accept c)) \<subseteq> app_open c"
    using g by (simp_all add: good_def lp_inv_at_def)
  have g1: "good c1" using g set_drop_subset [of maxn "lc_accept c"] by (auto simp: c1_def good_def lp_inv_at_def reg_fresh_def flagged_def)
  have "handles c = app_open c - (set (take maxn (lc_accept c)) \<union> set (drop maxn (lc_accept c)))"
    using append_take_drop_id [of maxn "lc_accept c"] by (metis handles_def set_append)
  moreover have "set (take maxn (lc_accept c)) \<inter> set (drop maxn (lc_accept c)) = {}" "set (take maxn (lc_accept c)) \<subseteq> app_open c"
    using d unfolding distinct_append set_append by blast+
  moreover have "handles c1 = app_open c - set (drop maxn (lc_accept c))" by (simp add: c1_def handles_def flagged_def)
  ultimately have h1: "handles c1 = handles c \<union> set (take maxn (lc_accept c))" by blast
  obtain c2 out where c2: "poll_ready c1 (lc_ready c1) (maxn - length (take maxn (lc_accept c))) = Some (c2, out)" "good c2"
    "handles c2 = handles c1" "fst ` set out \<subseteq> handles c1" "length out \<le> maxn - length (take maxn (lc_accept c))"
    using poll_ready_safe [OF g1 refl, of "maxn - length (take maxn (lc_accept c))"] by (auto simp: c1_def)
  have g3: "good (notify_raise (c2\<lparr>lc_notified := False\<rparr>))" "handles (notify_raise (c2\<lparr>lc_notified := False\<rparr>)) = handles c2"
    using c2(2) by (simp_all add: good_def reg_fresh_def handles_def flagged_def)
  have "lp_poll c maxn = Some (if lc_accept c2 \<noteq> [] \<or> lc_ready c2 \<noteq> [] then notify_raise (c2\<lparr>lc_notified := False\<rparr>) else c2,
      map (\<lambda>p. (p, LP_ACCEPT)) (take maxn (lc_accept c)) @ out)"
    using False c2(1) by (simp add: lp_poll_def Let_def c1_def)
  then show ?thesis using c2 g3 h1 by (auto simp: image_Un)
qed

end
