(* ===== verification/Mux_Libpeer_Run.thy ===== *)
theory Mux_Libpeer_Run
  imports Mux_Libpeer_Safe Mux_Example_Session
begin

text \<open>
  Executions of a libpeer client: the rounds of its I/O thread and the calls of the
  application in any order, each a critical section under the client's mutex. The
  application may call with the handles it holds (\<open>handles\<close>), and otherwise with anything;
  the peer, the kernel and the clock are not constrained. Only the allocator is assumed not
  to fail.
\<close>

section \<open>Steps\<close>

inductive lp_step :: "lp_client \<Rightarrow> lp_client \<Rightarrow> bool" where
  io_up: "\<lbrakk>lc_fd c < 0; ok \<Longrightarrow> 0 \<le> fd; session_up c fd ok nonce = Some (b, c')\<rbrakk> \<Longrightarrow> lp_step c c'"
| io_work: "\<lbrakk>0 \<le> lc_fd c; io_before_poll c ws = Some (b, c')\<rbrakk> \<Longrightarrow> lp_step c c'"
| io_tunnel: "\<lbrakk>0 \<le> lc_fd c; io_after_poll c failed wake_in tun_in tun_out now rs ws = Some c'\<rbrakk> \<Longrightarrow> lp_step c c'"
| io_end: "\<lbrakk>lc_stopping c; io_finish c wss = Some c'\<rbrakk> \<Longrightarrow> lp_step c c'"
| app_accept: "lp_accept c = (r, c') \<Longrightarrow> lp_step c c'"
| app_read: "\<lbrakk>p \<in> handles c; lp_read c p n = Some (r, c')\<rbrakk> \<Longrightarrow> lp_step c c'"
| app_read_nb: "\<lbrakk>p \<in> handles c; lp_read_nb c p n = Some (r', c')\<rbrakk> \<Longrightarrow> lp_step c c'"
| app_write: "\<lbrakk>p \<in> handles c; lp_write c p buf = Some (r, c')\<rbrakk> \<Longrightarrow> lp_step c c'"
| app_write_nb: "\<lbrakk>p \<in> handles c; lp_write_nb c p buf = Some (r', c')\<rbrakk> \<Longrightarrow> lp_step c c'"
| app_close: "\<lbrakk>p \<in> handles c; lp_close c p = Some c'\<rbrakk> \<Longrightarrow> lp_step c c'"
| app_poll: "lp_poll c maxn = Some (c', out) \<Longrightarrow> lp_step c c'"
| app_fileno: "lp_step c (lp_fileno c)"
| app_stop: "lp_step c (lp_stop c)"

inductive lp_reach :: "lp_client \<Rightarrow> bool" where
  lp_start: "lp_connect cfgp [] wake_ok notify_ok thread_ok = Some c \<Longrightarrow> lp_reach c"
| lp_next: "\<lbrakk>lp_reach c; lp_step c c'\<rbrakk> \<Longrightarrow> lp_reach c'"

lemma lp_init_good: "good (lp_client_init cfg [])"
proof -
  have "umap_view umap_zero = Map.empty" by auto
  then show ?thesis by (auto simp: good_def lp_client_init_def lp_inv_at_def flagged_def reg_fresh_def)
qed

lemma strdup_nil: "strdup_opt p [] = (p, [])"
  by (simp add: strdup_opt_def split: option.splits)

lemma lp_connect_good: "lp_connect cfgp [] a b t = Some c \<Longrightarrow> good c"
  by (auto simp: lp_connect_def strdup_nil lp_init_good split: option.splits if_splits prod.splits bool.splits)

text \<open>The release after the I/O thread has ended frees every stream once.\<close>

lemma lp_release_all:
  "distinct ps \<Longrightarrow> set ps \<subseteq> dom (lc_store c) \<Longrightarrow>
     lp_release c ps = Some (c\<lparr>lc_store := (\<lambda>q. if q \<in> set ps then None else lc_store c q)\<rparr>)"
proof (induction ps arbitrary: c)
  case (Cons p ps)
  obtain st where st: "lc_store c p = Some st" using Cons.prems(2) by auto
  let ?c = "c\<lparr>lc_store := (lc_store c)(p := None)\<rparr>"
  have "set ps \<subseteq> dom (lc_store ?c)" using Cons.prems by auto
  from Cons.IH [OF _ this] have "lp_release ?c ps = Some (?c\<lparr>lc_store := (\<lambda>q. if q \<in> set ps then None else lc_store ?c q)\<rparr>)"
    using Cons.prems(1) by simp
  moreover have "(\<lambda>q. if q \<in> set ps then None else lc_store ?c q) = (\<lambda>q. if q \<in> set (p # ps) then None else lc_store c q)" by auto
  ultimately show ?case using st by simp
qed simp

lemma lp_fileno_good: "good c \<Longrightarrow> good (lp_fileno c) \<and> handles (lp_fileno c) = handles c"
  by (simp add: lp_fileno_def good_def reg_fresh_def handles_def flagged_def)

lemma lp_stop_good: "good c \<Longrightarrow> good (lp_stop c) \<and> handles (lp_stop c) = handles c"
  by (simp add: lp_stop_def io_wake_def good_def reg_fresh_def handles_def flagged_def)

lemma lp_disconnect_frees:
  assumes g: "good c" shows "\<exists>c'. lp_disconnect c wss = Some c' \<and> lc_store c' = Map.empty"
proof -
  obtain c1 where c1: "io_finish (lp_stop c) wss = Some c1" "good c1" using io_finish_safe lp_stop_good [OF g] by blast
  have all: "distinct (lc_all c1)" "set (lc_all c1) = dom (lc_store c1)" using c1(2) by (simp_all add: good_def lp_inv_at_def)
  have "(\<lambda>q. if q \<in> dom (lc_store c1) then None else lc_store c1 q) = Map.empty" by auto
  then show ?thesis using c1(1) lp_release_all [OF all(1)] all(2) by (simp add: lp_disconnect_def)
qed

lemma lp_step_good: "lp_step c c' \<Longrightarrow> good c \<Longrightarrow> good c'"
proof (induction rule: lp_step.induct)
  case (io_up c ok fd nonce b c')
  then have "lc_mux c = None" by (simp add: good_def)
  then show ?case using session_up_safe [OF io_up.prems, of ok fd nonce] io_up.hyps(2,3) by auto
next
  case (io_work c ws b c')
  then show ?case using io_before_poll_safe [of c ws] by auto
next
  case (io_tunnel c failed wake_in tun_in tun_out now rs ws c')
  then show ?case using io_after_poll_safe [of c failed wake_in tun_in tun_out now rs ws] by auto
next
  case (io_end c wss c')
  then show ?case using io_finish_safe [of c wss] by auto
next
  case (app_accept c r c')
  then show ?case using lp_accept_safe by blast
next
  case (app_read p c n r c')
  then show ?case using lp_read_safe(1) [of c p n] by auto
next
  case (app_read_nb p c n r' c')
  then show ?case using lp_read_safe(2) [of c p n] by auto
next
  case (app_write p c buf r c')
  then show ?case using lp_write_safe(1) [of c p buf] by auto
next
  case (app_write_nb p c buf r' c')
  then show ?case using lp_write_safe(2) [of c p buf] by auto
next
  case (app_close p c c')
  then show ?case using lp_close_safe [of c p] by auto
next
  case (app_poll c maxn c' out)
  then show ?case using lp_poll_safe [of c maxn] by auto
qed (simp_all add: lp_fileno_good lp_stop_good)

lemma lp_reach_good: "lp_reach c \<Longrightarrow> good c"
  by (induction rule: lp_reach.induct) (auto intro: lp_connect_good lp_step_good)

section \<open>Memory safety\<close>

text \<open>
  C9. libpeer never uses a stream after freeing it. In every state a client can reach, under
  any interleaving of its I/O thread with the application, any bytes from the peer, any
  results of the system calls and any clock, each critical section returns: the event loop
  and the read loop end, no freed stream and no null table is accessed, whether the section
  is a round of the I/O thread (queued work, tunnel input, timers, reconnection, shutdown) or
  a call of the application on a stream it has accepted and not closed. In particular the
  I/O thread, which frees streams on its own, never frees one the application still holds,
  and \<open>lp_disconnect\<close> frees each of the remaining streams once and leaves none.
\<close>

theorem libpeer_memory_safe:
  assumes "lp_reach c"
  shows "(lc_fd c < 0 \<longrightarrow> 0 \<le> fd \<longrightarrow> session_up c fd ok nonce \<noteq> None) \<and> io_before_poll c ws \<noteq> None \<and>
    io_after_poll c failed wake_in tun_in tun_out now rs ws \<noteq> None \<and> io_finish c wss \<noteq> None \<and> lp_poll c maxn \<noteq> None \<and>
    (\<exists>c'. lp_disconnect c wss = Some c' \<and> lc_store c' = Map.empty) \<and>
    (\<forall>p \<in> handles c. lp_read c p n \<noteq> None \<and> lp_read_nb c p n \<noteq> None \<and> lp_write c p buf \<noteq> None \<and>
       lp_write_nb c p buf \<noteq> None \<and> lp_stream_meta c p \<noteq> None \<and> lp_close c p \<noteq> None)"
proof -
  have g: "good c" by (rule lp_reach_good [OF assms])
  have "session_up c fd ok nonce \<noteq> None" if "lc_fd c < 0" "0 \<le> fd"
    using session_up_safe [OF g, of ok fd nonce] that g by (auto simp: good_def)
  moreover have "lp_read c p n \<noteq> None" "lp_read_nb c p n \<noteq> None" "lp_write c p buf \<noteq> None" "lp_write_nb c p buf \<noteq> None"
    "lp_stream_meta c p \<noteq> None" "lp_close c p \<noteq> None" if p: "p \<in> handles c" for p
    using lp_read_safe [OF g p, of n] lp_write_safe [OF g p, of buf] lp_close_safe [OF g p] handle_live [OF p]
    by (auto simp: lp_stream_meta_def)
  ultimately show ?thesis
    using io_before_poll_safe [OF g, of ws] io_after_poll_safe [OF g, of failed wake_in tun_in tun_out now rs ws]
      io_finish_safe [OF g, of wss] lp_poll_safe [OF g, of maxn] lp_disconnect_frees [OF g, of wss] by auto
qed

text \<open>A listening client whose first tunnel is up.\<close>

definition wit_lp_cfg :: lp_config where
  "wit_lp_cfg = \<lparr>lf_listen_addr = Some [47], lf_host = None, lf_token = None, lf_peer_id = None, lf_weight = 0, lf_init_window = 100,
     lf_session_window = 200, lf_heartbeat_ms = 1000\<rparr>"

definition wit_up :: lp_client where
  "wit_up = snd (the (session_up (lp_client_init wit_lp_cfg []) 3 True []))"

lemma wit_up_reach: "lp_reach wit_up"
proof -
  let ?c = "lp_client_init wit_lp_cfg []"
  have g: "good ?c" "lc_mux ?c = None" "lc_fd ?c < 0" using lp_init_good by (simp_all add: lp_client_init_def)
  have "lp_connect (Some wit_lp_cfg) [] True True True = Some ?c" by (simp add: lp_connect_def strdup_nil wit_lp_cfg_def)
  then have r: "lp_reach ?c" by (rule lp_start)
  obtain b c' where "session_up ?c 3 True [] = Some (b, c')" using session_up_safe [OF g(1,2), of True 3 "[]"] by auto
  then show ?thesis unfolding wit_up_def using lp_next [OF r io_up [OF g(3), of True 3]] by simp
qed

lemma wit_up_mux: "lc_mux wit_up \<noteq> None \<and> lc_fd wit_up = 3"
  by (simp add: wit_up_def session_up_def lp_mux_config_def wit_lp_cfg_def lp_client_init_def Let_def mux_session_new_def
      HELLO_BLOB_MAX_def own_blob_def session_init_def st_grow_def stream_tab_zero_def)

theorem libpeer_memory_safe_witness:
  "lc_mux wit_up \<noteq> None \<and> io_after_poll wit_up False True True True 7 [RdData (wit_hello @ wit_syn), RdEof] [WrOk 3, WrAgain] \<noteq> None"
  using libpeer_memory_safe [OF wit_up_reach] wit_up_mux by blast



end
