(* ===== verification/Mux_Relay.thy ===== *)
theory Mux_Relay
  imports Mux_Transport Mux_Umap Mux_Bytebuf "HOL-Library.Monad_Syntax"
begin

text \<open>
  The relay engine of the two daemons, \<^verbatim>\<open>src/common/relay.c\<close> with the options of
  \<^verbatim>\<open>src/common/relay.h\<close>: one tunnel session, and one socket per stream, accepted on a public
  port (edge) or dialed to a backend (edge-peer). The C code mutates \<open>struct relay\<close>; here every
  function returns the state after it. The slab of connections, its free list, the map from
  stream ids to slots and the dirty list are the arrays of the source. \<open>None\<close> as a result is
  an access outside an array or through a null pointer, or a loop that does not end.

  The kernel is part of the state, \<open>rl_os\<close>: the results of the calls still to come, consumed
  front first (an exhausted list would block, refuse a dial, or have no client waiting), and
  the log of what the relay did to its sockets. What it asked of the event loop,
  \<^verbatim>\<open>src/common/evloop.c\<close>, is \<open>rl_loop\<close>: per descriptor the interest registered and the tag.
\<close>

unbundle bit_operations_syntax

section \<open>Data\<close>

record relay_opts =
  ro_role :: mux_role
  ro_token :: "bytes option"
  ro_peer_id :: "bytes option"
  ro_weight :: u32
  ro_init_window :: u32
  ro_session_window :: u32
  ro_heartbeat_ms :: u32
  ro_public_listen_fd :: int
  ro_max_streams :: int
  ro_backend_host :: "bytes option"
  ro_backend_port :: u16

text \<open>\<open>rc_cur\<close> is the interest registered (\<open>cur_r\<close>, \<open>cur_w\<close>); \<open>None\<close> are the two \<^verbatim>\<open>-1\<close>.\<close>

record conn =
  rc_used :: bool
  rc_sock :: int
  rc_sid :: u32
  rc_connecting :: bool
  rc_sock_eof :: bool
  rc_stream_fin :: bool
  rc_send_blocked :: bool
  rc_gone :: bool
  rc_cur :: "(bool \<times> bool) option"
  rc_in_dirty :: bool
  rc_s2m :: buf_t
  rc_m2s :: buf_t

definition conn_clear :: conn where
  "conn_clear = \<lparr>rc_used = False, rc_sock = 0, rc_sid = 0, rc_connecting = False, rc_sock_eof = False, rc_stream_fin = False,
     rc_send_blocked = False, rc_gone = False, rc_cur = Some (False, False), rc_in_dirty = False, rc_s2m = buf_zero, rc_m2s = buf_zero\<rparr>"

datatype udata = OWN_TUNNEL | OWN_LISTEN | UD_CONN nat

datatype os_act = Written int bytes | WriteFailed int | ShutWr int | Closed int

record relay_os =
  os_reads :: "sys_read list"
  os_writes :: "sys_write list"
  os_dials :: "int list"
  os_accepts :: "(int \<times> bytes) list"
  os_errors :: "int list"
  os_log :: "os_act list"

text \<open>
  \<open>rl_free\<close> is \<^verbatim>\<open>freelist[0 .. free_n)\<close> with the top of the stack first, \<open>rl_dirty\<close> is
  \<^verbatim>\<open>dirty[0 .. dirty_n)\<close>, and a cell of \<open>rl_sidmap\<close> is 0 or one more than a slot, as in the
  source. \<open>rl_recv\<close> is the filled part of the receive buffer.
\<close>

record relay =
  rl_tunnel_fd :: int
  rl_mux :: mux_session
  rl_opt :: relay_opts
  rl_loop :: "int \<Rightarrow> (bool \<times> bool \<times> udata) option"
  rl_nonce :: bytes
  rl_proof :: bytes
  rl_authed :: bool
  rl_tun :: "(bool \<times> bool) option"
  rl_conns :: "conn list"
  rl_free :: "nat list"
  rl_sidmap :: "nat list"
  rl_dirty :: "nat list"
  rl_dirty_cap :: nat
  rl_nactive :: nat
  rl_listen_paused :: bool
  rl_stop :: bool
  rl_recv :: bytes
  rl_os :: relay_os
  rl_mem :: heap

definition conn_get :: "relay \<Rightarrow> nat \<Rightarrow> conn option" where
  "conn_get r idx = (if idx < length (rl_conns r) then Some (rl_conns r ! idx) else None)"

definition upd_conn_at :: "relay \<Rightarrow> nat \<Rightarrow> (conn \<Rightarrow> conn) \<Rightarrow> relay" where
  "upd_conn_at r idx f = r\<lparr>rl_conns := (rl_conns r)[idx := f (rl_conns r ! idx)]\<rparr>"

definition os_do :: "relay \<Rightarrow> os_act \<Rightarrow> relay" where
  "os_do r a = r\<lparr>rl_os := (rl_os r)\<lparr>os_log := os_log (rl_os r) @ [a]\<rparr>\<rparr>"

text \<open>
  \<^verbatim>\<open>accept\<close> and \<^verbatim>\<open>socket\<close> return a descriptor that is not open. A script with one that is open
  is no behaviour of the kernel, and is read as a failed call.
\<close>

definition new_fd :: "relay \<Rightarrow> int \<Rightarrow> int" where
  "new_fd r fd =
     (if fd = rl_tunnel_fd r \<or> fd = ro_public_listen_fd (rl_opt r) \<or> (\<exists>c \<in> set (rl_conns r). rc_used c \<and> rc_sock c = fd)
      then - 1 else fd)"

definition evloop_set :: "relay \<Rightarrow> int \<Rightarrow> bool \<Rightarrow> bool \<Rightarrow> udata \<Rightarrow> relay" where
  "evloop_set r fd want_read want_write ud = r\<lparr>rl_loop := (rl_loop r)(fd \<mapsto> (want_read, want_write, ud))\<rparr>"

definition evloop_del :: "relay \<Rightarrow> int \<Rightarrow> relay" where
  "evloop_del r fd = r\<lparr>rl_loop := (rl_loop r)(fd := None)\<rparr>"

section \<open>The slab\<close>

definition pow2_ceil :: "nat \<Rightarrow> nat" where
  "pow2_ceil x = grow_cap 16 x"

text \<open>
  When the slab was moved by the first \<^verbatim>\<open>realloc\<close> and the second fails, \<^verbatim>\<open>r->conns\<close> is left
  pointing at the freed block: \<open>None\<close>.
\<close>

definition conn_alloc :: "relay \<Rightarrow> (nat option \<times> relay) option" where
  "conn_alloc r =
     (let cap = length (rl_conns r);
          take_top = (\<lambda>r. let idx = hd (rl_free r) in
             (Some idx, r\<lparr>rl_free := tl (rl_free r),
                          rl_conns := (rl_conns r)[idx := conn_clear\<lparr>rc_used := True, rc_sock := - 1, rc_cur := None\<rparr>]\<rparr>))
      in if rl_free r = [] then
           let nc = (if cap \<noteq> 0 then cap * 2 else 64)
           in case alloc (rl_mem r) of
                (False, h) \<Rightarrow> Some (None, r\<lparr>rl_mem := h\<rparr>)
              | (True, h) \<Rightarrow>
                  (case alloc h of
                     (False, h) \<Rightarrow> if cap = 0 then Some (None, r\<lparr>rl_mem := h\<rparr>) else None
                   | (True, h) \<Rightarrow>
                       Some (take_top (r\<lparr>rl_mem := h, rl_conns := rl_conns r @ replicate (nc - cap) conn_clear,
                                        rl_free := [cap..<nc]\<rparr>)))
         else Some (take_top r))"

definition conn_release :: "relay \<Rightarrow> nat \<Rightarrow> relay" where
  "conn_release r idx = (upd_conn_at r idx (\<lambda>c. c\<lparr>rc_used := False\<rparr>))\<lparr>rl_free := idx # rl_free r\<rparr>"

section \<open>The map from stream ids to slots\<close>

definition sid_mix :: "u32 \<Rightarrow> nat \<Rightarrow> nat" where
  "sid_mix sid m = unat (drop_bit 32 ((ucast sid :: u64) * 0x9e3779b97f4a7c15) AND of_nat m)"

text \<open>The unbounded probe loops, to the first empty cell: \<open>None\<close> after a full round.\<close>

fun sid_free_slot :: "nat list \<Rightarrow> nat \<Rightarrow> nat \<Rightarrow> nat option" where
  "sid_free_slot m j 0 = None"
| "sid_free_slot m j (Suc fuel) = (if m ! j \<noteq> 0 then sid_free_slot m ((j + 1) AND (length m - 1)) fuel else Some j)"

fun sidmap_rehash :: "conn list \<Rightarrow> nat list \<Rightarrow> nat list \<Rightarrow> nat list option" where
  "sidmap_rehash cs nm [] = Some nm"
| "sidmap_rehash cs nm (v # vs) =
     (if v = 0 then sidmap_rehash cs nm vs
      else if length cs < v then None
      else case sid_free_slot nm (sid_mix (rc_sid (cs ! (v - 1))) (length nm - 1)) (length nm) of
             None \<Rightarrow> None
           | Some j \<Rightarrow> sidmap_rehash cs (nm[j := v]) vs)"

definition sidmap_room :: "relay \<Rightarrow> nat \<Rightarrow> (bool \<times> relay) option" where
  "sidmap_room r idx =
     (let cap = length (rl_sidmap r)
      in if cap = 0 \<or> (idx + 1) * 4 \<ge> cap * 3 then
           let nc = pow2_ceil (if cap \<noteq> 0 then cap * 2 else 64)
           in case alloc (rl_mem r) of
                (False, h) \<Rightarrow> Some (False, r\<lparr>rl_mem := h\<rparr>)
              | (True, h) \<Rightarrow> do {
                  nm \<leftarrow> sidmap_rehash (rl_conns r) (replicate nc 0) (rl_sidmap r);
                  Some (True, r\<lparr>rl_mem := h, rl_sidmap := nm\<rparr>)
                }
         else Some (True, r))"

definition sidmap_set :: "relay \<Rightarrow> u32 \<Rightarrow> nat \<Rightarrow> relay option" where
  "sidmap_set r sid idx = do {
     (ok, r) \<leftarrow> sidmap_room r idx;
     if \<not> ok then Some r
     else do {
       i \<leftarrow> sid_free_slot (rl_sidmap r) (sid_mix sid (length (rl_sidmap r) - 1)) (length (rl_sidmap r));
       Some (r\<lparr>rl_sidmap := (rl_sidmap r)[i := idx + 1]\<rparr>)
     }
   }"

text \<open>The bounded probe loops of \<open>sidmap_get\<close> and \<open>sidmap_del\<close>.\<close>

fun sidmap_probe :: "conn list \<Rightarrow> nat list \<Rightarrow> u32 \<Rightarrow> nat \<Rightarrow> nat \<Rightarrow> nat option option" where
  "sidmap_probe cs m sid i 0 = Some None"
| "sidmap_probe cs m sid i (Suc p) =
     (let v = m ! i
      in if v = 0 then Some None
         else if length cs < v then None
         else if rc_used (cs ! (v - 1)) \<and> rc_sid (cs ! (v - 1)) = sid then Some (Some (v - 1))
         else sidmap_probe cs m sid ((i + 1) AND (length m - 1)) p)"

definition sidmap_get :: "relay \<Rightarrow> u32 \<Rightarrow> nat option option" where
  "sidmap_get r sid =
     (let cap = length (rl_sidmap r)
      in if cap = 0 then Some None
         else sidmap_probe (rl_conns r) (rl_sidmap r) sid (sid_mix sid (cap - 1)) cap)"

fun sidmap_find :: "conn list \<Rightarrow> nat list \<Rightarrow> u32 \<Rightarrow> nat \<Rightarrow> nat \<Rightarrow> probe_end option" where
  "sidmap_find cs m sid i 0 = Some (Round i)"
| "sidmap_find cs m sid i (Suc p) =
     (let v = m ! i
      in if v = 0 then Some (Miss i)
         else if length cs < v then None
         else if rc_sid (cs ! (v - 1)) = sid then Some (Hit i)
         else sidmap_find cs m sid ((i + 1) AND (length m - 1)) p)"

partial_function (option) sidmap_reinsert :: "conn list \<Rightarrow> nat list \<Rightarrow> nat \<Rightarrow> nat list option" where
  "sidmap_reinsert cs m j =
     (let v = m ! j
      in if v = 0 then Some m
         else if length cs < v then None
         else case sid_free_slot (m[j := 0]) (sid_mix (rc_sid (cs ! (v - 1))) (length m - 1)) (length m) of
                None \<Rightarrow> None
              | Some k \<Rightarrow> sidmap_reinsert cs ((m[j := 0])[k := v]) ((j + 1) AND (length m - 1)))"

declare sidmap_reinsert.simps [code]

definition sidmap_del :: "relay \<Rightarrow> u32 \<Rightarrow> relay option" where
  "sidmap_del r sid =
     (let m = rl_sidmap r; cap = length m
      in if cap = 0 then Some r
         else do {
           e \<leftarrow> sidmap_find (rl_conns r) m sid (sid_mix sid (cap - 1)) cap;
           case e of
             Miss i \<Rightarrow> Some r
           | Hit i \<Rightarrow> do { m \<leftarrow> sidmap_reinsert (rl_conns r) (m[i := 0]) ((i + 1) AND (cap - 1)); Some (r\<lparr>rl_sidmap := m\<rparr>) }
           | Round i \<Rightarrow> do { m \<leftarrow> sidmap_reinsert (rl_conns r) m ((i + 1) AND (cap - 1)); Some (r\<lparr>rl_sidmap := m\<rparr>) }
         })"

section \<open>Interest\<close>

definition conn_desired :: "conn \<Rightarrow> bool \<times> bool" where
  "conn_desired c =
     (if rc_connecting c then (False, True)
      else (\<not> rc_sock_eof c \<and> buf_avail (rc_s2m c) = 0 \<and> \<not> rc_send_blocked c, buf_avail (rc_m2s c) > 0))"

definition conn_apply_interest :: "relay \<Rightarrow> nat \<Rightarrow> relay option" where
  "conn_apply_interest r idx = do {
     c \<leftarrow> conn_get r idx;
     if \<not> rc_used c \<or> rc_sock c < 0 then Some r
     else case conn_desired c of
            (wr, ww) \<Rightarrow>
              Some (if rc_cur c = Some (wr, ww) then r
                    else evloop_set (upd_conn_at r idx (\<lambda>c. c\<lparr>rc_cur := Some (wr, ww)\<rparr>)) (rc_sock c) wr ww (UD_CONN idx))
   }"

text \<open>The dirty list is grown without a test of the result: a failure is a write through null.\<close>

definition mark_dirty :: "relay \<Rightarrow> nat \<Rightarrow> relay option" where
  "mark_dirty r idx = do {
     c \<leftarrow> conn_get r idx;
     if rc_in_dirty c then Some r
     else
       let r = upd_conn_at r idx (\<lambda>c. c\<lparr>rc_in_dirty := True\<rparr>)
       in do {
         r \<leftarrow> (if length (rl_dirty r) \<ge> rl_dirty_cap r then
                  (case alloc (rl_mem r) of
                     (False, h) \<Rightarrow> None
                   | (True, h) \<Rightarrow> Some (r\<lparr>rl_mem := h, rl_dirty_cap := (if rl_dirty_cap r \<noteq> 0 then rl_dirty_cap r * 2 else 64)\<rparr>))
                else Some r);
         if length (rl_dirty r) < rl_dirty_cap r then Some (r\<lparr>rl_dirty := rl_dirty r @ [idx]\<rparr>) else None
       }
   }"

fun flush_marks :: "relay \<Rightarrow> nat list \<Rightarrow> relay option" where
  "flush_marks r [] = Some (r\<lparr>rl_dirty := []\<rparr>)"
| "flush_marks r (idx # is) = do {
     c \<leftarrow> conn_get r idx;
     r \<leftarrow> (if rc_used c \<and> rc_in_dirty c then conn_apply_interest (upd_conn_at r idx (\<lambda>c. c\<lparr>rc_in_dirty := False\<rparr>)) idx else Some r);
     flush_marks r is
   }"

definition flush_dirty :: "relay \<Rightarrow> relay option" where
  "flush_dirty r = flush_marks r (rl_dirty r)"

definition update_tunnel_interest :: "relay \<Rightarrow> relay" where
  "update_tunnel_interest r =
     (let out_len = mux_out_pending (rl_mux r);
          wr = (out_len < 4 * 1024 * 1024);
          ww = (out_len > 0)
      in if rl_tun r = Some (wr, ww) then r
         else evloop_set (r\<lparr>rl_tun := Some (wr, ww)\<rparr>) (rl_tunnel_fd r) wr ww OWN_TUNNEL)"

section \<open>Teardown\<close>

definition conn_resume :: "relay \<Rightarrow> relay" where
  "conn_resume r =
     (if ro_public_listen_fd (rl_opt r) \<ge> 0 then
        let r = (if rl_nactive r > 0 then r\<lparr>rl_nactive := rl_nactive r - 1\<rparr> else r)
        in if rl_listen_paused r \<and> (ro_max_streams (rl_opt r) \<le> 0 \<or> int (rl_nactive r) < ro_max_streams (rl_opt r)) then
             (evloop_set r (ro_public_listen_fd (rl_opt r)) True False OWN_LISTEN)\<lparr>rl_listen_paused := False\<rparr>
           else r
      else r)"

definition conn_destroy :: "relay \<Rightarrow> nat \<Rightarrow> relay option" where
  "conn_destroy r idx = do {
     c \<leftarrow> conn_get r idx;
     if \<not> rc_used c then Some r
     else
       let r = (if rc_sock c \<ge> 0 then os_do (evloop_del r (rc_sock c)) (Closed (rc_sock c)) else r)
       in do {
         r \<leftarrow> sidmap_del r (rc_sid c);
         Some (conn_resume (conn_release
                 (upd_conn_at r idx (\<lambda>c. c\<lparr>rc_s2m := buf_zero, rc_m2s := buf_zero, rc_in_dirty := False\<rparr>)) idx))
       }
   }"

definition conn_maybe_finish :: "relay \<Rightarrow> nat \<Rightarrow> relay option" where
  "conn_maybe_finish r idx = do {
     c \<leftarrow> conn_get r idx;
     if rc_gone c then conn_destroy r idx
     else if rc_sock_eof c \<and> rc_stream_fin c \<and> buf_avail (rc_m2s c) = 0 \<and> buf_avail (rc_s2m c) = 0 then conn_destroy r idx
     else Some r
   }"

section \<open>Setup\<close>

text \<open>\<open>nonce\<close> are the bytes of \<open>os_random\<close>, \<open>loop_ok\<close> whether \<open>evloop_new\<close> succeeded, \<open>os\<close> the kernel.\<close>

definition relay_config :: "relay_opts \<Rightarrow> bytes \<Rightarrow> (mux_config \<times> bytes \<times> bytes \<times> bool) option" where
  "relay_config opts nonce =
     (let mc = \<lparr>cfg_init_window = ro_init_window opts, cfg_session_window = ro_session_window opts, cfg_max_streams = 0,
                cfg_heartbeat_ms = (if ro_heartbeat_ms opts \<noteq> 0 then ro_heartbeat_ms opts else 15000),
                cfg_keepalive_timeout_ms = 0, cfg_weight = ro_weight opts, cfg_max_out_buffer = 0,
                cfg_peer_id = ro_peer_id opts, cfg_peer_id_len = length (blob (ro_peer_id opts)),
                cfg_auth = None, cfg_auth_len = 0, cfg_nonce = None, cfg_nonce_len = 0\<rparr>
      in case ro_token opts of
           None \<Rightarrow> Some (mc, replicate 16 0, replicate 32 0, True)
         | Some token \<Rightarrow> do {
             proof \<leftarrow> mux_auth_proof token nonce;
             Some (mc\<lparr>cfg_nonce := Some nonce, cfg_nonce_len := length nonce, cfg_auth := Some proof, cfg_auth_len := length proof\<rparr>,
                   nonce, proof, False)
           })"

definition relay_new :: "int \<Rightarrow> relay_opts \<Rightarrow> bytes \<Rightarrow> bool \<Rightarrow> relay_os \<Rightarrow> heap \<Rightarrow> relay option option" where
  "relay_new tunnel_fd opts nonce loop_ok os h =
     (case alloc h of
        (False, h) \<Rightarrow> Some None
      | (True, h) \<Rightarrow> do {
          (mc, nonce, proof, authed) \<leftarrow> relay_config opts nonce;
          Some (case mux_session_new (Some mc) (ro_role opts) h of
                  None \<Rightarrow> None
                | Some s \<Rightarrow>
                    if \<not> loop_ok then None
                    else Some \<lparr>rl_tunnel_fd = tunnel_fd, rl_mux = s, rl_opt = opts, rl_loop = Map.empty, rl_nonce = nonce, rl_proof = proof,
                               rl_authed = authed, rl_tun = None, rl_conns = [], rl_free = [], rl_sidmap = [], rl_dirty = [],
                               rl_dirty_cap = 0, rl_nactive = 0, rl_listen_paused = False, rl_stop = False, rl_recv = [],
                               rl_os = os, rl_mem = h\<rparr>)
        })"

text \<open>\<open>relay_free\<close> up to the release of the memory: every connection in use is destroyed.\<close>

fun destroy_all :: "relay \<Rightarrow> nat list \<Rightarrow> relay option" where
  "destroy_all r [] = Some r"
| "destroy_all r (i # is) = do {
     c \<leftarrow> conn_get r i;
     r \<leftarrow> (if rc_used c then conn_destroy r i else Some r);
     destroy_all r is
   }"

definition relay_free :: "relay \<Rightarrow> relay option" where
  "relay_free r = destroy_all r [0..<length (rl_conns r)]"

section \<open>Data movement\<close>

text \<open>
  The loop of \<open>flush_to_socket\<close>: success, the session after the credits, the buffer, the calls
  left and the bytes the socket took.
\<close>

fun drain_sock :: "mux_session \<Rightarrow> u32 \<Rightarrow> buf_t \<Rightarrow> sys_write list \<Rightarrow> bytes \<Rightarrow> bool \<times> mux_session \<times> buf_t \<times> sys_write list \<times> bytes" where
  "drain_sock s sid b [] sent = (True, s, b, [], sent)"
| "drain_sock s sid b (w # ws) sent =
     (if \<not> buf_avail b > 0 then (True, s, b, w # ws, sent)
      else case w of
             WrOk n \<Rightarrow>
               let k = min n (buf_avail b)
               in if k > 0 then
                    drain_sock (snd (mux_consume s sid (of_nat k))) sid (buf_consume b k) ws (sent @ take k (buf_bytes b))
                  else (False, s, b, ws, sent)
           | WrAgain \<Rightarrow> (True, s, b, ws, sent)
           | WrErr \<Rightarrow> (False, s, b, ws, sent))"

definition flush_to_socket :: "relay \<Rightarrow> nat \<Rightarrow> (bool \<times> relay) option" where
  "flush_to_socket r idx = do {
     c \<leftarrow> conn_get r idx;
     case drain_sock (rl_mux r) (rc_sid c) (rc_m2s c) (os_writes (rl_os r)) [] of
       (ok, s, b, ws, sent) \<Rightarrow>
         let r = os_do (upd_conn_at (r\<lparr>rl_mux := s, rl_os := (rl_os r)\<lparr>os_writes := ws\<rparr>\<rparr>) idx (\<lambda>c. c\<lparr>rc_m2s := b\<rparr>))
                   (Written (rc_sock c) sent)
         in if \<not> ok then Some (False, os_do r (WriteFailed (rc_sock c)))
            else do {
              r \<leftarrow> mark_dirty (if rc_stream_fin c \<and> buf_avail b = 0 \<and> \<not> rc_sock_eof c then os_do r (ShutWr (rc_sock c)) else r) idx;
              Some (True, r)
            }
   }"

text \<open>The loop of \<open>flush_to_mux\<close>: whether it emptied the buffer.\<close>

function drain_mux :: "mux_session \<Rightarrow> u32 \<Rightarrow> buf_t \<Rightarrow> bool \<times> mux_session \<times> buf_t" where
  "drain_mux s sid b =
     (if \<not> buf_avail b > 0 then (True, s, b)
      else case mux_write s sid (Some (buf_bytes b)) (buf_avail b) of
             (Inl _, s) \<Rightarrow> (False, s, b)
           | (Inr w, s) \<Rightarrow>
               let b = (if w > 0 then buf_consume b w else b)
               in if w = 0 then (False, s, b)
                  else if w < buf_avail b then (False, s, b)
                  else drain_mux s sid b)"
  by pat_completeness auto
termination
  by (relation "measure (\<lambda>(s, sid, b). buf_avail b)") (auto simp: buf_avail_def buf_consume_def Let_def)

declare drain_mux.simps [simp del]

definition flush_to_mux :: "relay \<Rightarrow> nat \<Rightarrow> relay option" where
  "flush_to_mux r idx = do {
     c \<leftarrow> conn_get r idx;
     case drain_mux (rl_mux r) (rc_sid c) (rc_s2m c) of
       (emptied, s, b) \<Rightarrow>
         let r = upd_conn_at (r\<lparr>rl_mux := s\<rparr>) idx (\<lambda>c. c\<lparr>rc_s2m := b, rc_send_blocked := \<not> emptied\<rparr>)
         in mark_dirty (if emptied \<and> rc_sock_eof c then r\<lparr>rl_mux := snd (mux_close (rl_mux r) (rc_sid c))\<rparr> else r) idx
   }"

section \<open>Opening connections\<close>

definition open_backend_conn :: "relay \<Rightarrow> u32 \<Rightarrow> relay option" where
  "open_backend_conn r sid =
     (let os = rl_os r; fd = (case os_dials os of [] \<Rightarrow> - 1 | d # _ \<Rightarrow> new_fd r d);
          r = r\<lparr>rl_os := os\<lparr>os_dials := tl (os_dials os)\<rparr>\<rparr>;
          refuse = (\<lambda>r. r\<lparr>rl_mux := snd (mux_reset (rl_mux r) sid MUX_CODE_INTERNAL)\<rparr>)
      in if fd < 0 then Some (refuse r)
         else do {
           (idxp, r) \<leftarrow> conn_alloc r;
           case idxp of
             None \<Rightarrow> Some (refuse (os_do r (Closed fd)))
           | Some idx \<Rightarrow> do {
               r \<leftarrow> sidmap_set (upd_conn_at r idx (\<lambda>c. c\<lparr>rc_sock := fd, rc_sid := sid, rc_connecting := True\<rparr>)) sid idx;
               conn_apply_interest r idx
             }
         })"

text \<open>The body of the loop of \<open>accept_public\<close> for a client that was accepted, and the loop.\<close>

definition accept_one :: "relay \<Rightarrow> int \<Rightarrow> bytes \<Rightarrow> relay option" where
  "accept_one r fd peer =
     (if \<not> rl_authed r then Some (os_do r (Closed fd))
      else case mux_open (rl_mux r) (Some peer) (length peer) of
             (Inl _, s) \<Rightarrow> Some (os_do (r\<lparr>rl_mux := s\<rparr>) (Closed fd))
           | (Inr sid, s) \<Rightarrow> do {
               (idxp, r) \<leftarrow> conn_alloc (r\<lparr>rl_mux := s\<rparr>);
               case idxp of
                 None \<Rightarrow> Some ((os_do r (Closed fd))\<lparr>rl_mux := snd (mux_reset (rl_mux r) sid MUX_CODE_INTERNAL)\<rparr>)
               | Some idx \<Rightarrow> do {
                   r \<leftarrow> sidmap_set (upd_conn_at r idx (\<lambda>c. c\<lparr>rc_sock := fd, rc_sid := sid\<rparr>)) sid idx;
                   conn_apply_interest (r\<lparr>rl_nactive := rl_nactive r + 1\<rparr>) idx
                 }
             })"

definition at_cap :: "relay \<Rightarrow> bool" where
  "at_cap r \<longleftrightarrow> ro_max_streams (rl_opt r) > 0 \<and> int (rl_nactive r) \<ge> ro_max_streams (rl_opt r)"

fun accept_loop :: "relay \<Rightarrow> (int \<times> bytes) list \<Rightarrow> relay option" where
  "accept_loop r acc =
     (if at_cap r then
        Some (if \<not> rl_listen_paused r
              then (evloop_set r (ro_public_listen_fd (rl_opt r)) False False OWN_LISTEN)\<lparr>rl_listen_paused := True\<rparr> else r)
      else case acc of
             [] \<Rightarrow> Some r
           | (fd, peer) # acc \<Rightarrow>
               let r = r\<lparr>rl_os := (rl_os r)\<lparr>os_accepts := acc\<rparr>\<rparr>
               in if new_fd r fd < 0 then Some r
                  else do { r \<leftarrow> accept_one r fd peer; accept_loop r acc })"

declare accept_loop.simps [simp del]

definition accept_public :: "relay \<Rightarrow> relay option" where
  "accept_public r = accept_loop r (os_accepts (rl_os r))"

section \<open>Socket events\<close>

text \<open>
  The cases of the loop of \<open>on_sock_readable\<close>: the end of the input, and \<open>tmp\<close> read, with
  whether the loop goes on.
\<close>

definition conn_drop :: "relay \<Rightarrow> nat \<Rightarrow> relay option" where
  "conn_drop r idx = conn_destroy (upd_conn_at r idx (\<lambda>c. c\<lparr>rc_gone := True\<rparr>)) idx"

definition sock_ended :: "relay \<Rightarrow> nat \<Rightarrow> relay option" where
  "sock_ended r idx = do {
     c \<leftarrow> conn_get r idx;
     let r = upd_conn_at r idx (\<lambda>c. c\<lparr>rc_sock_eof := True\<rparr>);
         r = (if buf_avail (rc_s2m c) = 0 then r\<lparr>rl_mux := snd (mux_close (rl_mux r) (rc_sid c))\<rparr> else r)
     in do { r \<leftarrow> mark_dirty r idx; conn_maybe_finish r idx }
   }"

definition sock_data :: "relay \<Rightarrow> nat \<Rightarrow> bytes \<Rightarrow> (bool \<times> relay) option" where
  "sock_data r idx tmp = do {
     c \<leftarrow> conn_get r idx;
     case mux_write (rl_mux r) (rc_sid c) (Some tmp) (length tmp) of
       (Inl _, s) \<Rightarrow> do { r \<leftarrow> conn_drop (r\<lparr>rl_mux := s\<rparr>) idx; Some (False, r) }
     | (Inr w, s) \<Rightarrow>
         if w < length tmp then
           (case relay_buf_append (rc_s2m c) (drop w tmp) (rl_mem r) of
              (ok, b, h) \<Rightarrow> do {
                r \<leftarrow> mark_dirty (upd_conn_at (r\<lparr>rl_mux := s, rl_mem := h\<rparr>) idx (\<lambda>c. c\<lparr>rc_s2m := b, rc_send_blocked := True\<rparr>)) idx;
                Some (False, r)
              })
         else Some (True, r\<lparr>rl_mux := s\<rparr>)
   }"

fun read_sock :: "relay \<Rightarrow> nat \<Rightarrow> sys_read list \<Rightarrow> relay option" where
  "read_sock r idx [] = Some (r\<lparr>rl_os := (rl_os r)\<lparr>os_reads := []\<rparr>\<rparr>)"
| "read_sock r idx (x # xs) =
     (let r = r\<lparr>rl_os := (rl_os r)\<lparr>os_reads := xs\<rparr>\<rparr>;
          tmp = (case x of RdData d \<Rightarrow> take 32768 d | _ \<Rightarrow> [])
      in if x = RdAgain then Some r
         else if x = RdErr then conn_drop r idx
         else if tmp = [] then sock_ended r idx
         else do { (more, r) \<leftarrow> sock_data r idx tmp; if more then read_sock r idx xs else Some r })"

definition on_sock_readable :: "relay \<Rightarrow> nat \<Rightarrow> relay option" where
  "on_sock_readable r idx = do {
     c \<leftarrow> conn_get r idx;
     if buf_avail (rc_s2m c) > 0 then Some r else read_sock r idx (os_reads (rl_os r))
   }"

definition conn_abort :: "relay \<Rightarrow> nat \<Rightarrow> relay option" where
  "conn_abort r idx = do {
     c \<leftarrow> conn_get r idx;
     conn_drop (r\<lparr>rl_mux := snd (mux_reset (rl_mux r) (rc_sid c) MUX_CODE_INTERNAL)\<rparr>) idx
   }"

definition on_sock_writable :: "relay \<Rightarrow> nat \<Rightarrow> relay option" where
  "on_sock_writable r idx = do {
     c \<leftarrow> conn_get r idx;
     let err = (case os_errors (rl_os r) of [] \<Rightarrow> 0 | e # _ \<Rightarrow> e);
         r1 = (if rc_connecting c then r\<lparr>rl_os := (rl_os r)\<lparr>os_errors := tl (os_errors (rl_os r))\<rparr>\<rparr> else r) in
     if rc_connecting c \<and> err \<noteq> 0 then conn_abort r1 idx
     else do {
       r \<leftarrow> (if rc_connecting c then mark_dirty (upd_conn_at r1 idx (\<lambda>c. c\<lparr>rc_connecting := False\<rparr>)) idx else Some r1);
       (ok, r) \<leftarrow> flush_to_socket r idx;
       if \<not> ok then conn_abort r idx else conn_maybe_finish r idx
     }
   }"

section \<open>Tunnel events\<close>

definition relay_hello :: "relay \<Rightarrow> hello_info \<Rightarrow> relay option" where
  "relay_hello r hi =
     (case ro_token (rl_opt r) of
        None \<Rightarrow> Some r
      | Some token \<Rightarrow> do {
          ok \<leftarrow> hello_authentic (Some token) hi;
          Some (if ok then r\<lparr>rl_authed := True\<rparr>
                else r\<lparr>rl_mux := snd (mux_goaway (rl_mux r) MUX_CODE_REFUSED), rl_stop := True\<rparr>)
        })"

definition relay_data :: "relay \<Rightarrow> u32 \<Rightarrow> bytes option \<Rightarrow> relay option" where
  "relay_data r sid data = do {
     idxp \<leftarrow> sidmap_get r sid;
     case idxp of
       None \<Rightarrow> Some r
     | Some idx \<Rightarrow> do {
         c \<leftarrow> conn_get r idx;
         case relay_buf_append (rc_m2s c) (blob data) (rl_mem r) of
           (ok, b, h) \<Rightarrow>
             let r = upd_conn_at (r\<lparr>rl_mem := h\<rparr>) idx (\<lambda>c. c\<lparr>rc_m2s := b\<rparr>)
             in if \<not> rc_connecting c then map_option snd (flush_to_socket r idx) else mark_dirty r idx
       }
   }"

definition relay_closed :: "relay \<Rightarrow> u32 \<Rightarrow> relay option" where
  "relay_closed r sid = do {
     idxp \<leftarrow> sidmap_get r sid;
     case idxp of
       None \<Rightarrow> Some r
     | Some idx \<Rightarrow> do {
         c \<leftarrow> conn_get r idx;
         let r = upd_conn_at r idx (\<lambda>c. c\<lparr>rc_stream_fin := True\<rparr>) in do {
           r \<leftarrow> (if \<not> rc_connecting c then map_option snd (flush_to_socket r idx) else Some r);
           conn_maybe_finish r idx
         }
       }
   }"

definition relay_reset :: "relay \<Rightarrow> u32 \<Rightarrow> relay option" where
  "relay_reset r sid = do {
     idxp \<leftarrow> sidmap_get r sid;
     case idxp of
       None \<Rightarrow> Some r
     | Some idx \<Rightarrow> conn_drop r idx
   }"

fun flush_blocked :: "relay \<Rightarrow> nat list \<Rightarrow> relay option" where
  "flush_blocked r [] = Some r"
| "flush_blocked r (i # is) = do {
     c \<leftarrow> conn_get r i;
     r \<leftarrow> (if rc_used c \<and> rc_send_blocked c then flush_to_mux r i else Some r);
     flush_blocked r is
   }"

definition relay_writable :: "relay \<Rightarrow> u32 \<Rightarrow> relay option" where
  "relay_writable r sid =
     (if sid = MUX_SID_CONTROL then flush_blocked r [0..<length (rl_conns r)]
      else do {
        idxp \<leftarrow> sidmap_get r sid;
        case idxp of None \<Rightarrow> Some r | Some idx \<Rightarrow> flush_to_mux r idx
      })"

definition relay_event :: "relay \<Rightarrow> mux_event \<Rightarrow> relay option" where
  "relay_event r ev =
     (case ev of
        EV_PEER_HELLO hi \<Rightarrow> relay_hello r hi
      | EV_STREAM_OPENED sid meta \<Rightarrow>
          (case ro_backend_host (rl_opt r) of
             Some _ \<Rightarrow> open_backend_conn r sid
           | None \<Rightarrow> Some (r\<lparr>rl_mux := snd (mux_reset (rl_mux r) sid MUX_CODE_REFUSED)\<rparr>))
      | EV_STREAM_DATA sid data \<Rightarrow> relay_data r sid data
      | EV_STREAM_CLOSED sid \<Rightarrow> relay_closed r sid
      | EV_STREAM_RESET sid code \<Rightarrow> relay_reset r sid
      | EV_WRITABLE sid \<Rightarrow> relay_writable r sid
      | EV_FATAL code \<Rightarrow> Some (r\<lparr>rl_stop := True\<rparr>)
      | _ \<Rightarrow> Some r)"

partial_function (option) relay_handle_events :: "relay \<Rightarrow> relay option" where
  "relay_handle_events r =
     (case mux_next_event (rl_mux r) of
        None \<Rightarrow> Some r
      | Some (ev, s) \<Rightarrow> do {
          ev \<leftarrow> ev;
          r \<leftarrow> relay_event (r\<lparr>rl_mux := s\<rparr>) ev;
          relay_handle_events r
        })"

declare relay_handle_events.simps [code]

section \<open>Tunnel input and output\<close>

definition pump_recv :: "relay \<Rightarrow> (bool \<times> relay) option" where
  "pump_recv r =
     (case mux_recv (rl_mux r) (Some (rl_recv r)) (length (rl_recv r)) of
        (cc, s) \<Rightarrow> do {
          r \<leftarrow> relay_handle_events (r\<lparr>rl_mux := s\<rparr>);
          Some (case cc of Inl _ \<Rightarrow> (False, r) | Inr n \<Rightarrow> (True, r\<lparr>rl_recv := drop n (rl_recv r)\<rparr>))
        })"

definition RECV_BUF :: nat where
  "RECV_BUF = 262144"

partial_function (option) relay_tunnel_read :: "relay \<Rightarrow> (bool \<times> relay) option" where
  "relay_tunnel_read r =
     (let space = RECV_BUF - length (rl_recv r); before = length (rl_recv r)
      in if space = 0 then do {
           (ok, r) \<leftarrow> pump_recv r;
           if \<not> ok then Some (False, r)
           else if length (rl_recv r) = before then Some (True, r)
           else relay_tunnel_read r
         }
         else case os_reads (rl_os r) of
           [] \<Rightarrow> Some (True, r)
         | x # xs \<Rightarrow>
             let r = r\<lparr>rl_os := (rl_os r)\<lparr>os_reads := xs\<rparr>\<rparr>;
                 d = (case x of RdData d \<Rightarrow> take space d | _ \<Rightarrow> [])
             in if x = RdAgain then Some (True, r)
                else if d = [] then Some (False, r)
                else do {
                  (ok, r) \<leftarrow> pump_recv (r\<lparr>rl_recv := rl_recv r @ d\<rparr>);
                  if \<not> ok then Some (False, r)
                  else if length d < space then Some (True, r)
                  else relay_tunnel_read r
                })"

declare relay_tunnel_read.simps [code]

definition relay_tunnel_flush :: "relay \<Rightarrow> bool \<times> relay" where
  "relay_tunnel_flush r =
     (case flush_loop (rl_mux r) (os_writes (rl_os r)) [] of
        (ok, s, ws, sent) \<Rightarrow>
          (ok, os_do (r\<lparr>rl_mux := s, rl_os := (rl_os r)\<lparr>os_writes := ws\<rparr>\<rparr>) (Written (rl_tunnel_fd r) sent)))"

section \<open>The main loop\<close>

text \<open>
  \<open>relay_run\<close> in pieces: the registration of the descriptors, the part of a round before the
  wait (false: leave the loop), the events of the wait, and the end of the round. The clock
  and the events of \<open>evloop_wait\<close> (tag, readable, writable) are arguments; \<open>g_stop\<close> is the
  request of the signal handler.
\<close>

definition relay_start :: "relay \<Rightarrow> relay" where
  "relay_start r =
     (let r = (evloop_set r (rl_tunnel_fd r) True False OWN_TUNNEL)\<lparr>rl_tun := Some (True, False)\<rparr>
      in if ro_public_listen_fd (rl_opt r) \<ge> 0
         then evloop_set r (ro_public_listen_fd (rl_opt r)) True False OWN_LISTEN else r)"

definition relay_settle :: "relay \<Rightarrow> (bool \<times> relay) option" where
  "relay_settle r =
     (case relay_tunnel_flush r of
        (False, r) \<Rightarrow> Some (False, r)
      | (True, r) \<Rightarrow> do { r \<leftarrow> flush_dirty r; Some (True, update_tunnel_interest r) })"

definition relay_before_wait :: "relay \<Rightarrow> u64 \<Rightarrow> bool \<Rightarrow> (bool \<times> relay) option" where
  "relay_before_wait r now g_stop = do {
     r \<leftarrow> relay_handle_events (r\<lparr>rl_mux := snd (mux_on_timer (rl_mux r) now)\<rparr>);
     if g_stop \<or> rl_stop r then Some (False, r) else relay_settle r
   }"

definition wait_timeout :: "u64 \<Rightarrow> u64 \<Rightarrow> int" where
  "wait_timeout deadline now =
     (if deadline \<noteq> - 1 then let d = sint (deadline - now) in if d < 0 then 0 else if d > 1000 then 1000 else d
      else 1000)"

text \<open>One event; false leaves the loop over the events.\<close>

definition relay_dispatch :: "relay \<Rightarrow> udata \<Rightarrow> bool \<Rightarrow> bool \<Rightarrow> bool \<Rightarrow> (bool \<times> relay) option" where
  "relay_dispatch r ud readable writable g_stop =
     (case ud of
        OWN_TUNNEL \<Rightarrow> do {
          (ok, r) \<leftarrow> (if readable then relay_tunnel_read r else Some (True, r));
          if \<not> ok then Some (False, r\<lparr>rl_stop := True\<rparr>)
          else Some (True, if \<not> g_stop \<and> \<not> rl_stop r \<and> writable then snd (relay_tunnel_flush r) else r)
        }
      | OWN_LISTEN \<Rightarrow> do { r \<leftarrow> accept_public r; Some (True, r) }
      | UD_CONN idx \<Rightarrow>
          if idx \<ge> length (rl_conns r) \<or> \<not> rc_used (rl_conns r ! idx) then Some (True, r)
          else do {
            r \<leftarrow> (if writable then on_sock_writable r idx else Some r);
            c \<leftarrow> conn_get r idx;
            r \<leftarrow> (if rc_used c \<and> readable then on_sock_readable r idx else Some r);
            Some (True, r)
          })"

fun relay_dispatch_all :: "relay \<Rightarrow> (udata \<times> bool \<times> bool) list \<Rightarrow> bool \<Rightarrow> relay option" where
  "relay_dispatch_all r [] g_stop = Some r"
| "relay_dispatch_all r ((ud, readable, writable) # evs) g_stop = do {
     (go, r) \<leftarrow> relay_dispatch r ud readable writable g_stop;
     if go then relay_dispatch_all r evs g_stop else Some r
   }"

definition relay_after_wait :: "relay \<Rightarrow> (udata \<times> bool \<times> bool) list \<Rightarrow> bool \<Rightarrow> (bool \<times> relay) option" where
  "relay_after_wait r evs g_stop = do { r \<leftarrow> relay_dispatch_all r evs g_stop; relay_settle r }"

definition relay_end :: "relay \<Rightarrow> relay" where
  "relay_end r = snd (relay_tunnel_flush r)"

end
