(* ===== verification/Mux_Evloop.thy ===== *)
theory Mux_Evloop
  imports Mux_Relay
begin

text \<open>
  The event loop under the daemons, \<^verbatim>\<open>src/common/evloop.c\<close>, with its two backends. The state of
  the kernel object is part of the model: for epoll the interest list, for kqueue the filters,
  with what the manual pages of \<^verbatim>\<open>epoll_ctl\<close> and \<^verbatim>\<open>kevent\<close> say the calls do to them. The locale
  \<open>interest_loop\<close> is what a user of the loop relies on, a map from descriptors to the interest
  registered last; both backends provide it, and so does the map \<open>rl_loop\<close> that stands for the
  loop in the model of the relay.
\<close>

section \<open>epoll\<close>

definition EPOLLIN :: u32 where "EPOLLIN = 1"

definition EPOLLOUT :: u32 where "EPOLLOUT = 4"

definition EPOLLERR :: u32 where "EPOLLERR = 8"

definition EPOLLHUP :: u32 where "EPOLLHUP = 16"

datatype 'u epoll_op = EPOLL_CTL_ADD u32 'u | EPOLL_CTL_MOD u32 'u | EPOLL_CTL_DEL

datatype sys_errno = ENOENT | EEXIST

type_synonym 'u epoll = "int \<Rightarrow> (u32 \<times> 'u) option"

definition epoll_ctl :: "'u epoll_op \<Rightarrow> int \<Rightarrow> 'u epoll \<Rightarrow> sys_errno option \<times> 'u epoll" where
  "epoll_ctl op fd l =
     (case op of
        EPOLL_CTL_ADD e u \<Rightarrow> if l fd = None then (None, l(fd \<mapsto> (e, u))) else (Some EEXIST, l)
      | EPOLL_CTL_MOD e u \<Rightarrow> if l fd = None then (Some ENOENT, l) else (None, l(fd \<mapsto> (e, u)))
      | EPOLL_CTL_DEL \<Rightarrow> if l fd = None then (Some ENOENT, l) else (None, l(fd := None)))"

text \<open>The result is whether the call returned 0.\<close>

definition epoll_set :: "'u epoll \<Rightarrow> int \<Rightarrow> bool \<Rightarrow> bool \<Rightarrow> 'u \<Rightarrow> bool \<times> 'u epoll" where
  "epoll_set l fd want_read want_write udata =
     (let events = (if want_read then EPOLLIN else 0) OR (if want_write then EPOLLOUT else 0)
      in case epoll_ctl (EPOLL_CTL_MOD events udata) fd l of
           (None, l) \<Rightarrow> (True, l)
         | (Some e, l) \<Rightarrow>
             if e = ENOENT then (case epoll_ctl (EPOLL_CTL_ADD events udata) fd l of (r, l) \<Rightarrow> (r = None, l))
             else (False, l))"

definition epoll_del :: "'u epoll \<Rightarrow> int \<Rightarrow> bool \<times> 'u epoll" where
  "epoll_del l fd = (case epoll_ctl EPOLL_CTL_DEL fd l of (r, l) \<Rightarrow> (r = None, l))"

definition epoll_out :: "u32 \<times> 'u \<Rightarrow> 'u \<times> bool \<times> bool" where
  "epoll_out ev = (snd ev, fst ev AND (EPOLLIN OR EPOLLHUP OR EPOLLERR) \<noteq> 0, fst ev AND EPOLLOUT \<noteq> 0)"

definition epoll_wait_out :: "(u32 \<times> 'u) list \<Rightarrow> ('u \<times> bool \<times> bool) list" where
  "epoll_wait_out evs = map epoll_out evs"

section \<open>kqueue\<close>

datatype filt = EVFILT_READ | EVFILT_WRITE

text \<open>\<^verbatim>\<open>EV_ADD\<close> with \<^verbatim>\<open>EV_ENABLE\<close> or \<^verbatim>\<open>EV_DISABLE\<close> and the tag, and \<^verbatim>\<open>EV_DELETE\<close>.\<close>

datatype 'u kaction = EV_ADD bool 'u | EV_DELETE

text \<open>Per descriptor and filter, whether it is enabled, and the tag.\<close>

type_synonym 'u kqueue = "int \<times> filt \<Rightarrow> (bool \<times> 'u) option"

definition kchange :: "int \<times> filt \<Rightarrow> 'u kaction \<Rightarrow> 'u kqueue \<Rightarrow> sys_errno option \<times> 'u kqueue" where
  "kchange k a q =
     (case a of
        EV_ADD enable udata \<Rightarrow> (None, q(k \<mapsto> (enable, udata)))
      | EV_DELETE \<Rightarrow> if q k = None then (Some ENOENT, q) else (None, q(k := None)))"

text \<open>A changelist without room for events: the first error ends the call.\<close>

fun kevent_changes :: "((int \<times> filt) \<times> 'u kaction) list \<Rightarrow> 'u kqueue \<Rightarrow> bool \<times> 'u kqueue" where
  "kevent_changes [] q = (True, q)"
| "kevent_changes ((k, a) # ch) q =
     (case kchange k a q of (None, q) \<Rightarrow> kevent_changes ch q | (Some e, q) \<Rightarrow> (False, q))"

definition kqueue_set :: "'u kqueue \<Rightarrow> int \<Rightarrow> bool \<Rightarrow> bool \<Rightarrow> 'u \<Rightarrow> bool \<times> 'u kqueue" where
  "kqueue_set q fd want_read want_write udata =
     kevent_changes [((fd, EVFILT_READ), EV_ADD want_read udata), ((fd, EVFILT_WRITE), EV_ADD want_write udata)] q"

definition kqueue_del :: "'u kqueue \<Rightarrow> int \<Rightarrow> bool \<times> 'u kqueue" where
  "kqueue_del q fd =
     (True, snd (kevent_changes [((fd, EVFILT_READ), EV_DELETE), ((fd, EVFILT_WRITE), EV_DELETE)] q))"

text \<open>
  The events of a wait, each with its filter, the flag \<^verbatim>\<open>EV_EOF\<close> and its tag, and the loop that
  merges those of one tag.
\<close>

definition kq_merge :: "'u \<times> bool \<times> bool \<Rightarrow> ('u \<times> bool \<times> bool) list \<Rightarrow> ('u \<times> bool \<times> bool) list" where
  "kq_merge e out =
     (case e of (ud, readable, writable) \<Rightarrow>
        if ud \<in> fst ` set out
        then map (\<lambda>(u, r, w). if u = ud then (u, r \<or> readable, w \<or> writable) else (u, r, w)) out
        else out @ [(ud, readable, writable)])"

definition kq_event :: "filt \<times> bool \<times> 'u \<Rightarrow> 'u \<times> bool \<times> bool" where
  "kq_event e = (case e of (f, eof, ud) \<Rightarrow> (ud, f = EVFILT_READ \<or> eof, f = EVFILT_WRITE))"

definition kqueue_wait_out :: "(filt \<times> bool \<times> 'u) list \<Rightarrow> ('u \<times> bool \<times> bool) list" where
  "kqueue_wait_out evs = fold (\<lambda>e. kq_merge (kq_event e)) evs []"

section \<open>The interface\<close>

datatype 'u loop_op = LSet int bool bool 'u | LDel int

fun loop_map :: "'u loop_op \<Rightarrow> (int \<Rightarrow> (bool \<times> bool \<times> 'u) option) \<Rightarrow> (int \<Rightarrow> (bool \<times> bool \<times> 'u) option)" where
  "loop_map (LSet fd r w u) m = m(fd \<mapsto> (r, w, u))"
| "loop_map (LDel fd) m = m(fd := None)"

fun loop_do :: "('l \<Rightarrow> int \<Rightarrow> bool \<Rightarrow> bool \<Rightarrow> 'u \<Rightarrow> 'l) \<Rightarrow> ('l \<Rightarrow> int \<Rightarrow> 'l) \<Rightarrow> 'u loop_op \<Rightarrow> 'l \<Rightarrow> 'l" where
  "loop_do set_in del_in (LSet fd r w u) l = set_in l fd r w u"
| "loop_do set_in del_in (LDel fd) l = del_in l fd"

locale interest_loop =
  fixes inv :: "'l \<Rightarrow> bool" and set_in :: "'l \<Rightarrow> int \<Rightarrow> bool \<Rightarrow> bool \<Rightarrow> 'u \<Rightarrow> 'l" and del_in :: "'l \<Rightarrow> int \<Rightarrow> 'l"
    and watch :: "'l \<Rightarrow> int \<Rightarrow> (bool \<times> bool \<times> 'u) option"
  assumes set_inv: "inv l \<Longrightarrow> inv (set_in l fd r w u)" and del_inv: "inv l \<Longrightarrow> inv (del_in l fd)"
    and watch_set: "inv l \<Longrightarrow> watch (set_in l fd r w u) = (watch l)(fd \<mapsto> (r, w, u))"
    and watch_del: "inv l \<Longrightarrow> watch (del_in l fd) = (watch l)(fd := None)"
begin

lemma op_watch: "inv l \<Longrightarrow> inv (loop_do set_in del_in x l) \<and> watch (loop_do set_in del_in x l) = loop_map x (watch l)"
  by (cases x) (simp_all add: set_inv del_inv watch_set watch_del)

lemma run_watch:
  "inv l \<Longrightarrow> inv (fold (loop_do set_in del_in) xs l) \<and> watch (fold (loop_do set_in del_in) xs l) = fold loop_map xs (watch l)"
  by (induction xs arbitrary: l) (simp_all add: op_watch)

end

section \<open>The backends provide it\<close>

definition epoll_watch :: "'u epoll \<Rightarrow> int \<Rightarrow> (bool \<times> bool \<times> 'u) option" where
  "epoll_watch l fd = map_option (\<lambda>(e, u). (e AND EPOLLIN \<noteq> 0, e AND EPOLLOUT \<noteq> 0, u)) (l fd)"

definition kqueue_watch :: "'u kqueue \<Rightarrow> int \<Rightarrow> (bool \<times> bool \<times> 'u) option" where
  "kqueue_watch q fd =
     (case (q (fd, EVFILT_READ), q (fd, EVFILT_WRITE)) of (Some (r, u), Some (w, _)) \<Rightarrow> Some (r, w, u) | _ \<Rightarrow> None)"

text \<open>The two filters of a descriptor come and go together.\<close>

definition kqueue_paired :: "'u kqueue \<Rightarrow> bool" where
  "kqueue_paired q \<longleftrightarrow> (\<forall>fd. map_option snd (q (fd, EVFILT_READ)) = map_option snd (q (fd, EVFILT_WRITE)))"

lemma epoll_bits:
  "((if r then EPOLLIN else 0) OR (if w then EPOLLOUT else 0)) AND EPOLLIN \<noteq> 0 \<longleftrightarrow> r"
  "((if r then EPOLLIN else 0) OR (if w then EPOLLOUT else 0)) AND EPOLLOUT \<noteq> 0 \<longleftrightarrow> w"
  by (simp_all add: EPOLLIN_def EPOLLOUT_def)

interpretation ep: interest_loop "\<lambda>_. True" "\<lambda>l fd r w u. snd (epoll_set l fd r w u)" "\<lambda>l fd. snd (epoll_del l fd)" epoll_watch
proof unfold_locales
  fix l :: "'u epoll" and fd r w and u :: 'u
  show "epoll_watch (snd (epoll_set l fd r w u)) = (epoll_watch l)(fd \<mapsto> (r, w, u))"
    using epoll_bits [of r w] by (auto simp: epoll_set_def epoll_ctl_def epoll_watch_def Let_def)
  show "epoll_watch (snd (epoll_del l fd)) = (epoll_watch l)(fd := None)"
    by (auto simp: epoll_del_def epoll_ctl_def epoll_watch_def)
qed simp_all

lemma kqueue_set_eq: "snd (kqueue_set q fd r w u) = q((fd, EVFILT_READ) \<mapsto> (r, u), (fd, EVFILT_WRITE) \<mapsto> (w, u))"
  by (simp add: kqueue_set_def kchange_def)

lemma kqueue_del_eq:
  assumes "kqueue_paired q" shows "snd (kqueue_del q fd) = q((fd, EVFILT_READ) := None, (fd, EVFILT_WRITE) := None)"
proof -
  have "q (fd, EVFILT_READ) = None \<longleftrightarrow> q (fd, EVFILT_WRITE) = None"
    using assms unfolding kqueue_paired_def by (metis option.map_disc_iff)
  then show ?thesis by (auto simp: kqueue_del_def kchange_def fun_eq_iff)
qed

interpretation kq: interest_loop kqueue_paired "\<lambda>q fd r w u. snd (kqueue_set q fd r w u)" "\<lambda>q fd. snd (kqueue_del q fd)" kqueue_watch
proof unfold_locales
  fix q :: "'u kqueue" and fd r w and u :: 'u
  assume p: "kqueue_paired q"
  then show "kqueue_paired (snd (kqueue_set q fd r w u))" by (simp add: kqueue_paired_def kqueue_set_eq)
  show "kqueue_watch (snd (kqueue_set q fd r w u)) = (kqueue_watch q)(fd \<mapsto> (r, w, u))"
    by (rule ext) (auto simp: kqueue_watch_def kqueue_set_eq split: option.split)
  show "kqueue_paired (snd (kqueue_del q fd))" using p by (simp add: kqueue_del_eq) (simp add: kqueue_paired_def)
  show "kqueue_watch (snd (kqueue_del q fd)) = (kqueue_watch q)(fd := None)"
    using p by (intro ext) (auto simp: kqueue_watch_def kqueue_del_eq split: option.split)
qed

interpretation rl: interest_loop "\<lambda>_. True" evloop_set evloop_del rl_loop
  by unfold_locales (simp_all add: evloop_set_def evloop_del_def)

section \<open>Properties\<close>


text \<open>The tags of the events, in the order of their first occurrence.\<close>

definition first_tags :: "(filt \<times> bool \<times> 'u) list \<Rightarrow> 'u list" where
  "first_tags evs = rev (remdups (rev (map (snd \<circ> snd) evs)))"

lemma first_tags_snoc:
  "first_tags (evs @ [e]) = (if snd (snd e) \<in> set (first_tags evs) then first_tags evs else first_tags evs @ [snd (snd e)])"
  by (simp add: first_tags_def)

text \<open>
  One report per connection. However many read and write events \<^verbatim>\<open>kevent\<close> returns, the
  kqueue backend hands out each tag once, in the order of its first event: readable if one of
  its events was for reading or carried \<^verbatim>\<open>EV_EOF\<close>, writable if one was for writing. So a
  handler is not called twice for a descriptor in a round, and no event is lost.
\<close>

theorem kqueue_wait_coalesces:
  "kqueue_wait_out evs =
     map (\<lambda>u. (u, \<exists>f eof. (f, eof, u) \<in> set evs \<and> (f = EVFILT_READ \<or> eof), \<exists>eof. (EVFILT_WRITE, eof, u) \<in> set evs)) (first_tags evs) \<and>
   distinct (first_tags evs) \<and> set (first_tags evs) = (snd \<circ> snd) ` set evs"
proof -
  have tags: "distinct (first_tags evs) \<and> set (first_tags evs) = (snd \<circ> snd) ` set evs" for evs :: "(filt \<times> bool \<times> 'a) list"
    by (simp add: first_tags_def)
  have "kqueue_wait_out evs =
     map (\<lambda>u. (u, \<exists>f eof. (f, eof, u) \<in> set evs \<and> (f = EVFILT_READ \<or> eof), \<exists>eof. (EVFILT_WRITE, eof, u) \<in> set evs)) (first_tags evs)"
  proof (induction evs rule: rev_induct)
    case Nil
    then show ?case by (simp add: kqueue_wait_out_def first_tags_def)
  next
    case (snoc e evs)
    obtain f eof u where e: "e = (f, eof, u)" by (cases e)
    have step: "kqueue_wait_out (evs @ [e]) = kq_merge (kq_event e) (kqueue_wait_out evs)" by (simp add: kqueue_wait_out_def)
    have dom: "fst ` set (kqueue_wait_out evs) = set (first_tags evs)" unfolding snoc.IH by (simp add: image_image)
    show ?case
    proof (cases "u \<in> set (first_tags evs)")
      case True
      then show ?thesis unfolding step kq_merge_def dom unfolding first_tags_snoc snoc.IH by (auto simp: e kq_event_def)
    next
      case False
      then have "(g, b, u) \<notin> set evs" for g b using tags [of evs] by force
      with False show ?thesis unfolding step kq_merge_def dom unfolding first_tags_snoc snoc.IH by (auto simp: e kq_event_def)
    qed
  qed
  then show ?thesis using tags [of evs] by blast
qed

end
