(* ===== verification/Mux_Net.thy ===== *)
theory Mux_Net
  imports Mux_Prelude
begin

text \<open>
  Addresses: the parser and the dispatch between TCP and unix sockets of
  \<^verbatim>\<open>src/common/net.c\<close>, and the expansion of port ranges of \<^verbatim>\<open>src/edge-peer/main.c\<close>. A C string is
  the list of its bytes without the terminating zero. Of the C library the functions the code
  calls are here: \<^verbatim>\<open>strrchr\<close>, \<^verbatim>\<open>strstr\<close>, \<^verbatim>\<open>strtol\<close> in base 10 with a 64-bit \<^verbatim>\<open>long\<close>, and the
  conversions \<^verbatim>\<open>%s\<close> and \<^verbatim>\<open>%ld\<close> of \<^verbatim>\<open>snprintf\<close>. Sockets themselves are not modelled; a dial or
  listen call stands for the target it names.
\<close>

section \<open>The C library\<close>

definition lit :: "string \<Rightarrow> bytes" where
  "lit s = map of_char s"

abbreviation colon :: u8 where "colon \<equiv> 58"

fun strrchr :: "bytes \<Rightarrow> u8 \<Rightarrow> nat option" where
  "strrchr [] c = None"
| "strrchr (b # bs) c = (case strrchr bs c of Some i \<Rightarrow> Some (Suc i) | None \<Rightarrow> if b = c then Some 0 else None)"

fun strstr :: "bytes \<Rightarrow> bytes \<Rightarrow> nat option" where
  "strstr [] pat = (if pat = [] then Some 0 else None)"
| "strstr (b # bs) pat = (if take (length pat) (b # bs) = pat then Some 0 else map_option Suc (strstr bs pat))"

definition is_space :: "u8 \<Rightarrow> bool" where
  "is_space b \<longleftrightarrow> b = 32 \<or> 9 \<le> b \<and> b \<le> 13"

definition is_digit :: "u8 \<Rightarrow> bool" where
  "is_digit b \<longleftrightarrow> 48 \<le> b \<and> b \<le> 57"

fun num_prefix :: "nat \<Rightarrow> bytes \<Rightarrow> nat" where
  "num_prefix acc [] = acc"
| "num_prefix acc (b # bs) = (if is_digit b then num_prefix (acc * 10 + unat (b - 48)) bs else acc)"

definition LONG_MAX :: int where "LONG_MAX = 2 ^ 63 - 1"

definition strtol :: "bytes \<Rightarrow> int" where
  "strtol s =
     (case dropWhile is_space s of
        [] \<Rightarrow> 0
      | b # bs \<Rightarrow>
          if b = 45 then max (- LONG_MAX - 1) (- int (num_prefix 0 bs))
          else if b = 43 then min LONG_MAX (int (num_prefix 0 bs))
          else min LONG_MAX (int (num_prefix 0 (b # bs))))"

fun dec :: "nat \<Rightarrow> bytes" where
  "dec n = (if n < 10 then [48 + of_nat n] else dec (n div 10) @ [48 + of_nat (n mod 10)])"

declare dec.simps [simp del]

definition fmt_ld :: "int \<Rightarrow> bytes" where
  "fmt_ld p = (if p < 0 then 45 # dec (nat (- p)) else dec (nat p))"

section \<open>Addresses\<close>

text \<open>\<open>None\<close> is the result -1; the two flags say whether the output pointers are not null.\<close>

definition net_parse_addr :: "bytes option \<Rightarrow> bool \<Rightarrow> nat \<Rightarrow> bool \<Rightarrow> (bytes \<times> u16) option" where
  "net_parse_addr sp host_ok cap port_ok =
     (case sp of
        None \<Rightarrow> None
      | Some s \<Rightarrow>
          if \<not> host_ok \<or> \<not> port_ok \<or> cap = 0 then None
          else case strrchr s colon of
                 None \<Rightarrow> let p = strtol s in if p \<le> 0 \<or> p > 65535 then None else Some ([], of_int p)
               | Some hlen \<Rightarrow>
                   if hlen \<ge> cap then None
                   else let p = strtol (drop (hlen + 1) s)
                        in if p \<le> 0 \<or> p > 65535 then None else Some (take hlen s, of_int p))"

definition net_addr_is_unix :: "bytes option \<Rightarrow> bool" where
  "net_addr_is_unix addr = (case addr of None \<Rightarrow> False | Some a \<Rightarrow> take 5 a = lit ''unix:'' \<or> take 1 a = [47])"

definition unix_path_of :: "bytes \<Rightarrow> bytes" where
  "unix_path_of a = (if take 5 a = lit ''unix:'' then drop 5 a else a)"

text \<open>\<open>sun_len\<close> is the size of \<^verbatim>\<open>sun_path\<close>, 108 on Linux and 104 on macOS.\<close>

definition unix_addr :: "nat \<Rightarrow> bytes \<Rightarrow> bytes option" where
  "unix_addr sun_len path = (if length path \<ge> sun_len then None else Some path)"

datatype target = Unix_Target bytes | Tcp_Target "bytes option" u16

definition net_dial_addr :: "nat \<Rightarrow> bytes option \<Rightarrow> target option" where
  "net_dial_addr sun_len addr =
     (if net_addr_is_unix addr then map_option Unix_Target (unix_addr sun_len (unix_path_of (the addr)))
      else map_option (\<lambda>(host, port). Tcp_Target (Some host) port) (net_parse_addr addr True 256 True))"

definition net_listen_addr :: "nat \<Rightarrow> bytes option \<Rightarrow> target option" where
  "net_listen_addr sun_len addr =
     (if net_addr_is_unix addr then map_option Unix_Target (unix_addr sun_len (unix_path_of (the addr)))
      else map_option (\<lambda>(host, port). Tcp_Target (if host \<noteq> [] then Some host else None) port) (net_parse_addr addr True 256 True))"

section \<open>Port ranges\<close>

definition snprintf :: "nat \<Rightarrow> bytes \<Rightarrow> bytes" where
  "snprintf n s = take (n - 1) s"

text \<open>
  The loop over the ports. A failed \<^verbatim>\<open>strdup\<close> stores a null pointer. \<open>None\<close> is the overflow
  of the counter after the port \<^verbatim>\<open>LONG_MAX\<close>.
\<close>

function edge_ports :: "bytes option list \<Rightarrow> nat \<Rightarrow> bytes \<Rightarrow> int \<Rightarrow> int \<Rightarrow> heap \<Rightarrow> (bytes option list \<times> heap) option" where
  "edge_ports edges cap host p upto_p h =
     (if p \<le> upto_p \<and> length edges < cap then
        let buf = snprintf 300 (host @ [colon] @ fmt_ld p)
        in case alloc h of
             (ok, h) \<Rightarrow>
               if p = LONG_MAX then None
               else edge_ports (edges @ [if ok then Some buf else None]) cap host (p + 1) upto_p h
      else Some (edges, h))"
  by pat_completeness auto
termination
  by (relation "measure (\<lambda>(edges, cap, host, p, upto_p, h). cap - length edges)") auto

declare edge_ports.simps [simp del]

definition add_edge :: "bytes option list \<Rightarrow> nat \<Rightarrow> bytes \<Rightarrow> heap \<Rightarrow> (bytes option list \<times> heap) option" where
  "add_edge edges cap arg h =
     (let plain = Some (if length edges < cap then edges @ [Some arg] else edges, h)
      in case strrchr arg colon of
           None \<Rightarrow> plain
         | Some c \<Rightarrow>
             (case strstr (drop c arg) (lit ''..'') of
                None \<Rightarrow> plain
              | Some d \<Rightarrow>
                  let hlen = (if c \<ge> 256 then 255 else c)
                  in edge_ports edges cap (take hlen arg) (strtol (drop (c + 1) arg)) (strtol (drop (c + d + 2) arg)) h))"

section \<open>Lemmas\<close>

lemma strrchr_last: "c \<notin> set t \<Longrightarrow> strrchr (h @ c # t) c = Some (length h)"
proof (induction h)
  case Nil
  have "strrchr t c = None" if "c \<notin> set t" for t using that by (induction t) auto
  then show ?case using Nil by simp
qed simp

lemma strrchr_le: "strrchr s c = Some i \<Longrightarrow> i < length s"
  by (induction s arbitrary: i) (auto split: option.splits if_splits)

lemma strstr_first: "p \<notin> set xs \<Longrightarrow> strstr (xs @ (p # ps) @ ys) (p # ps) = Some (length xs)"
proof (induction xs)
  case Nil
  then show ?case by (cases "(p # ps) @ ys") auto
qed auto

lemma digit_u8: "d < 10 \<Longrightarrow> is_digit (48 + of_nat d) \<and> unat (48 + of_nat d - 48 :: u8) = d"
proof -
  assume d: "d < 10"
  then have "d \<in> set [0..<10]" by simp
  moreover have "\<forall>d \<in> set [0..<10]. is_digit (48 + of_nat d) \<and> unat (48 + of_nat d - 48 :: u8) = d" by code_simp
  ultimately show ?thesis by blast
qed

lemma dec_digits: "\<forall>b \<in> set (dec n). is_digit b"
proof (induction n rule: dec.induct)
  case (1 n)
  then show ?case using digit_u8 [of n] digit_u8 [of "n mod 10"] by (subst dec.simps) auto
qed

lemma dec_not_Nil: "dec n \<noteq> []"
  by (subst dec.simps) simp

lemma num_prefix_append: "\<forall>b \<in> set ds. is_digit b \<Longrightarrow> num_prefix acc (ds @ t) = num_prefix (num_prefix acc ds) t"
  by (induction ds arbitrary: acc) auto

lemma num_prefix_dec: "num_prefix 0 (dec n) = n"
proof (induction n rule: dec.induct)
  case (1 n)
  show ?case
  proof (cases "n < 10")
    case True
    then show ?thesis using digit_u8 [of n] by (subst dec.simps) simp
  next
    case False
    then show ?thesis
      using 1 [OF False] digit_u8 [of "n mod 10"] num_prefix_append [OF dec_digits, of 0 "n div 10"] by (subst dec.simps) simp
  qed
qed

lemma strtol_dec:
  assumes n: "int n \<le> LONG_MAX" and t: "t = [] \<or> \<not> is_digit (hd t)"
  shows "strtol (dec n @ t) = int n"
proof -
  obtain b bs where b: "dec n = b # bs" using dec_not_Nil by (cases "dec n") auto
  have "is_digit b" using dec_digits [of n] b by simp
  then have g: "\<not> is_space b" "b \<noteq> 45" "b \<noteq> 43"
    by (auto simp: is_digit_def is_space_def word_le_nat_alt)
  have "num_prefix n t = n" using t by (cases t) auto
  then have "num_prefix 0 (dec n @ t) = n" using num_prefix_append [OF dec_digits, of 0 n t] num_prefix_dec [of n] by simp
  then show ?thesis using g n unfolding strtol_def b by simp
qed

lemma dec_no_colon: "colon \<notin> set (dec n)" "46 \<notin> set (dec n)"
  using dec_digits [of n] by (auto simp: is_digit_def)

lemma parse_host_port:
  assumes "length host < cap" "1 \<le> p" "p \<le> 65535"
  shows "net_parse_addr (Some (host @ [colon] @ dec p)) True cap True = Some (host, of_nat p)"
proof -
  have "strtol (dec p) = int p" using strtol_dec [of p "[]"] assms(3) by (simp add: LONG_MAX_def)
  moreover have "strrchr (host @ [colon] @ dec p) colon = Some (length host)" using strrchr_last dec_no_colon(1) by simp
  ultimately show ?thesis using assms by (simp add: net_parse_addr_def)
qed

lemma length_dec: "n < 10 ^ k \<Longrightarrow> 0 < k \<Longrightarrow> length (dec n) \<le> k"
proof (induction n arbitrary: k rule: dec.induct)
  case (1 n)
  show ?case
  proof (cases "n < 10")
    case True
    then show ?thesis using 1 by (subst dec.simps) simp
  next
    case False
    then obtain j where j: "k = Suc j" "0 < j" using 1(2,3) by (cases k; cases "k - 1") auto
    then have "n div 10 < 10 ^ j" using 1(2) by (simp add: less_mult_imp_div_less mult.commute)
    then show ?thesis using 1(1) [OF False _ j(2)] j(1) False by (subst dec.simps) simp
  qed
qed

lemma edge_ports_all:
  assumes "length host \<le> 255" "k + a \<le> 65536" "length edges + k \<le> cap"
  shows "edge_ports edges cap host (int a) (int a + int k - 1) [] = Some (edges @ map (\<lambda>p. Some (host @ [colon] @ dec p)) [a..<a + k], [])"
  using assms
proof (induction k arbitrary: a edges)
  case 0
  then show ?case by (subst edge_ports.simps) simp
next
  case (Suc k)
  have "length (dec a) \<le> 5" using Suc.prems(2) by (intro length_dec) simp_all
  then have buf: "snprintf 300 (host @ [colon] @ fmt_ld (int a)) = host @ [colon] @ dec a"
    using Suc.prems(1) by (simp add: snprintf_def fmt_ld_def)
  have "int a \<noteq> LONG_MAX" using Suc.prems(2) by (simp add: LONG_MAX_def)
  then have "edge_ports edges cap host (int a) (int a + int (Suc k) - 1) [] =
      edge_ports (edges @ [Some (host @ [colon] @ dec a)]) cap host (int (Suc a)) (int (Suc a) + int k - 1) []"
    using Suc.prems(3) buf by (subst edge_ports.simps) (simp add: Let_def add.commute)
  then show ?case using Suc.IH [of "Suc a" "edges @ [Some (host @ [colon] @ dec a)]"] Suc.prems by (simp add: upt_conv_Cons del: upt_Suc)
qed

lemma edge_ports_le:
  "edge_ports edges cap host p q h = Some (edges', h') \<Longrightarrow> length edges \<le> cap \<Longrightarrow> length edges' \<le> cap"
proof (induction edges cap host p q h rule: edge_ports.induct)
  case (1 edges cap host p q h)
  show ?case
    using "1.IH" "1.prems" by (subst (asm) edge_ports.simps) (auto simp: Let_def split: if_splits prod.splits)
qed

lemma add_edge_le: "add_edge edges cap arg h = Some (edges', h') \<Longrightarrow> length edges \<le> cap \<Longrightarrow> length edges' \<le> cap"
  using edge_ports_le [of edges cap] by (auto simp: add_edge_def Let_def split: option.splits if_splits)

section \<open>Properties\<close>



text \<open>
  C37. A port range names its ports. \<open>add_edge\<close> given \<^verbatim>\<open>host:a..b\<close> adds one uplink address per port
  from \<open>a\<close> to \<open>b\<close>, in order, none cut short, each of which \<open>net_parse_addr\<close> reads as the host
  and that port; and it never fills the array beyond its capacity, whatever the argument.
\<close>

theorem edge_range_expands:
  assumes "length host < 256" "1 \<le> a" "a \<le> b" "b \<le> 65535" "length edges + (b + 1 - a) \<le> cap"
  shows "(\<exists>es. add_edge edges cap (host @ [colon] @ dec a @ lit ''..'' @ dec b) [] = Some (edges @ map Some es, []) \<and>
      map (\<lambda>e. net_parse_addr (Some e) True 256 True) es = map (\<lambda>p. Some (host, of_nat p)) [a..<Suc b]) \<and>
    (add_edge edges cap arg h = Some (edges', h') \<longrightarrow> length edges' \<le> cap)"
proof -
  let ?t = "dec a @ lit ''..'' @ dec b"
  have dots: "lit ''..'' = [46, 46]" by (simp add: lit_def)
  have c: "strrchr (host @ [colon] @ ?t) colon = Some (length host)"
    using strrchr_last [of colon ?t host] dec_no_colon(1) by (simp add: dots)
  have d: "strstr (colon # ?t) (lit ''..'') = Some (Suc (length (dec a)))"
    using strstr_first [of 46 "colon # dec a" "[46]" "dec b"] dec_no_colon(2) by (simp add: dots)
  have n: "strtol ?t = int a" "strtol (dec b) = int b"
    using strtol_dec [of a "lit ''..'' @ dec b"] strtol_dec [of b "[]"] assms(3,4) by (simp_all add: dots is_digit_def LONG_MAX_def)
  have rest: "drop (3 + length (dec a)) (colon # dec a @ 46 # 46 # dec b) = dec b" by (simp add: numeral_3_eq_3)
  have "add_edge edges cap (host @ [colon] @ ?t) [] = edge_ports edges cap host (int a) (int a + int (Suc b - a) - 1) []"
    using c d n rest assms(1,3) by (simp add: add_edge_def Let_def dots)
  also have "\<dots> = Some (edges @ map Some (map (\<lambda>p. host @ [colon] @ dec p) [a..<Suc b]), [])"
    using edge_ports_all [of host "Suc b - a" a edges cap] assms by (simp add: comp_def)
  finally have "add_edge edges cap (host @ [colon] @ ?t) [] = Some (edges @ map Some (map (\<lambda>p. host @ [colon] @ dec p) [a..<Suc b]), [])" .
  moreover have "map (\<lambda>e. net_parse_addr (Some e) True 256 True) (map (\<lambda>p. host @ [colon] @ dec p) [a..<Suc b]) =
      map (\<lambda>p. Some (host, of_nat p)) [a..<Suc b]"
    using parse_host_port [of host 256] assms by simp
  moreover have "add_edge edges cap arg h = Some (edges', h') \<longrightarrow> length edges' \<le> cap"
    using assms(5) add_edge_le [of edges cap] by auto
  ultimately show ?thesis by blast
qed

theorem edge_range_expands_witness:
  "\<exists>es. add_edge [] 256 (lit ''h'' @ [colon] @ dec 5001 @ lit ''..'' @ dec 5004) [] = Some (map Some es, []) \<and> length es = 4"
proof -
  have "length (lit ''h'') < 256" "(1::nat) \<le> 5001" "(5001::nat) \<le> 5004" "(5004::nat) \<le> 65535"
    "length ([] :: bytes option list) + (5004 + 1 - 5001) \<le> 256" by (simp_all add: lit_def)
  from edge_range_expands [OF this, of "[]" "[]" "[]" "[]"] obtain es where
    "add_edge [] 256 (lit ''h'' @ [colon] @ dec 5001 @ lit ''..'' @ dec 5004) [] = Some ([] @ map Some es, [])"
    "map (\<lambda>e. net_parse_addr (Some e) True 256 True) es = map (\<lambda>p. Some (lit ''h'', of_nat p)) [5001..<Suc 5004]" by blast
  moreover from this(2) have "length es = length [5001..<Suc 5004]" by (metis length_map)
  ultimately show ?thesis by auto
qed

end
