(* ===== verification/Mux_Relay_Map.thy ===== *)
theory Mux_Relay_Map
  imports Mux_Relay
begin

text \<open>
  The map of the relay from stream ids to slots of the slab. A cell holds a slot, and the key
  of the cell is the id of the connection in that slot, so the map is read together with the
  slab. It provides the locale \<open>reinserting\<close>; the lemmas say what the four operations do to
  the set of slots entered, and that their probe loops end.
\<close>

unbundle bit_operations_syntax

definition sid_key :: "conn list \<Rightarrow> nat \<Rightarrow> u32 option" where
  "sid_key cs v = (if v = 0 then None else Some (rc_sid (cs ! (v - 1))))"

lemma sid_key_simps [simp]: "sid_key cs 0 = None" "sid_key cs v = None \<longleftrightarrow> v = 0" "sid_key cs (Suc i) = Some (rc_sid (cs ! i))"
  by (simp_all add: sid_key_def)

interpretation sm: reinserting "\<lambda>v :: nat. v = 0" "sid_key cs" home_of "\<lambda>_. 0" for cs
  by unfold_locales simp_all

definition sidmap_inv :: "conn list \<Rightarrow> nat list \<Rightarrow> bool" where
  "sidmap_inv cs m \<longleftrightarrow> sm.pinv cs m \<and> (m = [] \<or> (\<exists>k \<ge> 6. length m = 2 ^ k)) \<and>
     (m = [] \<or> cnt (\<lambda>v. v \<noteq> 0) m < length m) \<and> (\<forall>v \<in> set m. v \<le> length cs)"

text \<open>The slots entered.\<close>

definition slots :: "nat list \<Rightarrow> nat set" where
  "slots m = {i. Suc i \<in> set m}"

lemma slots_Nil [simp]: "slots [] = {}"
  by (simp add: slots_def)

lemma slots_replicate [simp]: "slots (replicate n 0) = {}"
  by (auto simp: slots_def)

lemma sidmap_inv_Nil [simp]: "sidmap_inv cs []"
  by (simp add: sidmap_inv_def probe_inv_def)

lemma sid_view:
  assumes "sm.pinv cs m"
  shows "table_view (sid_key cs) m sid = Some v \<longleftrightarrow> (\<exists>i \<in> slots m. v = Suc i \<and> rc_sid (cs ! i) = sid)"
proof -
  have u: "\<forall>i < length m. \<forall>j < length m. \<forall>k. sid_key cs (m ! i) = Some k \<longrightarrow> sid_key cs (m ! j) = Some k \<longrightarrow> i = j"
    using sm.pinv_unique [OF assms] by blast
  show ?thesis unfolding sm.view_keyed [OF u] by (cases v) (auto simp: slots_def)
qed

lemma sid_view_None:
  assumes "sm.pinv cs m"
  shows "table_view (sid_key cs) m sid = None \<longleftrightarrow> (\<forall>i \<in> slots m. rc_sid (cs ! i) \<noteq> sid)"
  using sid_view [OF assms, of sid] by (metis not_None_eq)

lemma slots_eq_view:
  assumes "sm.pinv cs m" "sm.pinv cs m'" "table_view (sid_key cs) m' = table_view (sid_key cs) m" shows "slots m' = slots m"
proof -
  have "i \<in> slots m' \<longleftrightarrow> i \<in> slots m" for i
    using sid_view [OF assms(1), of "rc_sid (cs ! i)" "Suc i"] sid_view [OF assms(2), of "rc_sid (cs ! i)" "Suc i"] assms(3) by auto
  then show ?thesis by blast
qed

lemma slots_upd:
  assumes "j < length m" "m ! j = 0" shows "slots (m[j := Suc i]) = insert i (slots m)"
proof -
  have "Suc x \<in> set (m[j := Suc i]) \<longleftrightarrow> Suc x = Suc i \<or> Suc x \<in> set m" for x
  proof
    assume "Suc x = Suc i \<or> Suc x \<in> set m"
    then show "Suc x \<in> set (m[j := Suc i])"
    proof
      assume "Suc x = Suc i" then show ?thesis using set_update_memI [OF assms(1), of "Suc i"] by simp
    next
      assume "Suc x \<in> set m"
      then obtain y where y: "y < length m" "m ! y = Suc x" by (auto simp: in_set_conv_nth)
      then have "y \<noteq> j" using assms(2) by auto
      then have "m[j := Suc i] ! y = Suc x" using y by simp
      then show ?thesis using y(1) nth_mem [of y "m[j := Suc i]"] by simp
    qed
  qed (use set_update_subset_insert [of m j "Suc i"] in auto)
  then show ?thesis by (auto simp: slots_def)
qed

text \<open>The cells in use are counted by the slots.\<close>

lemma cnt_slots:
  assumes "sm.pinv cs m" shows "cnt (\<lambda>v. v \<noteq> 0) m = card (slots m)"
proof -
  let ?f = "filter (\<lambda>v. v \<noteq> 0) m"
  have "distinct (map (sid_key cs) (filter (\<lambda>v. sid_key cs v \<noteq> None) m))" by (rule sm.pinv_distinct_keys [OF assms])
  then have "distinct ?f" by (simp add: distinct_map)
  then have "cnt (\<lambda>v. v \<noteq> 0) m = card (set ?f)" by (rule distinct_card [symmetric])
  also have "set ?f = Suc ` slots m"
  proof -
    have "x \<in> Suc ` slots m" if "x \<in> set m" "x \<noteq> 0" for x
      using that by (intro image_eqI [of _ _ "x - 1"]) (simp_all add: slots_def)
    then show ?thesis by (auto simp: slots_def)
  qed
  finally show ?thesis by (simp add: card_image)
qed

text \<open>Only the ids of the slots entered matter.\<close>

lemma probe_inv_cong:
  assumes "\<And>e. e \<in> set t \<Longrightarrow> key' e = key e" shows "probe_inv emp key' home t = probe_inv emp key home t"
proof -
  have "key' (t ! i) = key (t ! i)" if "i < length t" for i using assms that by simp
  then show ?thesis unfolding probe_inv_def by auto
qed

lemma sidmap_inv_cong:
  assumes "\<And>i. i \<in> slots m \<Longrightarrow> rc_sid (cs' ! i) = rc_sid (cs ! i)" "length cs \<le> length cs'" "sidmap_inv cs m"
  shows "sidmap_inv cs' m"
proof -
  have "sid_key cs' v = sid_key cs v" if "v \<in> set m" for v
  proof (cases v)
    case (Suc i)
    then have "i \<in> slots m" using that by (simp add: slots_def)
    then show ?thesis using assms(1) Suc by simp
  qed simp
  then have "sm.pinv cs' m = sm.pinv cs m" by (rule probe_inv_cong)
  then show ?thesis using assms(2,3) by (force simp: sidmap_inv_def)
qed

lemma slots_bound: "sidmap_inv cs m \<Longrightarrow> i \<in> slots m \<Longrightarrow> i < length cs"
  by (auto simp: sidmap_inv_def slots_def)

section \<open>The loops are probe scans\<close>

lemma sid_mix_mod: "n = 2 ^ k \<Longrightarrow> sid_mix sid (n - Suc 0) = home_of sid mod n"
  using umix_mod [of n k sid] by (simp add: sid_mix_def umix_def)

lemma sid_free_slot_scan: "length m = 2 ^ k \<Longrightarrow> sid_free_slot m j fuel = scan (\<lambda>v. v = 0) m j fuel"
  by (induction fuel arbitrary: j) (auto simp: and_mask_mod)

lemma next_cell: "length m = 2 ^ k \<Longrightarrow> (i + 1) AND (length m - 1) = (i + 1) mod length m \<and> (i + 1) mod length m < length m"
  using and_mask_mod [of "length m" k "i + 1"] by simp

lemma sidmap_probe_scan:
  assumes "length m = 2 ^ n" "\<forall>v \<in> set m. v \<le> length cs" "\<forall>i \<in> slots m. rc_used (cs ! i)"
    "scan (\<lambda>v. v = 0 \<or> sid_key cs v = Some sid) m i p = Some j" "i < length m"
  shows "sidmap_probe cs m sid i p = Some (if m ! j = 0 then None else Some (m ! j - 1))"
  using assms(4,5)
proof (induction p arbitrary: i)
  case (Suc p)
  have v: "m ! i \<le> length cs" "m ! i \<noteq> 0 \<Longrightarrow> m ! i - 1 \<in> slots m" using assms(2) Suc.prems(2) by (auto simp: slots_def)
  show ?case
    using Suc.IH [of "(i + 1) mod length m"] Suc.prems v assms(3) next_cell [OF assms(1), of i]
    by (cases "m ! i") (auto simp: Let_def split: if_splits)
qed simp

lemma sidmap_find_scan:
  assumes "length m = 2 ^ n" "\<forall>v \<in> set m. v \<le> length cs"
    "scan (\<lambda>v. v = 0 \<or> sid_key cs v = Some sid) m i p = Some j" "i < length m"
  shows "sidmap_find cs m sid i p = Some (if m ! j = 0 then Miss j else Hit j)"
  using assms(3,4)
proof (induction p arbitrary: i)
  case (Suc p)
  have v: "m ! i \<le> length cs" using assms(2) Suc.prems(2) by auto
  show ?case
    using Suc.IH [of "(i + 1) mod length m"] Suc.prems v next_cell [OF assms(1), of i]
    by (cases "m ! i") (auto simp: Let_def split: if_splits)
qed simp

lemma sid_scan:
  assumes inv: "sidmap_inv cs m" and ne: "m \<noteq> []"
  obtains n j where "length m = 2 ^ n" "6 \<le> n" "j < length m"
    "scan (\<lambda>v. v = 0 \<or> sid_key cs v = Some sid) m (sid_mix sid (length m - 1)) (length m) = Some j"
    "m ! j = 0 \<longleftrightarrow> (\<forall>i \<in> slots m. rc_sid (cs ! i) \<noteq> sid)"
    "m ! j \<noteq> 0 \<longrightarrow> rc_sid (cs ! (m ! j - 1)) = sid \<and> m ! j - 1 \<in> slots m"
    "sid_mix sid (length m - 1) < length m"
proof -
  obtain n where n: "length m = 2 ^ n" "6 \<le> n" using inv ne by (auto simp: sidmap_inv_def)
  have p: "sm.pinv cs m" using inv by (simp add: sidmap_inv_def)
  obtain x where "x < length m" "m ! x = 0" using cnt_less [of "\<lambda>v. v \<noteq> 0" m] inv ne by (auto simp: sidmap_inv_def)
  then obtain j where j: "scan (\<lambda>v. v = 0 \<or> sid_key cs v = Some sid) m (home_of sid mod length m) (length m) = Some j"
    using scan_round [of x m "\<lambda>v. v = 0 \<or> sid_key cs v = Some sid" "home_of sid"] by blast
  have pos: "0 < length m" using ne by simp
  have c: "j < length m \<and> (if m ! j = 0 then table_view (sid_key cs) m sid = None
      else sid_key cs (m ! j) = Some sid \<and> table_view (sid_key cs) m sid = Some (m ! j))"
    using sm.lookup_cases [OF p pos, of sid] j by (simp split: if_splits)
  have "m ! j = 0 \<longleftrightarrow> table_view (sid_key cs) m sid = None" using c by (auto split: if_splits)
  moreover have "rc_sid (cs ! (m ! j - 1)) = sid \<and> m ! j - 1 \<in> slots m" if "m ! j \<noteq> 0"
    using that c nth_mem [of j m] by (cases "m ! j") (auto simp: slots_def)
  ultimately show thesis
    using that [OF n, of j] c j sid_mix_mod [OF n(1), of sid] pos unfolding sid_view_None [OF p] by simp
qed

section \<open>Lookup\<close>

definition sid_lookup :: "conn list \<Rightarrow> nat list \<Rightarrow> u32 \<Rightarrow> nat option" where
  "sid_lookup cs m sid = map_option (\<lambda>v. v - 1) (table_view (sid_key cs) m sid)"

lemma sid_lookup_iff:
  assumes "sidmap_inv cs m"
  shows "sid_lookup cs m sid = Some i \<longleftrightarrow> i \<in> slots m \<and> rc_sid (cs ! i) = sid"
    "sid_lookup cs m sid = None \<longleftrightarrow> (\<forall>i \<in> slots m. rc_sid (cs ! i) \<noteq> sid)"
  using sid_view [of cs m sid] sid_view_None [of cs m sid] assms by (auto simp: sid_lookup_def sidmap_inv_def)

lemma slots_inj:
  assumes "sidmap_inv cs m" "i \<in> slots m" "j \<in> slots m" "rc_sid (cs ! i) = rc_sid (cs ! j)" shows "i = j"
  using sid_lookup_iff(1) [OF assms(1), of "rc_sid (cs ! j)"] assms by (metis option.inject)

lemma sidmap_get_spec:
  assumes inv: "sidmap_inv (rl_conns r) (rl_sidmap r)" and used: "\<forall>i \<in> slots (rl_sidmap r). rc_used (rl_conns r ! i)"
  shows "sidmap_get r sid = Some (sid_lookup (rl_conns r) (rl_sidmap r) sid)"
proof (cases "rl_sidmap r = []")
  case False
  let ?m = "rl_sidmap r" and ?cs = "rl_conns r"
  obtain n j where s: "length ?m = 2 ^ n" "scan (\<lambda>v. v = 0 \<or> sid_key ?cs v = Some sid) ?m (sid_mix sid (length ?m - 1)) (length ?m) = Some j"
    "?m ! j = 0 \<longleftrightarrow> (\<forall>i \<in> slots ?m. rc_sid (?cs ! i) \<noteq> sid)"
    "?m ! j \<noteq> 0 \<longrightarrow> rc_sid (?cs ! (?m ! j - 1)) = sid \<and> ?m ! j - 1 \<in> slots ?m" "sid_mix sid (length ?m - 1) < length ?m"
    by (rule sid_scan [OF inv False, of sid])
  have "sidmap_get r sid = Some (if ?m ! j = 0 then None else Some (?m ! j - 1))"
    using sidmap_probe_scan [OF s(1) _ used s(2,5)] inv False by (simp add: sidmap_get_def sidmap_inv_def Let_def)
  also have "(if ?m ! j = 0 then None else Some (?m ! j - 1)) = sid_lookup ?cs ?m sid"
    using s(3,4) sid_lookup_iff(1) [OF inv, of sid "?m ! j - 1"] sid_lookup_iff(2) [OF inv, of sid] by (cases "?m ! j = 0") auto
  finally show ?thesis .
qed (simp add: sidmap_get_def sid_lookup_def table_view_def)

section \<open>Insertion\<close>

lemma sidmap_rehash_place:
  assumes "length nm = 2 ^ k" "cnt (\<lambda>v. v \<noteq> 0) nm + cnt (\<lambda>v. v \<noteq> 0) vs \<le> length nm" "\<forall>v \<in> set vs. v \<le> length cs"
  shows "sidmap_rehash cs nm vs = Some (foldl (sm.place cs) nm (filter (\<lambda>v. v \<noteq> 0) vs))"
  using assms
proof (induction vs arbitrary: nm)
  case (Cons v vs)
  show ?case
  proof (cases "v = 0")
    case False
    let ?h = "home_of (rc_sid (cs ! (v - 1)))"
    have "cnt (\<lambda>v. v \<noteq> 0) nm < length nm" using Cons.prems(2) False by simp
    then obtain x where x: "x < length nm" "nm ! x = 0" using cnt_less [of "\<lambda>v. v \<noteq> 0" nm] by auto
    then obtain j where j: "scan (\<lambda>v. v = 0) nm (?h mod length nm) (length nm) = Some j"
      using scan_round [of x nm "\<lambda>v. v = 0" ?h] by blast
    have "0 < length nm" using x by linarith
    then have jl: "j < length nm" "nm ! j = 0" using scan_index [OF j] by auto
    have pl: "sm.place cs nm v = nm[j := v]" using j False by (simp add: probe_place_def sid_key_def)
    have "cnt (\<lambda>v. v \<noteq> 0) (nm[j := v]) = Suc (cnt (\<lambda>v. v \<noteq> 0) nm)"
      using cnt_update [OF jl(1), of "\<lambda>v. v \<noteq> 0" v] jl(2) False by simp
    then have "sidmap_rehash cs (nm[j := v]) vs = Some (foldl (sm.place cs) (nm[j := v]) (filter (\<lambda>v. v \<noteq> 0) vs))"
      using Cons False by (intro Cons.IH) auto
    moreover have "sid_free_slot nm (sid_mix (rc_sid (cs ! (v - 1))) (length nm - 1)) (length nm) = Some j"
      using j sid_free_slot_scan [OF Cons.prems(1)] sid_mix_mod [OF Cons.prems(1)] by simp
    ultimately show ?thesis using False Cons.prems(3) pl by simp
  qed (use Cons in auto)
qed simp

lemma sidmap_rehash_spec:
  assumes inv: "sidmap_inv cs m" and k: "nc = 2 ^ k" "6 \<le> k" and room: "length m \<le> nc" "m \<noteq> [] \<Longrightarrow> length m < nc"
  shows "\<exists>nm. sidmap_rehash cs (replicate nc 0) m = Some nm \<and> sidmap_inv cs nm \<and> slots nm = slots m \<and> length nm = nc"
proof -
  let ?z = "replicate nc (0 :: nat)" and ?es = "filter (\<lambda>v. v \<noteq> 0) m"
  have p: "sm.pinv cs m" and b: "\<forall>v \<in> set m. v \<le> length cs" using inv by (simp_all add: sidmap_inv_def)
  have c0: "cnt (\<lambda>v. v \<noteq> 0) ?z = 0" by simp
  have cm: "cnt (\<lambda>v. v \<noteq> 0) m \<le> length m" by (rule length_filter_le)
  have re: "sidmap_rehash cs ?z m = Some (foldl (sm.place cs) ?z ?es)"
    using sidmap_rehash_place [of ?z k m cs] k(1) c0 le_trans [OF cm room(1)] b by simp
  have pz: "sm.pinv cs ?z" by (rule sm.pinv_replicate) simp
  have vz: "\<forall>e \<in> set ?es. sid_key cs e \<noteq> None \<and> table_view (sid_key cs) ?z (the (sid_key cs e)) = None"
    using sm.view_replicate [where cs = cs and z = 0 and n = nc] by auto
  have dz: "distinct (map (sid_key cs) ?es)" using sm.pinv_distinct_keys [OF p] by simp
  have "cnt (\<lambda>v. \<not> v = 0) ?z + length ?es \<le> length ?z" using le_trans [OF cm room(1)] by simp
  from sm.rehash_spec [OF pz this vz dz] obtain nm where nm: "foldl (sm.place cs) ?z ?es = nm" "sm.pinv cs nm" "length nm = nc"
    "\<forall>k. table_view (sid_key cs) nm k = (case table_view (sid_key cs) ?z k of Some e \<Rightarrow> Some e | None \<Rightarrow> table_view (sid_key cs) ?es k)"
    "\<forall>P. (\<forall>e. e = 0 \<longrightarrow> \<not> P e) \<longrightarrow> cnt P nm = cnt P ?z + cnt P ?es" "set nm \<subseteq> set ?z \<union> set ?es"
    by auto
  have "table_view (sid_key cs) nm = table_view (sid_key cs) m"
  proof (rule ext)
    fix x
    have "table_view (sid_key cs) ?z x = None" by (rule sm.view_replicate) simp
    moreover have "table_view (sid_key cs) ?es x = table_view (sid_key cs) m x"
      by (rule table_view_filter) (simp add: sid_key_def split: if_splits)
    ultimately show "table_view (sid_key cs) nm x = table_view (sid_key cs) m x" using nm(4) by simp
  qed
  then have sl: "slots nm = slots m" by (rule slots_eq_view [OF p nm(2)])
  have "cnt (\<lambda>v. v \<noteq> 0) nm = cnt (\<lambda>v. v \<noteq> 0) m" using cnt_slots [OF nm(2)] cnt_slots [OF p] sl by simp
  moreover have "\<forall>v \<in> set nm. v \<le> length cs" using nm(6) b by fastforce
  moreover have "cnt (\<lambda>v. v \<noteq> 0) m < nc" using inv room k by (cases "m = []") (auto simp: sidmap_inv_def)
  ultimately have "sidmap_inv cs nm" using nm(2,3) k by (auto simp: sidmap_inv_def)
  then show ?thesis using re nm(1,3) sl by auto
qed

lemma sidmap_store_spec:
  assumes inv: "sidmap_inv cs m" and ne: "m \<noteq> []" and room: "Suc (card (slots m)) < length m" and idx: "idx < length cs" "idx \<notin> slots m"
    and fresh: "\<forall>i \<in> slots m. rc_sid (cs ! i) \<noteq> rc_sid (cs ! idx)"
  shows "\<exists>i. sid_free_slot m (sid_mix (rc_sid (cs ! idx)) (length m - 1)) (length m) = Some i \<and>
    sidmap_inv cs (m[i := Suc idx]) \<and> slots (m[i := Suc idx]) = insert idx (slots m)"
proof -
  let ?k = "rc_sid (cs ! idx)"
  obtain n where n: "length m = 2 ^ n" "6 \<le> n" using inv ne by (auto simp: sidmap_inv_def)
  have p: "sm.pinv cs m" and c: "cnt (\<lambda>v. \<not> v = 0) m < length m" using inv ne by (auto simp: sidmap_inv_def)
  have v: "table_view (sid_key cs) m ?k = None" using sid_view_None [OF p] fresh by blast
  have e: "sid_key cs (Suc idx) = Some ?k" by simp
  from sm.place_spec [OF p c e v] obtain j where j: "j < length m" "m ! j = 0" "sm.place cs m (Suc idx) = m[j := Suc idx]"
    "sm.pinv cs (m[j := Suc idx])" by auto
  obtain i where i: "scan (\<lambda>v. v = 0) m (home_of ?k mod length m) (length m) = Some i"
    using scan_round [OF j(1), of "\<lambda>v. v = 0" "home_of ?k"] j(2) by blast
  have "i < length m \<and> m ! i = 0" using scan_index [OF i] ne by simp
  moreover have "m[i := Suc idx] = m[j := Suc idx]" using j(3) i by (simp add: probe_place_def)
  ultimately have ij: "i < length m" "m ! i = 0" "sm.pinv cs (m[i := Suc idx])" using j(4) by auto
  have sl: "slots (m[i := Suc idx]) = insert idx (slots m)" by (rule slots_upd [OF ij(1,2)])
  have "card (insert idx (slots m)) \<le> Suc (card (slots m))" by (simp add: card_insert_le_m1 card_insert_if)
  then have "cnt (\<lambda>v. v \<noteq> 0) (m[i := Suc idx]) < length m" using cnt_slots [OF ij(3)] sl room by simp
  moreover have "\<forall>v \<in> set (m[i := Suc idx]). v \<le> length cs"
    using inv idx(1) set_update_subset_insert [of m i "Suc idx"] by (auto simp: sidmap_inv_def)
  ultimately have "sidmap_inv cs (m[i := Suc idx])" using ij(3) n by (auto simp: sidmap_inv_def)
  moreover have "sid_free_slot m (sid_mix ?k (length m - 1)) (length m) = Some i"
    using i sid_free_slot_scan [OF n(1)] sid_mix_mod [OF n(1)] by simp
  ultimately show ?thesis using sl by blast
qed

section \<open>Deletion\<close>

lemma sidmap_reinsert_run:
  assumes "reinsert (\<lambda>v. v = 0) (sm.place cs) (\<lambda>_. 0) m j fuel = Some t'" "length m = 2 ^ n" "j < length m" "\<forall>v \<in> set m. v \<le> length cs"
  shows "sidmap_reinsert cs m j = Some t' \<and> (\<forall>v \<in> set t'. v \<le> length cs)"
  using assms
proof (induction fuel arbitrary: m j)
  case (Suc fuel)
  note prems = Suc.prems
  show ?case
  proof (cases "m ! j = 0")
    case False
    let ?v = "m ! j" and ?s = "m[j := 0]" and ?k = "rc_sid (cs ! (m ! j - 1))"
    have vl: "?v \<le> length cs" using prems(3,4) by simp
    have len: "length ?s = length m" by simp
    obtain f where f: "scan (\<lambda>v. v = 0) ?s (home_of ?k mod length m) (length m) = Some f"
      using scan_round [of j ?s "\<lambda>v. v = 0" "home_of ?k"] prems(3) unfolding len by auto
    have fs: "sid_free_slot ?s (sid_mix ?k (length m - 1)) (length m) = Some f"
      using f sid_free_slot_scan [of ?s n] sid_mix_mod [OF prems(2)] prems(2) by simp
    have pl: "sm.place cs ?s ?v = ?s[f := ?v]" using f len False by (simp add: probe_place_def sid_key_def)
    have nx: "(j + 1) AND (length m - 1) = (j + 1) mod length m" "(j + 1) mod length m < length m"
      using next_cell [OF prems(2), of j] by simp_all
    have "\<forall>v \<in> set (?s[f := ?v]). v \<le> length cs"
      using prems(4) vl set_update_subset_insert [of ?s f ?v] set_update_subset_insert [of m j 0] by auto
    then have "sidmap_reinsert cs (?s[f := ?v]) ((j + 1) mod length m) = Some t' \<and> (\<forall>v \<in> set t'. v \<le> length cs)"
      using prems(1,2) nx False pl by (intro Suc.IH) simp_all
    then show ?thesis using False vl fs nx by (simp add: sidmap_reinsert.simps [of cs m j] Let_def)
    next
    case True
    then have "sidmap_reinsert cs m j = Some m" by (subst sidmap_reinsert.simps) simp
    then show ?thesis using prems True by simp
  qed
qed simp

lemma sidmap_del_spec:
  assumes inv: "sidmap_inv (rl_conns r) (rl_sidmap r)"
  shows "\<exists>m. sidmap_del r sid = Some (r\<lparr>rl_sidmap := m\<rparr>) \<and> sidmap_inv (rl_conns r) m \<and> length m = length (rl_sidmap r) \<and>
    slots m = {i \<in> slots (rl_sidmap r). rc_sid (rl_conns r ! i) \<noteq> sid}"
proof (cases "rl_sidmap r = []")
  case True
  then show ?thesis by (intro exI [of _ "[]"]) (cases r, simp add: sidmap_del_def)
next
  case False
  let ?m = "rl_sidmap r" and ?cs = "rl_conns r"
  obtain n j where s: "length ?m = 2 ^ n" "6 \<le> n" "j < length ?m"
    "scan (\<lambda>v. v = 0 \<or> sid_key ?cs v = Some sid) ?m (sid_mix sid (length ?m - 1)) (length ?m) = Some j"
    "?m ! j = 0 \<longleftrightarrow> (\<forall>i \<in> slots ?m. rc_sid (?cs ! i) \<noteq> sid)"
    "?m ! j \<noteq> 0 \<longrightarrow> rc_sid (?cs ! (?m ! j - 1)) = sid \<and> ?m ! j - 1 \<in> slots ?m" "sid_mix sid (length ?m - 1) < length ?m"
    by (rule sid_scan [OF inv False, of sid])
  have p: "sm.pinv ?cs ?m" and b: "\<forall>v \<in> set ?m. v \<le> length ?cs" and c: "cnt (\<lambda>v. \<not> v = 0) ?m < length ?m"
    using inv False by (auto simp: sidmap_inv_def)
  note f = sidmap_find_scan [OF s(1) b s(4,7)]
  show ?thesis
  proof (cases "?m ! j = 0")
    case True
    then have "sidmap_del r sid = Some (r\<lparr>rl_sidmap := ?m\<rparr>)" using f False by (cases r) (simp add: sidmap_del_def Let_def)
    then show ?thesis using inv s(5) True by (intro exI [of _ ?m]) auto
  next
    case hit: False
    let ?t = "?m[j := 0]"
    have k: "sid_key ?cs (?m ! j) = Some sid" using s(6) hit by (simp add: sid_key_def)
    from sm.delete_spec [OF p s(3) k c] obtain t where t:
      "reinsert (\<lambda>v. v = 0) (sm.place ?cs) (\<lambda>_. 0) ?t ((j + 1) mod length ?m) (length ?m) = Some t" "sm.pinv ?cs t" "length t = length ?m"
      "table_view (sid_key ?cs) t = (table_view (sid_key ?cs) ?m)(sid := None)" "cnt (\<lambda>v. \<not> v = 0) ?m = Suc (cnt (\<lambda>v. \<not> v = 0) t)"
      by auto
    have bt: "\<forall>v \<in> set ?t. v \<le> length ?cs" using b set_update_subset_insert [of ?m j 0] by auto
    have rr: "sidmap_reinsert ?cs ?t ((j + 1) mod length ?m) = Some t \<and> (\<forall>v \<in> set t. v \<le> length ?cs)"
      using sidmap_reinsert_run [OF t(1) _ _ bt] s(1) next_cell [OF s(1), of j] by simp
    then have "sidmap_del r sid = Some (r\<lparr>rl_sidmap := t\<rparr>)"
      using f hit False next_cell [OF s(1), of j] by (simp add: sidmap_del_def Let_def)
    moreover have "sidmap_inv ?cs t" using t c rr s(1,2) by (auto simp: sidmap_inv_def)
    moreover have "i \<in> slots t \<longleftrightarrow> i \<in> slots ?m \<and> rc_sid (?cs ! i) \<noteq> sid" for i
      using sid_view [OF t(2), of "rc_sid (?cs ! i)" "Suc i"] sid_view [OF p, of "rc_sid (?cs ! i)" "Suc i"] t(4) by (auto split: if_splits)
    ultimately show ?thesis using t(3) by blast
  qed
qed

end
