(* ===== verification/Mux_Relay_Inv.thy ===== *)
theory Mux_Relay_Inv
  imports Mux_Relay_Map Mux_Host
begin

text \<open>
  The invariant of the relay and its primitive operations. The slab: every slot is in use or
  on the free list, once. The map: exactly the slots in use are entered, under their stream
  ids. The sockets: one per connection, registered in the event loop with the interest the
  connection records; the recorded interest is the one its state calls for, unless it is
  marked dirty. The accept cap: the counter is the number of connections, within the cap, and
  the listener is paused only at the cap. \<open>E\<close> is the set of slots in the middle of a change.
\<close>

section \<open>The invariant\<close>

definition used_set :: "relay \<Rightarrow> nat set" where
  "used_set r = {i. i < length (rl_conns r) \<and> rc_used (rl_conns r ! i)}"

definition slab_ok :: "relay \<Rightarrow> bool" where
  "slab_ok r \<longleftrightarrow> (\<exists>hw rel. hw \<le> length (rl_conns r) \<and> rl_free r = rel @ [hw..<length (rl_conns r)] \<and> distinct rel \<and>
     set rel \<subseteq> {..<hw} \<and> used_set r = {..<hw} - set rel \<and> (hw = 0 \<or> hw * 4 < length (rl_sidmap r) * 3))"

definition map_ok :: "relay \<Rightarrow> bool" where
  "map_ok r \<longleftrightarrow> sidmap_inv (rl_conns r) (rl_sidmap r) \<and> slots (rl_sidmap r) = used_set r"

text \<open>A write to the socket failed since it was opened.\<close>

definition write_broken :: "os_act list \<Rightarrow> int \<Rightarrow> bool" where
  "write_broken l fd = fold (\<lambda>a b. case a of WriteFailed f \<Rightarrow> b \<or> f = fd | Closed f \<Rightarrow> b \<and> f \<noteq> fd | _ \<Rightarrow> b) l False"

definition conn_fine :: "nat set \<Rightarrow> relay \<Rightarrow> nat \<Rightarrow> bool" where
  "conn_fine E r i \<longleftrightarrow> (let c = rl_conns r ! i in
     buf_inv (rc_s2m c) \<and> buf_inv (rc_m2s c) \<and>
     (if rc_used c then
        0 \<le> rc_sock c \<and> rc_sock c \<noteq> rl_tunnel_fd r \<and> rc_sock c \<noteq> ro_public_listen_fd (rl_opt r) \<and>
        (\<exists>a b. rc_cur c = Some (a, b) \<and> rl_loop r (rc_sock c) = Some (a, b, UD_CONN i)) \<and>
        (rc_in_dirty c \<longrightarrow> i \<in> set (rl_dirty r)) \<and>
        (rc_in_dirty c \<or> i \<in> E \<or> rc_cur c = Some (conn_desired c) \<or> write_broken (os_log (rl_os r)) (rc_sock c))
      else \<not> rc_in_dirty c))"

definition socks_ok :: "relay \<Rightarrow> bool" where
  "socks_ok r \<longleftrightarrow> inj_on (\<lambda>i. rc_sock (rl_conns r ! i)) (used_set r)"

definition dirty_ok :: "relay \<Rightarrow> bool" where
  "dirty_ok r \<longleftrightarrow> set (rl_dirty r) \<subseteq> {..<length (rl_conns r)} \<and> length (rl_dirty r) \<le> rl_dirty_cap r"

definition cap_ok :: "relay \<Rightarrow> bool" where
  "cap_ok r \<longleftrightarrow> (let fd = ro_public_listen_fd (rl_opt r); cap = ro_max_streams (rl_opt r) in
     (rl_listen_paused r \<longrightarrow> fd \<ge> 0 \<and> at_cap r) \<and>
     (fd \<ge> 0 \<longrightarrow> rl_nactive r = card (used_set r) \<and> (0 < cap \<longrightarrow> int (rl_nactive r) \<le> cap) \<and>
        rl_loop r fd = Some (\<not> rl_listen_paused r, False, OWN_LISTEN)))"

definition tun_ok :: "relay \<Rightarrow> bool" where
  "tun_ok r \<longleftrightarrow> rl_tunnel_fd r \<noteq> ro_public_listen_fd (rl_opt r) \<and>
     (\<exists>a b. rl_tun r = Some (a, b) \<and> rl_loop r (rl_tunnel_fd r) = Some (a, b, OWN_TUNNEL))"

definition used_sids :: "relay \<Rightarrow> u32 set" where
  "used_sids r = (\<lambda>i. rc_sid (rl_conns r ! i)) ` used_set r"

definition sess_ok :: "relay \<Rightarrow> bool" where
  "sess_ok r \<longleftrightarrow> (ro_backend_host (rl_opt r) = None \<or> ro_public_listen_fd (rl_opt r) < 0) \<and>
     (\<exists>L. ids_fresh L (rl_mux r) \<and> (ro_backend_host (rl_opt r) \<noteq> None \<longrightarrow> used_sids r \<subseteq> set L)) \<and>
     (ro_backend_host (rl_opt r) = None \<longrightarrow> (\<forall>k \<in> used_sids r. ids_below k (rl_mux r)))"

definition relay_inv_at :: "nat set \<Rightarrow> relay \<Rightarrow> bool" where
  "relay_inv_at E r \<longleftrightarrow> slab_ok r \<and> map_ok r \<and> (\<forall>i < length (rl_conns r). conn_fine E r i) \<and> socks_ok r \<and> dirty_ok r \<and>
     cap_ok r \<and> tun_ok r \<and> sess_ok r \<and> rl_mem r = []"

abbreviation relay_inv :: "relay \<Rightarrow> bool" where
  "relay_inv \<equiv> relay_inv_at {}"

text \<open>The fields each part reads.\<close>

lemma used_cong: "rl_conns r' = rl_conns r \<Longrightarrow> used_set r' = used_set r \<and> used_sids r' = used_sids r"
  by (simp add: used_set_def used_sids_def)

lemma slab_cong: "rl_conns r' = rl_conns r \<Longrightarrow> rl_free r' = rl_free r \<Longrightarrow> rl_sidmap r' = rl_sidmap r \<Longrightarrow> slab_ok r' = slab_ok r"
  using used_cong [of r' r] by (simp add: slab_ok_def)

lemma map_cong: "rl_conns r' = rl_conns r \<Longrightarrow> rl_sidmap r' = rl_sidmap r \<Longrightarrow> map_ok r' = map_ok r"
  using used_cong [of r' r] by (simp add: map_ok_def)

lemma socks_cong: "rl_conns r' = rl_conns r \<Longrightarrow> socks_ok r' = socks_ok r"
  using used_cong [of r' r] by (simp add: socks_ok_def)

lemma dirty_cong:
  "rl_conns r' = rl_conns r \<Longrightarrow> rl_dirty r' = rl_dirty r \<Longrightarrow> rl_dirty_cap r' = rl_dirty_cap r \<Longrightarrow> dirty_ok r' = dirty_ok r"
  by (simp add: dirty_ok_def)

lemma cap_cong:
  "rl_conns r' = rl_conns r \<Longrightarrow> rl_opt r' = rl_opt r \<Longrightarrow> rl_listen_paused r' = rl_listen_paused r \<Longrightarrow> rl_nactive r' = rl_nactive r \<Longrightarrow>
   rl_loop r' = rl_loop r \<Longrightarrow> cap_ok r' = cap_ok r"
  using used_cong [of r' r] by (simp add: cap_ok_def at_cap_def)

lemma tun_cong:
  "rl_tunnel_fd r' = rl_tunnel_fd r \<Longrightarrow> rl_opt r' = rl_opt r \<Longrightarrow> rl_tun r' = rl_tun r \<Longrightarrow> rl_loop r' = rl_loop r \<Longrightarrow> tun_ok r' = tun_ok r"
  by (simp add: tun_ok_def)

lemma sess_cong: "rl_conns r' = rl_conns r \<Longrightarrow> rl_opt r' = rl_opt r \<Longrightarrow> rl_mux r' = rl_mux r \<Longrightarrow> sess_ok r' = sess_ok r"
  using used_cong [of r' r] by (simp add: sess_ok_def)

lemma fine_cong:
  "rl_conns r' = rl_conns r \<Longrightarrow> rl_opt r' = rl_opt r \<Longrightarrow> rl_tunnel_fd r' = rl_tunnel_fd r \<Longrightarrow> rl_loop r' = rl_loop r \<Longrightarrow>
   rl_dirty r' = rl_dirty r \<Longrightarrow> os_log (rl_os r') = os_log (rl_os r) \<Longrightarrow> conn_fine E r' i = conn_fine E r i"
  by (simp add: conn_fine_def)

lemma inv_cong:
  assumes "rl_conns r' = rl_conns r" "rl_opt r' = rl_opt r" "rl_tunnel_fd r' = rl_tunnel_fd r" "rl_loop r' = rl_loop r"
    "rl_dirty r' = rl_dirty r" "rl_dirty_cap r' = rl_dirty_cap r" "rl_free r' = rl_free r" "rl_sidmap r' = rl_sidmap r"
    "rl_listen_paused r' = rl_listen_paused r" "rl_nactive r' = rl_nactive r" "rl_tun r' = rl_tun r" "rl_mem r' = rl_mem r"
    and "sess_ok r' = sess_ok r" "\<And>i. conn_fine E r' i = conn_fine F r i"
  shows "relay_inv_at E r' = relay_inv_at F r"
  using assms slab_cong [of r' r] map_cong [of r' r] socks_cong [of r' r] dirty_cong [of r' r] cap_cong [of r' r] tun_cong [of r' r]
  by (simp add: relay_inv_at_def)

text \<open>What the handlers leave as it is.\<close>

definition calmly :: "relay \<Rightarrow> relay \<Rightarrow> bool" where
  "calmly r r' \<longleftrightarrow> rl_opt r' = rl_opt r \<and> rl_tunnel_fd r' = rl_tunnel_fd r \<and> rl_recv r' = rl_recv r \<and>
     mux_out (Some (rl_mux r)) (Some (rl_mux r')) \<and> length (os_reads (rl_os r')) \<le> length (os_reads (rl_os r)) \<and>
     os_accepts (rl_os r') = os_accepts (rl_os r) \<and> length (rl_conns r) \<le> length (rl_conns r')"

definition rsafe :: "nat set \<Rightarrow> relay \<Rightarrow> relay option \<Rightarrow> bool" where
  "rsafe E r x \<longleftrightarrow> (\<exists>r'. x = Some r' \<and> relay_inv_at E r' \<and> calmly r r')"

lemma calmly_refl [simp]: "calmly r r"
  by (simp add: calmly_def)

lemma calmly_trans: "calmly r r' \<Longrightarrow> calmly r' r'' \<Longrightarrow> calmly r r''"
  unfolding calmly_def by (auto intro: mux_out_trans)

lemma rsafe_Some: "relay_inv_at E r' \<Longrightarrow> calmly r r' \<Longrightarrow> rsafe E r (Some r')"
  by (simp add: rsafe_def)

lemma rsafe_from: "rsafe E r' x \<Longrightarrow> calmly r r' \<Longrightarrow> rsafe E r x"
  unfolding rsafe_def using calmly_trans by blast

lemma rsafe_bind:
  assumes "rsafe E r x" "\<And>r'. x = Some r' \<Longrightarrow> relay_inv_at E r' \<Longrightarrow> calmly r r' \<Longrightarrow> rsafe F r' (f r')"
  shows "rsafe F r (x \<bind> f)"
  using assms calmly_trans unfolding rsafe_def by fastforce

section \<open>Fields the invariant does not read\<close>

lemma relay_inv_at_other [simp]:
  "relay_inv_at E (r\<lparr>rl_recv := bs\<rparr>) = relay_inv_at E r" "relay_inv_at E (r\<lparr>rl_authed := b\<rparr>) = relay_inv_at E r"
  "relay_inv_at E (r\<lparr>rl_stop := b\<rparr>) = relay_inv_at E r" "relay_inv_at E (r\<lparr>rl_nonce := bs\<rparr>) = relay_inv_at E r"
  "relay_inv_at E (r\<lparr>rl_proof := bs\<rparr>) = relay_inv_at E r"
  by (rule inv_cong; (rule sess_cong fine_cong)?; simp)+

lemma relay_inv_mono: "relay_inv_at E r \<Longrightarrow> E \<subseteq> F \<Longrightarrow> relay_inv_at F r"
  unfolding relay_inv_at_def conn_fine_def Let_def by (auto split: if_splits)

lemma write_broken_simps [simp]:
  "write_broken (l @ [Written f bs]) fd = write_broken l fd" "write_broken (l @ [ShutWr f]) fd = write_broken l fd"
  "write_broken (l @ [WriteFailed f]) fd \<longleftrightarrow> write_broken l fd \<or> f = fd"
  "write_broken (l @ [Closed f]) fd \<longleftrightarrow> write_broken l fd \<and> f \<noteq> fd"
  by (simp_all add: write_broken_def)

lemma conn_fine_os:
  assumes "\<And>fd. write_broken (os_log (rl_os r)) fd \<Longrightarrow> write_broken (os_log os) fd" "conn_fine E r i"
  shows "conn_fine E (r\<lparr>rl_os := os\<rparr>) i"
  using assms by (auto simp: conn_fine_def Let_def split: if_splits)

lemma inv_os:
  assumes "\<And>fd. write_broken (os_log (rl_os r)) fd \<Longrightarrow> write_broken (os_log os) fd" "relay_inv_at E r"
  shows "relay_inv_at E (r\<lparr>rl_os := os\<rparr>)"
  using assms(2) conn_fine_os [of r os E, OF assms(1)] slab_cong [of "r\<lparr>rl_os := os\<rparr>" r] map_cong [of "r\<lparr>rl_os := os\<rparr>" r]
    socks_cong [of "r\<lparr>rl_os := os\<rparr>" r] dirty_cong [of "r\<lparr>rl_os := os\<rparr>" r] cap_cong [of "r\<lparr>rl_os := os\<rparr>" r]
    tun_cong [of "r\<lparr>rl_os := os\<rparr>" r] sess_cong [of "r\<lparr>rl_os := os\<rparr>" r]
  by (simp add: relay_inv_at_def)

lemma os_do_sel [simp]:
  "rl_conns (os_do r a) = rl_conns r" "rl_mux (os_do r a) = rl_mux r" "rl_mem (os_do r a) = rl_mem r" "rl_opt (os_do r a) = rl_opt r"
  "os_writes (rl_os (os_do r a)) = os_writes (rl_os r)" "os_reads (rl_os (os_do r a)) = os_reads (rl_os r)"
  "os_log (rl_os (os_do r a)) = os_log (rl_os r) @ [a]" "rl_authed (os_do r a) = rl_authed r" "rl_loop (os_do r a) = rl_loop r"
  "os_accepts (rl_os (os_do r a)) = os_accepts (rl_os r)" "rl_nactive (os_do r a) = rl_nactive r" "rl_dirty (os_do r a) = rl_dirty r"
  "rl_tunnel_fd (os_do r a) = rl_tunnel_fd r" "rl_recv (os_do r a) = rl_recv r" "rl_sidmap (os_do r a) = rl_sidmap r"
  "rl_stop (os_do r a) = rl_stop r"
  by (simp_all add: os_do_def)

lemma inv_log:
  assumes "relay_inv_at E r" "\<And>f. a \<noteq> Closed f" shows "relay_inv_at E (os_do r a)"
  unfolding os_do_def by (rule inv_os [OF _ assms(1)]) (use assms(2) in \<open>cases a; simp\<close>)

lemma calm_os_do [simp]: "calmly r (os_do r' a) = calmly r r'"
  by (simp add: calmly_def)

section \<open>The session behind the relay\<close>

lemma steps_below: "sess_step\<^sup>*\<^sup>* s s' \<Longrightarrow> ids_below k s \<Longrightarrow> ids_below k s'"
  by (induction rule: rtranclp_induct) (auto intro: below.inv_step)

lemma sess_ok_path:
  assumes "sess_ok r" "sess_step\<^sup>*\<^sup>* (rl_mux r) s" shows "sess_ok (r\<lparr>rl_mux := s\<rparr>)"
proof -
  have "used_sids (r\<lparr>rl_mux := s\<rparr>) = used_sids r" by (simp add: used_sids_def used_set_def)
  then show ?thesis using assms steps_fresh [OF assms(2)] steps_below [OF assms(2)] unfolding sess_ok_def by auto
qed

lemma inv_mux:
  assumes "relay_inv_at E r" "mux_path (Some (rl_mux r)) (Some s)" shows "relay_inv_at E (r\<lparr>rl_mux := s\<rparr>)"
proof -
  have s: "sess_ok r" "sess_ok (r\<lparr>rl_mux := s\<rparr>)"
    using assms sess_ok_path [of r s] by (auto simp: relay_inv_at_def mux_path_def)
  have "relay_inv_at E (r\<lparr>rl_mux := s\<rparr>) = relay_inv_at E r"
    by (rule inv_cong; (rule fine_cong)?) (use s in simp_all)
  then show ?thesis using assms(1) by simp
qed

text \<open>The calls that only produce output.\<close>

lemma mux_calls_out:
  "mux_out (Some s) (Some (snd (mux_consume s sid (of_nat n))))" "mux_out (Some s) (Some (snd (mux_close s sid)))"
  "mux_out (Some s) (Some (snd (mux_reset s sid code)))" "mux_out (Some s) (Some (snd (mux_goaway s reason)))"
  "mux_out (Some s) (Some (snd (mux_write s sid (Some p) (length p))))"
  using via_out(2) [of "Some s" sid n] via_out(3) [of "Some s" sid] via_out(4) [of "Some s" sid code] via_out(5) [of "Some s" reason]
    via_out(1) [of "Some s" sid p] by simp_all

lemma mux_write_out: "mux_write s sid (Some p) n = (x, s') \<Longrightarrow> n = length p \<Longrightarrow> mux_out (Some s) (Some s')"
  using mux_calls_out(5) [of s sid p] by simp

lemma calm_mux [simp]: "calmly r (r'\<lparr>rl_mux := s\<rparr>) \<longleftrightarrow> calmly r (r'\<lparr>rl_mux := rl_mux r\<rparr>) \<and> mux_out (Some (rl_mux r)) (Some s)"
  by (auto simp: calmly_def)

lemma inv_out: "relay_inv_at E r \<Longrightarrow> mux_out (Some (rl_mux r)) (Some s) \<Longrightarrow> relay_inv_at E (r\<lparr>rl_mux := s\<rparr>)"
  by (rule inv_mux) (simp_all add: mux_out_def)

lemma calm_out: "mux_out (Some (rl_mux r)) (Some s) \<Longrightarrow> calmly r (r\<lparr>rl_mux := s\<rparr>)"
  by (simp add: calmly_def)

section \<open>Updates of a connection\<close>

lemma upd_conn_sel [simp]:
  "rl_conns (upd_conn_at r i f) = (rl_conns r)[i := f (rl_conns r ! i)]" "length (rl_conns (upd_conn_at r i f)) = length (rl_conns r)"
  "rl_free (upd_conn_at r i f) = rl_free r" "rl_sidmap (upd_conn_at r i f) = rl_sidmap r" "rl_dirty (upd_conn_at r i f) = rl_dirty r"
  "rl_dirty_cap (upd_conn_at r i f) = rl_dirty_cap r" "rl_mux (upd_conn_at r i f) = rl_mux r" "rl_mem (upd_conn_at r i f) = rl_mem r"
  "rl_opt (upd_conn_at r i f) = rl_opt r" "rl_os (upd_conn_at r i f) = rl_os r" "rl_loop (upd_conn_at r i f) = rl_loop r"
  "rl_nactive (upd_conn_at r i f) = rl_nactive r" "rl_listen_paused (upd_conn_at r i f) = rl_listen_paused r"
  "rl_tun (upd_conn_at r i f) = rl_tun r" "rl_tunnel_fd (upd_conn_at r i f) = rl_tunnel_fd r" "rl_recv (upd_conn_at r i f) = rl_recv r"
  "rl_authed (upd_conn_at r i f) = rl_authed r" "rl_stop (upd_conn_at r i f) = rl_stop r"
  by (simp_all add: upd_conn_at_def)

lemma calmly_upd [simp]: "calmly r (upd_conn_at r' i f) = calmly r r'"
  by (simp add: calmly_def)

text \<open>Updates that keep who the connection is.\<close>

definition same_id :: "conn \<Rightarrow> conn \<Rightarrow> bool" where
  "same_id c c' \<longleftrightarrow> rc_used c' = rc_used c \<and> rc_sid c' = rc_sid c \<and> rc_sock c' = rc_sock c"

lemma upd_same_parts:
  assumes "same_id (rl_conns r ! i) (f (rl_conns r ! i))"
  shows "used_set (upd_conn_at r i f) = used_set r" "used_sids (upd_conn_at r i f) = used_sids r"
    "slab_ok (upd_conn_at r i f) = slab_ok r" "map_ok r \<Longrightarrow> map_ok (upd_conn_at r i f)"
    "socks_ok (upd_conn_at r i f) = socks_ok r" "cap_ok (upd_conn_at r i f) = cap_ok r" "sess_ok (upd_conn_at r i f) = sess_ok r"
proof -
  define r' where "r' = upd_conn_at r i f"
  have same: "same_id (rl_conns r ! j) (rl_conns r' ! j)" for j
    using assms by (cases "i < length (rl_conns r)"; cases "j = i") (simp_all add: r'_def same_id_def list_update_beyond)
  then have nth: "rc_used (rl_conns r' ! j) = rc_used (rl_conns r ! j)" "rc_sid (rl_conns r' ! j) = rc_sid (rl_conns r ! j)"
    "rc_sock (rl_conns r' ! j) = rc_sock (rl_conns r ! j)" for j by (simp_all add: same_id_def)
  have sel: "length (rl_conns r') = length (rl_conns r)" "rl_free r' = rl_free r" "rl_sidmap r' = rl_sidmap r" "rl_opt r' = rl_opt r"
    "rl_nactive r' = rl_nactive r" "rl_listen_paused r' = rl_listen_paused r" "rl_loop r' = rl_loop r" "rl_mux r' = rl_mux r"
    by (simp_all add: r'_def)
  have u: "used_set r' = used_set r" unfolding used_set_def nth sel ..
  have s: "used_sids r' = used_sids r" unfolding used_sids_def u nth ..
  have m: "map_ok r'" if "map_ok r"
  proof -
    have "sidmap_inv (rl_conns r') (rl_sidmap r)"
      using sidmap_inv_cong [of "rl_sidmap r" "rl_conns r'" "rl_conns r"] nth(2) sel(1) that by (simp add: map_ok_def)
    then show ?thesis using that unfolding map_ok_def u sel by simp
  qed
  show "used_set (upd_conn_at r i f) = used_set r" "used_sids (upd_conn_at r i f) = used_sids r"
    "slab_ok (upd_conn_at r i f) = slab_ok r" "map_ok r \<Longrightarrow> map_ok (upd_conn_at r i f)"
    "socks_ok (upd_conn_at r i f) = socks_ok r" "cap_ok (upd_conn_at r i f) = cap_ok r" "sess_ok (upd_conn_at r i f) = sess_ok r"
    unfolding r'_def [symmetric] using u s m by (simp_all only: slab_ok_def socks_ok_def cap_ok_def sess_ok_def at_cap_def nth sel)
qed

lemma relay_inv_upd:
  assumes inv: "relay_inv_at E r" and same: "same_id (rl_conns r ! i) (f (rl_conns r ! i))"
    and fine: "i < length (rl_conns r) \<Longrightarrow> conn_fine F (upd_conn_at r i f) i" and EF: "E \<subseteq> insert i F"
  shows "relay_inv_at F (upd_conn_at r i f)"
proof -
  have "conn_fine F (upd_conn_at r i f) j" if j: "j < length (rl_conns r)" for j
  proof (cases "j = i")
    case False
    have "conn_fine E r j" using inv j by (simp add: relay_inv_at_def)
    then show ?thesis using False EF by (auto simp: conn_fine_def Let_def split: if_splits)
  qed (use fine j in simp)
  then show ?thesis
    using inv upd_same_parts [of r i f, OF same] by (simp add: relay_inv_at_def dirty_ok_def tun_ok_def)
qed

text \<open>An update that keeps the registered interest and the dirty mark leaves slot \<open>i\<close> out of step at most.\<close>

definition soft :: "conn \<Rightarrow> conn \<Rightarrow> bool" where
  "soft c c' \<longleftrightarrow> same_id c c' \<and> rc_cur c' = rc_cur c \<and> rc_in_dirty c' = rc_in_dirty c \<and>
     (buf_inv (rc_s2m c) \<longrightarrow> buf_inv (rc_s2m c')) \<and> (buf_inv (rc_m2s c) \<longrightarrow> buf_inv (rc_m2s c'))"

lemma inv_soft:
  assumes inv: "relay_inv_at E r" and soft: "soft (rl_conns r ! i) (f (rl_conns r ! i))"
  shows "relay_inv_at (insert i E) (upd_conn_at r i f)"
proof (rule relay_inv_upd [OF inv])
  show "conn_fine (insert i E) (upd_conn_at r i f) i" if i: "i < length (rl_conns r)"
  proof -
    have "conn_fine E r i" using inv i by (simp add: relay_inv_at_def)
    then show ?thesis using soft i by (auto simp: conn_fine_def soft_def same_id_def Let_def)
  qed
qed (use soft in \<open>auto simp: soft_def\<close>)

lemma inv_soft_in:
  "relay_inv_at (insert i E) r \<Longrightarrow> soft (rl_conns r ! i) (f (rl_conns r ! i)) \<Longrightarrow> relay_inv_at (insert i E) (upd_conn_at r i f)"
  using inv_soft [of "insert i E" r i f] by (simp only: insert_absorb2)

lemma inv_soft_same:
  assumes inv: "relay_inv_at E r" and soft: "soft (rl_conns r ! i) (f (rl_conns r ! i))"
    and des: "conn_desired (f (rl_conns r ! i)) = conn_desired (rl_conns r ! i)"
  shows "relay_inv_at E (upd_conn_at r i f)"
proof (rule relay_inv_upd [OF inv])
  show "conn_fine E (upd_conn_at r i f) i" if i: "i < length (rl_conns r)"
  proof -
    have "conn_fine E r i" using inv i by (simp add: relay_inv_at_def)
    then show ?thesis using soft i des by (auto simp: conn_fine_def soft_def same_id_def Let_def)
  qed
qed (use soft in \<open>auto simp: soft_def\<close>)

lemma conn_get_iff [simp]: "conn_get r i = Some c \<longleftrightarrow> i < length (rl_conns r) \<and> c = rl_conns r ! i"
  by (auto simp: conn_get_def)

lemma conn_get_lt: "i < length (rl_conns r) \<Longrightarrow> conn_get r i = Some (rl_conns r ! i)"
  by simp

lemma inv_fine: "relay_inv_at E r \<Longrightarrow> i < length (rl_conns r) \<Longrightarrow> conn_fine E r i"
  by (simp add: relay_inv_at_def)

lemma inv_unused: "relay_inv_at (insert i E) r \<Longrightarrow> \<not> rc_used (rl_conns r ! i) \<Longrightarrow> relay_inv_at E r"
  unfolding relay_inv_at_def
proof (elim conjE, intro conjI allI impI)
  fix j assume a: "\<forall>j < length (rl_conns r). conn_fine (insert i E) r j" "\<not> rc_used (rl_conns r ! i)" "j < length (rl_conns r)"
  then have "conn_fine (insert i E) r j" by blast
  then show "conn_fine E r j" using a(2) by (cases "j = i") (auto simp: conn_fine_def Let_def)
qed

text \<open>A connection that a change elsewhere leaves alone.\<close>

lemma fine_carry:
  assumes "conn_fine E r j" "j \<in> E \<longrightarrow> j \<in> F" "rl_conns r' ! j = rl_conns r ! j" "rl_opt r' = rl_opt r" "rl_tunnel_fd r' = rl_tunnel_fd r"
    "rc_used (rl_conns r ! j) \<Longrightarrow> rl_loop r' (rc_sock (rl_conns r ! j)) = rl_loop r (rc_sock (rl_conns r ! j))"
    "set (rl_dirty r) \<subseteq> set (rl_dirty r')"
    "rc_used (rl_conns r ! j) \<Longrightarrow> write_broken (os_log (rl_os r)) (rc_sock (rl_conns r ! j)) \<Longrightarrow> write_broken (os_log (rl_os r')) (rc_sock (rl_conns r ! j))"
  shows "conn_fine F r' j"
proof (cases "rc_used (rl_conns r ! j)")
  case True
  then show ?thesis using assms unfolding conn_fine_def Let_def by auto
next
  case False
  then show ?thesis using assms(1,3) unfolding conn_fine_def Let_def by auto
qed

section \<open>Interest\<close>

lemma mark_dirty_spec:
  assumes inv: "relay_inv_at (insert i E) r" and i: "i < length (rl_conns r)" "rc_used (rl_conns r ! i)"
  shows "\<exists>r'. mark_dirty r i = Some r' \<and> relay_inv_at E r' \<and> calmly r r' \<and>
    rl_conns r' = (rl_conns r)[i := (rl_conns r ! i)\<lparr>rc_in_dirty := True\<rparr>] \<and> rl_os r' = rl_os r \<and> rl_mux r' = rl_mux r"
proof (cases "rc_in_dirty (rl_conns r ! i)")
  case True
  have "relay_inv_at E r"
    unfolding relay_inv_at_def
  proof (intro conjI allI impI)
    fix j assume "j < length (rl_conns r)"
    then have "conn_fine (insert i E) r j" using inv by (simp add: relay_inv_at_def)
    then show "conn_fine E r j" using True by (cases "j = i") (auto simp: conn_fine_def Let_def split: if_splits)
  qed (use inv in \<open>simp_all add: relay_inv_at_def\<close>)
  moreover have "(rl_conns r)[i := (rl_conns r ! i)\<lparr>rc_in_dirty := True\<rparr>] = rl_conns r"
    using True by (cases "rl_conns r ! i") (simp add: list_update_same_conv i)
  ultimately show ?thesis using True i by (simp add: mark_dirty_def conn_get_lt)
next
  case False
  define r1 where "r1 = upd_conn_at r i (\<lambda>c. c\<lparr>rc_in_dirty := True\<rparr>)"
  define cap where "cap = (if rl_dirty_cap r \<le> length (rl_dirty r) then if rl_dirty_cap r \<noteq> 0 then rl_dirty_cap r * 2 else 64 else rl_dirty_cap r)"
  define r2 where "r2 = r1\<lparr>rl_dirty_cap := cap, rl_dirty := rl_dirty r @ [i]\<rparr>"
  have mem: "rl_mem r = []" and d: "dirty_ok r" using inv by (simp_all add: relay_inv_at_def)
  have room: "length (rl_dirty r) < cap" using d by (auto simp: cap_def dirty_ok_def)
  have res: "mark_dirty r i = Some r2"
    using False i(1) mem room unfolding r2_def r1_def cap_def
    by (cases r; cases "rl_dirty_cap r \<le> length (rl_dirty r)") (auto simp: mark_dirty_def conn_get_def upd_conn_at_def Let_def)
  have same: "same_id (rl_conns r ! i) ((rl_conns r ! i)\<lparr>rc_in_dirty := True\<rparr>)" by (simp add: same_id_def)
  note p = upd_same_parts [of r i "\<lambda>c. c\<lparr>rc_in_dirty := True\<rparr>", OF same, folded r1_def]
  have "conn_fine E r2 j" if j: "j < length (rl_conns r)" for j
  proof -
    have fine: "conn_fine (insert i E) r j" using inv j by (simp add: relay_inv_at_def)
    have sel: "rl_conns r2 ! j = (if j = i then (rl_conns r ! i)\<lparr>rc_in_dirty := True\<rparr> else rl_conns r ! j)"
      "rl_opt r2 = rl_opt r" "rl_tunnel_fd r2 = rl_tunnel_fd r" "rl_loop r2 = rl_loop r" "rl_dirty r2 = rl_dirty r @ [i]" "rl_os r2 = rl_os r"
      using i by (simp_all add: r2_def r1_def)
    show ?thesis
    proof (cases "j = i")
      case True
      then show ?thesis using fine sel i(2) by (simp add: conn_fine_def Let_def)
    next
      case False
      then show ?thesis using sel by (intro fine_carry [OF fine]) auto
    qed
  qed
  moreover have "dirty_ok r2" using d room i by (auto simp: dirty_ok_def r2_def r1_def)
  moreover have "slab_ok r2 = slab_ok r1" "map_ok r2 = map_ok r1" "socks_ok r2 = socks_ok r1" "cap_ok r2 = cap_ok r1" "sess_ok r2 = sess_ok r1"
    by (rule slab_cong map_cong socks_cong cap_cong sess_cong; simp add: r2_def)+
  moreover have "tun_ok r2 = tun_ok r" by (rule tun_cong) (simp_all add: r2_def r1_def)
  moreover have "length (rl_conns r2) = length (rl_conns r)" "rl_mem r2 = []" using mem by (simp_all add: r2_def r1_def)
  ultimately have "relay_inv_at E r2"
    using inv p unfolding relay_inv_at_def by simp
  moreover have "calmly r r2" by (simp add: calmly_def r2_def r1_def)
  ultimately show ?thesis using res by (simp add: r2_def r1_def)
qed

lemma mark_dirty_safe:
  assumes "relay_inv_at (insert i E) r" "i < length (rl_conns r)" "rc_used (rl_conns r ! i)"
  shows "rsafe E r (mark_dirty r i)"
  using mark_dirty_spec [OF assms] by (auto simp: rsafe_def)


lemma evloop_set_sel [simp]:
  "rl_conns (evloop_set r fd a b u) = rl_conns r" "rl_free (evloop_set r fd a b u) = rl_free r" "rl_sidmap (evloop_set r fd a b u) = rl_sidmap r"
  "rl_dirty (evloop_set r fd a b u) = rl_dirty r" "rl_dirty_cap (evloop_set r fd a b u) = rl_dirty_cap r" "rl_mux (evloop_set r fd a b u) = rl_mux r"
  "rl_mem (evloop_set r fd a b u) = rl_mem r" "rl_opt (evloop_set r fd a b u) = rl_opt r" "rl_os (evloop_set r fd a b u) = rl_os r"
  "rl_loop (evloop_set r fd a b u) = (rl_loop r)(fd \<mapsto> (a, b, u))" "rl_nactive (evloop_set r fd a b u) = rl_nactive r"
  "rl_listen_paused (evloop_set r fd a b u) = rl_listen_paused r" "rl_tun (evloop_set r fd a b u) = rl_tun r"
  "rl_tunnel_fd (evloop_set r fd a b u) = rl_tunnel_fd r" "rl_recv (evloop_set r fd a b u) = rl_recv r" "rl_stop (evloop_set r fd a b u) = rl_stop r"
  by (simp_all add: evloop_set_def)

lemma conn_desired_other [simp]:
  "conn_desired (c\<lparr>rc_cur := x\<rparr>) = conn_desired c" "conn_desired (c\<lparr>rc_in_dirty := b\<rparr>) = conn_desired c"
  "conn_desired (c\<lparr>rc_gone := b\<rparr>) = conn_desired c" "conn_desired (c\<lparr>rc_stream_fin := b\<rparr>) = conn_desired c"
  by (simp_all add: conn_desired_def)

text \<open>
  Registering a connection, new or known: the interest is the one its state calls for.
\<close>

lemma apply_interest_any:
  assumes parts: "slab_ok r" "map_ok r" "socks_ok r" "dirty_ok r" "cap_ok r" "tun_ok r" "sess_ok r" "rl_mem r = []"
    and others: "\<And>j. j < length (rl_conns r) \<Longrightarrow> j \<noteq> i \<Longrightarrow> conn_fine E r j"
    and i: "i < length (rl_conns r)" "c = rl_conns r ! i" "rc_used c" "0 \<le> rc_sock c" "rc_sock c \<noteq> rl_tunnel_fd r"
      "rc_sock c \<noteq> ro_public_listen_fd (rl_opt r)" "buf_inv (rc_s2m c)" "buf_inv (rc_m2s c)" "rc_in_dirty c \<longrightarrow> i \<in> set (rl_dirty r)"
    and reg: "\<And>a b. rc_cur c = Some (a, b) \<Longrightarrow> rl_loop r (rc_sock c) = Some (a, b, UD_CONN i)"
  shows "\<exists>r'. conn_apply_interest r i = Some r' \<and> relay_inv_at E r' \<and> calmly r r' \<and> rl_dirty r' = rl_dirty r \<and>
    rl_conns r' = (rl_conns r)[i := c\<lparr>rc_cur := Some (conn_desired c)\<rparr>] \<and> rl_os r' = rl_os r \<and> rl_nactive r' = rl_nactive r"
proof (cases "rc_cur c = Some (conn_desired c)")
  case True
  have "conn_fine E r i" using i reg [of "fst (conn_desired c)" "snd (conn_desired c)"] True by (auto simp: conn_fine_def Let_def)
  then have "relay_inv_at E r" unfolding relay_inv_at_def using parts others by blast
  moreover have "conn_apply_interest r i = Some r"
    using True i(1,2) by (cases "conn_desired c") (auto simp: conn_apply_interest_def conn_get_lt)
  moreover have "(rl_conns r)[i := c\<lparr>rc_cur := Some (conn_desired c)\<rparr>] = rl_conns r"
    using True i(1,2) by (cases c) (simp add: list_update_same_conv)
  ultimately show ?thesis by simp
next
  case False
  obtain wr ww where d: "conn_desired c = (wr, ww)" by (cases "conn_desired c")
  define f where "f = (\<lambda>c :: conn. c\<lparr>rc_cur := Some (wr, ww)\<rparr>)"
  define r1 where "r1 = upd_conn_at r i f"
  define r' where "r' = evloop_set r1 (rc_sock c) wr ww (UD_CONN i)"
  have res: "conn_apply_interest r i = Some r'"
    using False i(1-4) d by (simp add: conn_apply_interest_def conn_get_lt r'_def r1_def f_def)
  have same: "same_id (rl_conns r ! i) (f (rl_conns r ! i))" by (simp add: same_id_def f_def)
  note p = upd_same_parts [of r i f, OF same, folded r1_def]
  have q: "slab_ok r'" "map_ok r'" "socks_ok r'" "sess_ok r'"
    using slab_cong [of r' r1] map_cong [of r' r1] socks_cong [of r' r1] sess_cong [of r' r1] p parts by (simp_all add: r'_def)
  have u: "used_set r' = used_set r" using used_cong [of r' r1] p(1) by (simp add: r'_def)
  have sel: "rl_conns r' = (rl_conns r)[i := f c]" "rl_opt r' = rl_opt r" "rl_tunnel_fd r' = rl_tunnel_fd r" "rl_os r' = rl_os r"
    "rl_loop r' = (rl_loop r)(rc_sock c \<mapsto> (wr, ww, UD_CONN i))" "rl_dirty r' = rl_dirty r" "rl_dirty_cap r' = rl_dirty_cap r"
    "rl_nactive r' = rl_nactive r" "rl_listen_paused r' = rl_listen_paused r" "rl_tun r' = rl_tun r" "rl_mem r' = rl_mem r" "rl_mux r' = rl_mux r"
    "rl_recv r' = rl_recv r"
    using i(2) by (simp_all add: r'_def r1_def)
  have "cap_ok r'" using parts(5) i(6) unfolding cap_ok_def u at_cap_def sel by auto
  moreover have "tun_ok r'" using parts(6) i(5) unfolding tun_ok_def sel by auto
  moreover have "dirty_ok r'" using parts(4) unfolding dirty_ok_def sel by simp
  moreover have "conn_fine E r' j" if j: "j < length (rl_conns r)" for j
  proof (cases "j = i")
    case True
    then show ?thesis using i d by (simp add: conn_fine_def Let_def sel f_def)
  next
    case False
    have "rc_sock (rl_conns r ! j) \<noteq> rc_sock c" if "rc_used (rl_conns r ! j)"
      using parts(3) that j False i(1-3) by (auto simp: socks_ok_def inj_on_def used_set_def)
    then show ?thesis using False by (intro fine_carry [OF others [OF j False]]) (auto simp: sel)
  qed
  ultimately have "relay_inv_at E r'" unfolding relay_inv_at_def using q sel parts(8) by simp
  moreover have "calmly r r'" unfolding calmly_def sel by simp
  ultimately show ?thesis using res sel d by (simp add: f_def)
qed

lemma apply_interest_spec:
  assumes inv: "relay_inv_at (insert i E) r" and i: "i < length (rl_conns r)" "rc_used (rl_conns r ! i)"
  shows "\<exists>r'. conn_apply_interest r i = Some r' \<and> relay_inv_at E r' \<and> calmly r r' \<and> rl_dirty r' = rl_dirty r \<and>
    rl_conns r' = (rl_conns r)[i := (rl_conns r ! i)\<lparr>rc_cur := Some (conn_desired (rl_conns r ! i))\<rparr>] \<and> rl_os r' = rl_os r \<and> rl_nactive r' = rl_nactive r"
proof (rule apply_interest_any [OF _ _ _ _ _ _ _ _ _ i(1) refl i(2)])
  have "conn_fine (insert i E) r i" by (rule inv_fine [OF inv i(1)])
  then show "0 \<le> rc_sock (rl_conns r ! i)" "rc_sock (rl_conns r ! i) \<noteq> rl_tunnel_fd r"
    "rc_sock (rl_conns r ! i) \<noteq> ro_public_listen_fd (rl_opt r)" "buf_inv (rc_s2m (rl_conns r ! i))" "buf_inv (rc_m2s (rl_conns r ! i))"
    "rc_in_dirty (rl_conns r ! i) \<longrightarrow> i \<in> set (rl_dirty r)"
    "\<And>a b. rc_cur (rl_conns r ! i) = Some (a, b) \<Longrightarrow> rl_loop r (rc_sock (rl_conns r ! i)) = Some (a, b, UD_CONN i)"
    using i(2) by (auto simp: conn_fine_def Let_def)
  show "conn_fine E r j" if "j < length (rl_conns r)" "j \<noteq> i" for j
    using that by (intro fine_carry [OF inv_fine [OF inv that(1)]]) auto
qed (use inv in \<open>simp_all add: relay_inv_at_def\<close>)

text \<open>Flushing the marks: no connection in use is left marked.\<close>

lemma flush_marks_spec:
  assumes "relay_inv_at {} r" "set is \<subseteq> {..<length (rl_conns r)}" "\<forall>i \<in> used_set r. rc_in_dirty (rl_conns r ! i) \<longrightarrow> i \<in> set is"
  shows "\<exists>r'. flush_marks r is = Some r' \<and> relay_inv_at {} r' \<and> calmly r r' \<and> (\<forall>i \<in> used_set r'. \<not> rc_in_dirty (rl_conns r' ! i)) \<and>
    used_set r' = used_set r \<and> rl_nactive r' = rl_nactive r \<and> rl_os r' = rl_os r"
  using assms
proof (induction "is" arbitrary: r)
  case Nil
  have "conn_fine {} (r\<lparr>rl_dirty := []\<rparr>) i" if "i < length (rl_conns r)" for i
  proof -
    have "conn_fine {} r i" by (rule inv_fine [OF Nil.prems(1) that])
    then show ?thesis using Nil.prems(3) that by (auto simp: conn_fine_def Let_def used_set_def)
  qed
  moreover have "dirty_ok (r\<lparr>rl_dirty := []\<rparr>)" by (simp add: dirty_ok_def)
  ultimately have "relay_inv_at {} (r\<lparr>rl_dirty := []\<rparr>)"
    using Nil.prems(1) slab_cong [of "r\<lparr>rl_dirty := []\<rparr>" r] map_cong [of "r\<lparr>rl_dirty := []\<rparr>" r] socks_cong [of "r\<lparr>rl_dirty := []\<rparr>" r]
      cap_cong [of "r\<lparr>rl_dirty := []\<rparr>" r] tun_cong [of "r\<lparr>rl_dirty := []\<rparr>" r] sess_cong [of "r\<lparr>rl_dirty := []\<rparr>" r]
    by (simp add: relay_inv_at_def)
  moreover have "used_set (r\<lparr>rl_dirty := []\<rparr>) = used_set r" by (simp add: used_set_def)
  ultimately show ?case using Nil.prems(3) by (simp add: calmly_def)
next
  case (Cons i "is")
  let ?c = "rl_conns r ! i"
  have i: "i < length (rl_conns r)" using Cons.prems(2) by simp
  show ?case
  proof (cases "rc_used ?c \<and> rc_in_dirty ?c")
    case False
    then show ?thesis using Cons.IH [OF Cons.prems(1)] Cons.prems(2,3) i by (auto simp: conn_get_lt used_set_def)
  next
    case True
    define r1 where "r1 = upd_conn_at r i (\<lambda>c. c\<lparr>rc_in_dirty := False\<rparr>)"
    have "relay_inv_at {i} r1"
      unfolding r1_def
    proof (rule relay_inv_upd [OF Cons.prems(1)])
      show "conn_fine {i} (upd_conn_at r i (\<lambda>c. c\<lparr>rc_in_dirty := False\<rparr>)) i"
        using inv_fine [OF Cons.prems(1) i] i True by (auto simp: conn_fine_def Let_def)
    qed (simp_all add: same_id_def)
    moreover have "rc_used (rl_conns r1 ! i)" "i < length (rl_conns r1)" "used_set r1 = used_set r" "calmly r r1" "rl_nactive r1 = rl_nactive r" "rl_os r1 = rl_os r"
      using True i upd_same_parts(1) [of r i "\<lambda>c. c\<lparr>rc_in_dirty := False\<rparr>"] by (simp_all add: r1_def same_id_def)
    ultimately obtain r2 where r2: "conn_apply_interest r1 i = Some r2" "relay_inv_at {} r2" "calmly r1 r2" "rl_os r2 = rl_os r1"
      "rl_nactive r2 = rl_nactive r1" "rl_conns r2 = (rl_conns r1)[i := (rl_conns r1 ! i)\<lparr>rc_cur := Some (conn_desired (rl_conns r1 ! i))\<rparr>]"
      and r1: "used_set r1 = used_set r" "calmly r r1" "rl_nactive r1 = rl_nactive r" "rl_os r1 = rl_os r"
      using apply_interest_spec [of i "{}" r1] by auto
    have nth: "rc_used (rl_conns r2 ! j) = rc_used (rl_conns r ! j)" "rc_in_dirty (rl_conns r2 ! j) = (rc_in_dirty (rl_conns r ! j) \<and> j \<noteq> i)" for j
      using i r2(6) by (cases "j = i"; simp add: r1_def)+
    have u: "used_set r2 = used_set r" unfolding used_set_def nth using r2(6) by (simp add: r1_def)
    have "\<exists>r'. flush_marks r2 is = Some r' \<and> relay_inv_at {} r' \<and> calmly r2 r' \<and> (\<forall>i \<in> used_set r'. \<not> rc_in_dirty (rl_conns r' ! i)) \<and>
      used_set r' = used_set r2 \<and> rl_nactive r' = rl_nactive r2 \<and> rl_os r' = rl_os r2"
      using Cons.prems(2,3) r2(6) u nth by (intro Cons.IH [OF r2(2)]) (auto simp: r1_def)
    then show ?thesis using True i r2 r1 u calmly_trans [OF calmly_trans [OF r1(2) r2(3)]] by (auto simp: conn_get_lt r1_def)
  qed
qed

lemma flush_dirty_spec:
  assumes inv: "relay_inv r"
  shows "\<exists>r'. flush_dirty r = Some r' \<and> relay_inv r' \<and> calmly r r' \<and> (\<forall>i \<in> used_set r'. \<not> rc_in_dirty (rl_conns r' ! i)) \<and>
    used_set r' = used_set r \<and> rl_nactive r' = rl_nactive r \<and> rl_os r' = rl_os r"
  unfolding flush_dirty_def
proof (rule flush_marks_spec [OF inv])
  show "set (rl_dirty r) \<subseteq> {..<length (rl_conns r)}" using inv by (simp add: relay_inv_at_def dirty_ok_def)
  show "\<forall>i \<in> used_set r. rc_in_dirty (rl_conns r ! i) \<longrightarrow> i \<in> set (rl_dirty r)"
    using inv_fine [OF inv] by (auto simp: used_set_def conn_fine_def Let_def)
qed

end
