(* ===== verification/Mux_Relay_Safe.thy ===== *)
theory Mux_Relay_Safe
  imports Mux_Relay_Inv
begin

text \<open>
  The handlers of the relay keep its invariant and return: destroying and opening
  connections, moving bytes between sockets and streams, and the events of the session.
\<close>

section \<open>Destroying a connection\<close>

lemma resume_cap:
  assumes fd: "0 \<le> ro_public_listen_fd (rl_opt r)"
    and n: "rl_nactive r = Suc (card (used_set r))" "0 < ro_max_streams (rl_opt r) \<longrightarrow> int (rl_nactive r) \<le> ro_max_streams (rl_opt r)"
    and l: "rl_loop r (ro_public_listen_fd (rl_opt r)) = Some (\<not> rl_listen_paused r, False, OWN_LISTEN)"
  shows "cap_ok (conn_resume r)"
proof -
  have u: "used_set (conn_resume r) = used_set r"
    by (rule conjunct1 [OF used_cong]) (simp add: conn_resume_def Let_def)
  show ?thesis
    unfolding cap_ok_def u using fd n l
    by (auto simp: conn_resume_def at_cap_def Let_def)
qed

lemma conn_resume_sel [simp]:
  "rl_conns (conn_resume r) = rl_conns r" "rl_free (conn_resume r) = rl_free r" "rl_sidmap (conn_resume r) = rl_sidmap r"
  "rl_dirty (conn_resume r) = rl_dirty r" "rl_dirty_cap (conn_resume r) = rl_dirty_cap r" "rl_mux (conn_resume r) = rl_mux r"
  "rl_mem (conn_resume r) = rl_mem r" "rl_opt (conn_resume r) = rl_opt r" "rl_os (conn_resume r) = rl_os r" "rl_tun (conn_resume r) = rl_tun r"
  "rl_tunnel_fd (conn_resume r) = rl_tunnel_fd r" "rl_recv (conn_resume r) = rl_recv r" "rl_stop (conn_resume r) = rl_stop r"
  by (simp_all add: conn_resume_def Let_def)

lemma conn_resume_loop:
  "fd \<noteq> ro_public_listen_fd (rl_opt r) \<Longrightarrow> rl_loop (conn_resume r) fd = rl_loop r fd"
  by (simp add: conn_resume_def Let_def)

lemma slab_release:
  assumes s: "slab_ok r" and i: "i \<in> used_set r" and r': "length (rl_conns r') = length (rl_conns r)" "rl_free r' = i # rl_free r"
    "used_set r' = used_set r - {i}" "length (rl_sidmap r') = length (rl_sidmap r)"
  shows "slab_ok r'"
proof -
  obtain hw rel where h: "hw \<le> length (rl_conns r)" "rl_free r = rel @ [hw..<length (rl_conns r)]" "distinct rel" "set rel \<subseteq> {..<hw}"
    "used_set r = {..<hw} - set rel" "hw = 0 \<or> hw * 4 < length (rl_sidmap r) * 3" using s by (auto simp: slab_ok_def)
  show ?thesis unfolding slab_ok_def r'
    by (rule exI [of _ hw], rule exI [of _ "i # rel"]) (use h i in auto)
qed

lemma conn_destroy_spec:
  assumes inv: "relay_inv_at (insert i E) r" and i: "i < length (rl_conns r)" "rc_used (rl_conns r ! i)"
  shows "\<exists>r'. conn_destroy r i = Some r' \<and> relay_inv_at E r' \<and> calmly r r' \<and> used_set r' = used_set r - {i} \<and>
    rl_mux r' = rl_mux r \<and> (\<exists>c'. rl_conns r' = (rl_conns r)[i := c']) \<and> rl_stop r' = rl_stop r \<and>
    rl_os r' = (rl_os r)\<lparr>os_log := os_log (rl_os r) @ [Closed (rc_sock (rl_conns r ! i))]\<rparr>"
proof -
  define c where "c = rl_conns r ! i"
  define fd where "fd = rc_sock c"
  have fine: "conn_fine (insert i E) r i" by (rule inv_fine [OF inv i(1)])
  have fd: "0 \<le> fd" "fd \<noteq> rl_tunnel_fd r" "fd \<noteq> ro_public_listen_fd (rl_opt r)"
    using fine i(2) by (simp_all add: conn_fine_def Let_def fd_def c_def)
  define r0 where "r0 = os_do (evloop_del r fd) (Closed fd)"
  have c0: "rl_conns r0 = rl_conns r" "rl_sidmap r0 = rl_sidmap r" by (simp_all add: r0_def evloop_del_def)
  have mapr: "sidmap_inv (rl_conns r) (rl_sidmap r)" "slots (rl_sidmap r) = used_set r" using inv by (simp_all add: relay_inv_at_def map_ok_def)
  obtain m where m: "sidmap_del r0 (rc_sid c) = Some (r0\<lparr>rl_sidmap := m\<rparr>)" "sidmap_inv (rl_conns r) m" "length m = length (rl_sidmap r)"
    "slots m = {j \<in> used_set r. rc_sid (rl_conns r ! j) \<noteq> rc_sid c}"
    using sidmap_del_spec [of r0 "rc_sid c"] mapr unfolding c0 by auto
  have iu: "i \<in> used_set r" using i by (simp add: used_set_def)
  have sl: "slots m = used_set r - {i}"
    using m(4) slots_inj [OF mapr(1), of _ i] iu unfolding mapr(2) by (auto simp: c_def)
  define c' where "c' = c\<lparr>rc_s2m := buf_zero, rc_m2s := buf_zero, rc_in_dirty := False, rc_used := False\<rparr>"
  define r3 where "r3 = r0\<lparr>rl_sidmap := m, rl_conns := (rl_conns r)[i := c'], rl_free := i # rl_free r\<rparr>"
  define r' where "r' = conn_resume r3"
  have "conn_release (upd_conn_at (r0\<lparr>rl_sidmap := m\<rparr>) i (\<lambda>c. c\<lparr>rc_s2m := buf_zero, rc_m2s := buf_zero, rc_in_dirty := False\<rparr>)) i = r3"
    using i(1) by (simp add: conn_release_def upd_conn_at_def r3_def r0_def os_do_def evloop_del_def c'_def c_def)
  then have res: "conn_destroy r i = Some r'"
    using i fd(1) m(1) by (simp add: conn_destroy_def conn_get_lt Let_def c_def [symmetric] fd_def [symmetric] r0_def [symmetric] r'_def)
  have sel: "rl_conns r' = (rl_conns r)[i := c']" "rl_free r' = i # rl_free r" "rl_sidmap r' = m" "rl_dirty r' = rl_dirty r"
    "rl_dirty_cap r' = rl_dirty_cap r" "rl_mux r' = rl_mux r" "rl_mem r' = rl_mem r" "rl_opt r' = rl_opt r" "rl_tun r' = rl_tun r"
    "rl_tunnel_fd r' = rl_tunnel_fd r" "rl_recv r' = rl_recv r" "rl_os r' = (rl_os r)\<lparr>os_log := os_log (rl_os r) @ [Closed fd]\<rparr>" "rl_stop r' = rl_stop r"
    by (simp_all add: r'_def r3_def r0_def os_do_def evloop_del_def)
  have loop: "rl_loop r' g = rl_loop r g" if "g \<noteq> fd" "g \<noteq> ro_public_listen_fd (rl_opt r)" for g
    using that conn_resume_loop [of g r3] by (simp add: r'_def r3_def r0_def os_do_def evloop_del_def)
  have nu: "\<not> rc_used c'" "rc_sid c' = rc_sid c" by (simp_all add: c'_def)
  have u: "used_set r' = used_set r - {i}" using nu i by (auto simp: used_set_def sel nth_list_update)
  have nth: "rl_conns r' ! j = rl_conns r ! j" if "j \<noteq> i" for j using that by (simp add: sel)
  have slab: "slab_ok r'" by (rule slab_release [OF _ iu]) (use inv in \<open>simp_all add: relay_inv_at_def sel u m(3)\<close>)
  have "sidmap_inv (rl_conns r') m" by (rule sidmap_inv_cong [OF _ _ m(2)]) (use i(1) nu in \<open>auto simp: sel nth_list_update c_def\<close>)
  then have map: "map_ok r'" using sl by (simp add: map_ok_def sel u)
  have socks: "socks_ok r'"
  proof -
    have "inj_on (\<lambda>j. rc_sock (rl_conns r ! j)) (used_set r - {i})"
      using inv by (auto simp: relay_inv_at_def socks_ok_def intro: inj_on_subset)
    then show ?thesis unfolding socks_ok_def u by (rule iffD1 [OF inj_on_cong, rotated]) (simp add: nth)
  qed
  have sids: "used_sids r' \<subseteq> used_sids r" unfolding used_sids_def u using nth by auto
  have sess: "sess_ok r'" using inv sids unfolding relay_inv_at_def sess_ok_def sel by blast
  have tun: "tun_ok r'" using inv loop fd(2) unfolding relay_inv_at_def tun_ok_def sel by auto
  have cap: "cap_ok r'"
  proof (cases "ro_public_listen_fd (rl_opt r) \<ge> 0")
    case True
    have co: "cap_ok r" using inv by (simp add: relay_inv_at_def)
    have u3: "used_set r3 = used_set r - {i}" using u used_cong [of r' r3] by (simp add: r'_def)
    have s3: "rl_nactive r3 = rl_nactive r" "rl_opt r3 = rl_opt r" "rl_listen_paused r3 = rl_listen_paused r"
      "rl_loop r3 (ro_public_listen_fd (rl_opt r)) = rl_loop r (ro_public_listen_fd (rl_opt r))"
      using fd(3) by (simp_all add: r3_def r0_def os_do_def evloop_del_def)
    have "card (used_set r) = Suc (card (used_set r3))"
      unfolding u3 by (rule card.remove [OF _ iu]) (simp add: used_set_def)
    then show ?thesis unfolding r'_def by (intro resume_cap) (use co True in \<open>auto simp: s3 cap_ok_def Let_def\<close>)
  next
    case False
    then have "cap_ok r" "\<not> rl_listen_paused r" using inv by (auto simp: relay_inv_at_def cap_ok_def Let_def)
    then show ?thesis using False
      by (simp add: cap_ok_def r'_def conn_resume_def r3_def r0_def os_do_def evloop_del_def Let_def)
  qed
  have "conn_fine E r' j" if j: "j < length (rl_conns r)" for j
  proof (cases "j = i")
    case True
    then show ?thesis using i(1) nu by (simp add: conn_fine_def Let_def sel c'_def)
  next
    case False
    have fj: "conn_fine (insert i E) r j" by (rule inv_fine [OF inv j])
    have ne: "rc_sock (rl_conns r ! j) \<noteq> fd" "rc_sock (rl_conns r ! j) \<noteq> ro_public_listen_fd (rl_opt r)" if "rc_used (rl_conns r ! j)"
      using inv fj that j False i by (auto simp: relay_inv_at_def socks_ok_def inj_on_def used_set_def fd_def c_def conn_fine_def Let_def)
    show ?thesis by (rule fine_carry [OF fj]) (use False ne loop nth in \<open>auto simp: sel\<close>)
  qed
  moreover have "dirty_ok r'" using inv by (simp add: relay_inv_at_def dirty_ok_def sel)
  ultimately have "relay_inv_at E r'" using inv slab map socks sess tun cap by (simp add: relay_inv_at_def sel)
  moreover have "calmly r r'" by (simp add: calmly_def sel)
  ultimately show ?thesis using res u sel by (auto simp: fd_def c_def)
qed

lemma conn_destroy_safe:
  assumes inv: "relay_inv_at (insert i E) r" and i: "i < length (rl_conns r)"
  shows "rsafe E r (conn_destroy r i)"
proof (cases "rc_used (rl_conns r ! i)")
  case True
  from conn_destroy_spec [OF inv i True] show ?thesis by (auto simp: rsafe_def)
next
  case False
  then show ?thesis using inv_unused [OF inv] i by (simp add: conn_destroy_def conn_get_lt rsafe_def)
qed

lemma maybe_finish_safe:
  assumes "relay_inv_at E r" "i < length (rl_conns r)" shows "rsafe E r (conn_maybe_finish r i)"
  using conn_destroy_safe [OF relay_inv_mono [OF assms(1)] assms(2)] assms
  by (simp add: conn_maybe_finish_def conn_get_lt rsafe_Some subset_insertI)


section \<open>Opening a connection\<close>

lemma grow_cap_pow2_exact: "a \<le> b \<Longrightarrow> grow_cap (2 ^ a) (2 ^ b) = 2 ^ b"
proof (induction "b - a" arbitrary: a)
  case 0
  then show ?case by (simp add: grow_cap.simps)
next
  case (Suc d)
  then have "a < b" by linarith
  then have lt: "(2 :: nat) ^ a < 2 ^ b" by simp
  have "grow_cap (2 ^ Suc a) (2 ^ b) = 2 ^ b" using Suc(1) [of "Suc a"] Suc(2) \<open>a < b\<close> by simp
  then show ?case using lt by (subst grow_cap.simps) (simp add: mult.commute)
qed

lemma pow2_ceil_pow2: "4 \<le> k \<Longrightarrow> pow2_ceil (2 ^ k) = 2 ^ k"
  using grow_cap_pow2_exact [of 4 k] by (simp add: pow2_ceil_def)

text \<open>Room in the map for one more slot: at most three quarters full, by doubling once.\<close>

lemma sidmap_room_spec:
  assumes inv: "sidmap_inv (rl_conns r) (rl_sidmap r)" and mem: "rl_mem r = []"
    and hw: "hw = 0 \<or> hw * 4 < length (rl_sidmap r) * 3" "idx \<le> hw"
  shows "\<exists>m. sidmap_room r idx = Some (True, r\<lparr>rl_sidmap := m\<rparr>) \<and> sidmap_inv (rl_conns r) m \<and> slots m = slots (rl_sidmap r) \<and>
    m \<noteq> [] \<and> length (rl_sidmap r) \<le> length m \<and> Suc idx * 4 < length m * 3"
proof (cases "rl_sidmap r = [] \<or> length (rl_sidmap r) * 3 \<le> (idx + 1) * 4")
  case True
  let ?L = "length (rl_sidmap r)"
  define nc where "nc = pow2_ceil (if ?L \<noteq> 0 then ?L * 2 else 64)"
  have pow: "?L = 0 \<or> (\<exists>k \<ge> 6. ?L = 2 ^ k)" using inv by (auto simp: sidmap_inv_def)
  have "\<exists>k \<ge> 6. nc = 2 ^ k \<and> nc = (if ?L \<noteq> 0 then ?L * 2 else 64)"
  proof (cases "?L = 0")
    case True
    then show ?thesis using pow2_ceil_pow2 [of 6] by (intro exI [of _ 6]) (simp add: nc_def)
  next
    case False
    then obtain k where k: "6 \<le> k" "?L = 2 ^ k" using pow by blast
    then show ?thesis using pow2_ceil_pow2 [of "Suc k"] False by (intro exI [of _ "Suc k"]) (simp add: nc_def mult.commute)
  qed
  then obtain k where k: "6 \<le> k" "nc = 2 ^ k" "nc = (if ?L \<noteq> 0 then ?L * 2 else 64)" by blast
  obtain nm where nm: "sidmap_rehash (rl_conns r) (replicate nc 0) (rl_sidmap r) = Some nm" "sidmap_inv (rl_conns r) nm"
    "slots nm = slots (rl_sidmap r)" "length nm = nc"
    using sidmap_rehash_spec [OF inv k(2,1)] k(3) by (auto split: if_splits)
  have "rl_mem (r\<lparr>rl_sidmap := nm\<rparr>) = []" using mem by simp
  then have "sidmap_room r idx = Some (True, r\<lparr>rl_sidmap := nm\<rparr>)"
    using True nm(1) mem unfolding nc_def by (cases r) (auto simp: sidmap_room_def Let_def)
  moreover have "64 \<le> nc" using power_increasing [OF k(1), of "2 :: nat"] k(2) by simp
  then have "Suc idx * 4 < nc * 3" "nm \<noteq> []" "?L \<le> nc" using hw k(3) nm(4) by (auto split: if_splits)
  ultimately show ?thesis using nm by auto
next
  case False
  then have "sidmap_room r idx = Some (True, r\<lparr>rl_sidmap := rl_sidmap r\<rparr>)" by (auto simp: sidmap_room_def Let_def)
  then show ?thesis using inv False by (intro exI [of _ "rl_sidmap r"]) auto
qed

lemma conn_alloc_spec:
  assumes s: "slab_ok r" and mem: "rl_mem r = []"
  obtains idx cs fr hw rel where "conn_alloc r = Some (Some idx, r\<lparr>rl_conns := cs, rl_free := fr\<rparr>)" "idx \<notin> used_set r" "idx < length cs"
    "length (rl_conns r) \<le> length cs" "cs ! idx = conn_clear\<lparr>rc_used := True, rc_sock := - 1, rc_cur := None\<rparr>"
    "\<forall>j < length cs. j \<noteq> idx \<longrightarrow> cs ! j = (if j < length (rl_conns r) then rl_conns r ! j else conn_clear)"
    "hw \<le> length cs" "fr = rel @ [hw..<length cs]" "distinct rel" "set rel \<subseteq> {..<hw}" "insert idx (used_set r) = {..<hw} - set rel" "idx < hw"
    "\<exists>h. (h = 0 \<or> h * 4 < length (rl_sidmap r) * 3) \<and> idx \<le> h \<and> (hw = h \<or> hw = Suc h \<and> idx = h)"
proof -
  let ?n = "length (rl_conns r)" and ?new = "conn_clear\<lparr>rc_used := True, rc_sock := - 1, rc_cur := None\<rparr>"
  obtain hw rel where h: "hw \<le> ?n" "rl_free r = rel @ [hw..<?n]" "distinct rel" "set rel \<subseteq> {..<hw}"
    "used_set r = {..<hw} - set rel" "hw = 0 \<or> hw * 4 < length (rl_sidmap r) * 3" using s by (auto simp: slab_ok_def)
  have mr: "r\<lparr>rl_mem := []\<rparr> = r" using mem by (cases r) simp
  show thesis
  proof (cases rel)
    case (Cons idx rel')
    let ?cs = "(rl_conns r)[idx := ?new]"
    have idx: "idx < hw" using h(4) Cons by simp
    have res: "conn_alloc r = Some (Some idx, r\<lparr>rl_conns := ?cs, rl_free := rel' @ [hw..<?n]\<rparr>)"
      using h(2) Cons by (cases r) (simp add: conn_alloc_def Let_def)
    show thesis
      by (rule that [OF res, of hw rel']) (use h idx Cons in \<open>auto\<close>)
  next
    case Nil
    define n' where "n' = (if hw = ?n then if ?n \<noteq> 0 then ?n * 2 else 64 else ?n)"
    let ?cs = "(rl_conns r @ replicate (n' - ?n) conn_clear)[hw := ?new]"
    have n': "?n \<le> n'" "hw < n'" using h(1) by (auto simp: n'_def)
    have up: "[hw..<n'] = hw # [Suc hw..<n']" using n'(2) by (rule upt_conv_Cons)
    have res: "conn_alloc r = Some (Some hw, r\<lparr>rl_conns := ?cs, rl_free := [Suc hw..<n']\<rparr>)"
    proof (cases "hw = ?n")
      case True
      then show ?thesis using h(2) Nil mem up unfolding n'_def by (cases r) (auto simp: conn_alloc_def Let_def)
    next
      case False
      then have "n' = ?n" by (simp add: n'_def)
      then show ?thesis using h(1,2) Nil up False by (cases r) (auto simp: conn_alloc_def Let_def)
    qed
    have len: "length ?cs = n'" using n'(1) by simp
    have u: "used_set r = {..<hw}" using h(5) Nil by simp
    show thesis
    proof (rule that [OF res, of "Suc hw" "[]"])
      show "\<forall>j < length ?cs. j \<noteq> hw \<longrightarrow> ?cs ! j = (if j < ?n then rl_conns r ! j else conn_clear)"
        using len n' by (simp add: nth_append)
      show "\<exists>h. (h = 0 \<or> h * 4 < length (rl_sidmap r) * 3) \<and> hw \<le> h \<and> (Suc hw = h \<or> Suc hw = Suc h \<and> hw = h)"
        by (rule exI [of _ hw]) (use h(6) in simp)
      show "?cs ! hw = ?new" using n' by simp
      show "hw \<notin> used_set r" "insert hw (used_set r) = {..<Suc hw} - set []" "hw < Suc hw" using u by (simp_all add: lessThan_Suc)
    qed (use n' len in simp_all)
  qed
qed


lemma new_fd_free:
  assumes "0 \<le> new_fd r fd"
  shows "0 \<le> fd" "fd \<noteq> rl_tunnel_fd r" "fd \<noteq> ro_public_listen_fd (rl_opt r)" "\<And>i. i \<in> used_set r \<Longrightarrow> rc_sock (rl_conns r ! i) \<noteq> fd"
    "new_fd r fd = fd"
proof -
  have "\<not> (fd = rl_tunnel_fd r \<or> fd = ro_public_listen_fd (rl_opt r) \<or> (\<exists>c \<in> set (rl_conns r). rc_used c \<and> rc_sock c = fd)) \<and> 0 \<le> fd"
    using assms by (auto simp: new_fd_def split: if_splits)
  then show "0 \<le> fd" "fd \<noteq> rl_tunnel_fd r" "fd \<noteq> ro_public_listen_fd (rl_opt r)" "\<And>i. i \<in> used_set r \<Longrightarrow> rc_sock (rl_conns r ! i) \<noteq> fd"
    "new_fd r fd = fd"
    by (auto simp: used_set_def new_fd_def)
qed

text \<open>
  A slot taken, filled and entered in the map. What is left of the invariant is the accept
  counter, the session's word that the id is new, and the registration.
\<close>

lemma open_slot:
  assumes inv: "relay_inv r" and fresh: "sid \<notin> used_sids r" and fd: "0 \<le> new_fd r fd"
    and f: "f (conn_clear\<lparr>rc_used := True, rc_sock := - 1, rc_cur := None\<rparr>) =
      conn_clear\<lparr>rc_used := True, rc_sock := fd, rc_cur := None, rc_sid := sid, rc_connecting := b\<rparr>"
  obtains idx r1 r2 where "conn_alloc r = Some (Some idx, r1)" "sidmap_set (upd_conn_at r1 idx f) sid idx = Some r2"
    "idx \<notin> used_set r" "used_set r2 = insert idx (used_set r)" "used_sids r2 = insert sid (used_sids r)" "calmly r r2" "rl_mux r2 = rl_mux r"
    "rl_nactive r2 = rl_nactive r" "rl_listen_paused r2 = rl_listen_paused r" "rl_loop r2 = rl_loop r" "rl_opt r2 = rl_opt r"
    "\<forall>n. cap_ok (r2\<lparr>rl_nactive := n\<rparr>) \<longrightarrow> sess_ok (r2\<lparr>rl_nactive := n\<rparr>) \<longrightarrow>
       rsafe {} (r2\<lparr>rl_nactive := n\<rparr>) (conn_apply_interest (r2\<lparr>rl_nactive := n\<rparr>) idx)"
proof -
  let ?c = "conn_clear\<lparr>rc_used := True, rc_sock := fd, rc_cur := None, rc_sid := sid, rc_connecting := b\<rparr>"
  have p: "slab_ok r" "rl_mem r = []" "sidmap_inv (rl_conns r) (rl_sidmap r)" "slots (rl_sidmap r) = used_set r" "socks_ok r" "dirty_ok r" "tun_ok r"
    using inv by (simp_all add: relay_inv_at_def map_ok_def)
  obtain idx cs fr hw rel where a: "conn_alloc r = Some (Some idx, r\<lparr>rl_conns := cs, rl_free := fr\<rparr>)" "idx \<notin> used_set r" "idx < length cs"
    "length (rl_conns r) \<le> length cs" "cs ! idx = conn_clear\<lparr>rc_used := True, rc_sock := - 1, rc_cur := None\<rparr>"
    and cs: "\<forall>j < length cs. j \<noteq> idx \<longrightarrow> cs ! j = (if j < length (rl_conns r) then rl_conns r ! j else conn_clear)"
    and hw: "hw \<le> length cs" "fr = rel @ [hw..<length cs]" "distinct rel" "set rel \<subseteq> {..<hw}" "insert idx (used_set r) = {..<hw} - set rel" "idx < hw"
    "\<exists>h. (h = 0 \<or> h * 4 < length (rl_sidmap r) * 3) \<and> idx \<le> h \<and> (hw = h \<or> hw = Suc h \<and> idx = h)"
    by (rule conn_alloc_spec [OF p(1,2)])
  define r1 where "r1 = r\<lparr>rl_conns := cs[idx := ?c], rl_free := fr\<rparr>"
  have up: "upd_conn_at (r\<lparr>rl_conns := cs, rl_free := fr\<rparr>) idx f = r1" using a(5) f by (simp add: upd_conn_at_def r1_def)
  have nth: "rl_conns r1 ! j = (if j = idx then ?c else if j < length (rl_conns r) then rl_conns r ! j else conn_clear)" if "j < length cs" for j
    using that cs a(3) by (simp add: r1_def)
  have ul: "j < length (rl_conns r)" if "j \<in> used_set r" for j using that by (simp add: used_set_def)
  have old: "rl_conns r1 ! j = rl_conns r ! j" if "j \<in> used_set r" for j
    using nth [of j] ul [OF that] a(2,4) that by auto
  have us: "rc_used (rl_conns r1 ! j) \<longleftrightarrow> j = idx \<or> j \<in> used_set r" if "j < length cs" for j
    unfolding nth [OF that] by (simp add: used_set_def conn_clear_def)
  have "length (rl_conns r1) = length cs" by (simp add: r1_def)
  then have u1: "used_set r1 = insert idx (used_set r)"
    using us a(3,4) ul unfolding used_set_def [of r1] by fastforce
  have "sidmap_inv (rl_conns r1) (rl_sidmap r1)"
    using sidmap_inv_cong [OF _ _ p(3), of "rl_conns r1"] old p(4) a(4) by (simp add: r1_def)
  moreover obtain h where h: "h = 0 \<or> h * 4 < length (rl_sidmap r) * 3" "idx \<le> h" "hw = h \<or> hw = Suc h \<and> idx = h" using hw(7) by blast
  ultimately obtain m where m: "sidmap_room r1 idx = Some (True, r1\<lparr>rl_sidmap := m\<rparr>)" "sidmap_inv (rl_conns r1) m"
    "slots m = used_set r" "m \<noteq> []" "length (rl_sidmap r) \<le> length m" "Suc idx * 4 < length m * 3"
    using sidmap_room_spec [of r1 h idx] p(2,4) by (auto simp: r1_def)
  have load: "hw * 4 < length m * 3" using h m(5,6) by auto
  have "card (insert idx (used_set r)) \<le> card {..<hw}" unfolding hw(5) by (rule card_mono) auto
  moreover have fin: "finite (used_set r)" by (simp add: used_set_def)
  ultimately have room: "Suc (card (slots m)) < length m" using load a(2) m(3) by simp
  have sidx: "rc_sid (rl_conns r1 ! idx) = sid" using nth a(3) by simp
  have "rc_sid (rl_conns r ! j) \<noteq> sid" if "j \<in> used_set r" for j using fresh that by (auto simp: used_sids_def)
  then have new: "\<forall>j \<in> slots m. rc_sid (rl_conns r1 ! j) \<noteq> rc_sid (rl_conns r1 ! idx)"
    unfolding sidx m(3) using old by simp
  obtain k where k: "sid_free_slot m (sid_mix sid (length m - 1)) (length m) = Some k"
    "sidmap_inv (rl_conns r1) (m[k := Suc idx])" "slots (m[k := Suc idx]) = insert idx (used_set r)"
    using sidmap_store_spec [OF m(2,4) room _ _ new] a(2,3) m(3) sidx by (auto simp: r1_def)
  define r2 where "r2 = r1\<lparr>rl_sidmap := m[k := Suc idx]\<rparr>"
  have set: "sidmap_set r1 sid idx = Some r2" using m(1) k(1) by (simp add: sidmap_set_def r2_def)
  have c2: "rl_conns r2 = rl_conns r1" "length (rl_conns r1) = length cs" by (simp_all add: r2_def r1_def)
  have u2: "used_set r2 = insert idx (used_set r)" "used_sids r2 = insert sid (used_sids r)"
    using used_cong [OF c2(1)] u1 sidx old by (simp_all add: used_sids_def c2 cong: image_cong)
  have slab: "slab_ok r2"
    unfolding slab_ok_def u2
    by (rule exI [of _ hw], rule exI [of _ rel]) (use hw load in \<open>simp add: r2_def r1_def\<close>)
  have map: "map_ok r2" using k by (simp add: map_ok_def u2 c2) (simp add: r2_def)
  note fdf = new_fd_free [OF fd]
  have socks: "socks_ok r2"
    using p(5) old nth [OF a(3)] fdf(4) a(2) unfolding socks_ok_def u2 c2 by (auto simp: inj_on_def)
  have dirty: "dirty_ok r2" using p(6) a(4) by (auto simp: dirty_ok_def r2_def r1_def)
  have tun: "tun_ok r2" using p(7) by (simp add: tun_ok_def r2_def r1_def)
  have fine: "conn_fine {} r2 j" if j: "j < length cs" "j \<noteq> idx" for j
  proof (cases "j < length (rl_conns r)")
    case True
    then show ?thesis using nth [OF j(1)] j(2) by (intro fine_carry [OF inv_fine [OF inv True]]) (auto simp: r2_def r1_def)
  next
    case False
    then show ?thesis using nth [OF j(1)] j(2) by (simp add: conn_fine_def c2 conn_clear_def)
  qed
  have cidx: "rl_conns r2 ! idx = ?c" using nth [OF a(3)] c2 by simp
  have reg: "rsafe {} (r2\<lparr>rl_nactive := n\<rparr>) (conn_apply_interest (r2\<lparr>rl_nactive := n\<rparr>) idx)"
    if n: "cap_ok (r2\<lparr>rl_nactive := n\<rparr>)" "sess_ok (r2\<lparr>rl_nactive := n\<rparr>)" for n
  proof -
    let ?r = "r2\<lparr>rl_nactive := n\<rparr>"
    have q: "slab_ok ?r = slab_ok r2" "map_ok ?r = map_ok r2" "socks_ok ?r = socks_ok r2" "dirty_ok ?r = dirty_ok r2" "tun_ok ?r = tun_ok r2"
      by (rule slab_cong map_cong socks_cong dirty_cong tun_cong; simp)+
    have "\<exists>r'. conn_apply_interest ?r idx = Some r' \<and> relay_inv_at {} r' \<and> calmly ?r r' \<and> rl_dirty r' = rl_dirty ?r \<and>
        rl_conns r' = (rl_conns ?r)[idx := ?c\<lparr>rc_cur := Some (conn_desired ?c)\<rparr>] \<and> rl_os r' = rl_os ?r \<and> rl_nactive r' = rl_nactive ?r"
    proof (rule apply_interest_any [of ?r idx "{}" ?c])
      show "conn_fine {} ?r j" if "j < length (rl_conns ?r)" "j \<noteq> idx" for j
        using fine [of j] that c2 fine_cong [of ?r r2 "{}" j] by simp
    qed (use q slab map socks dirty tun n p(2) cidx a(3) c2(2) fdf(1-3) in \<open>simp_all add: c2\<close>, simp_all add: r2_def r1_def conn_clear_def)
    then show "rsafe {} ?r (conn_apply_interest ?r idx)" by (auto simp: rsafe_def)
  qed
  show thesis
    by (rule that [OF a(1), folded up, unfolded up, OF set a(2) u2]) (simp_all add: reg, simp_all add: r2_def r1_def calmly_def a(4))
qed

end
