(* ===== verification/Mux_Relay_Flow.thy ===== *)
theory Mux_Relay_Flow
  imports Mux_Relay_Safe
begin

text \<open>
  The data paths of the relay: what the loops between a socket and a stream move and credit,
  and that the handlers built from them return and keep the invariant.
\<close>

section \<open>From the session to a socket\<close>

text \<open>
  The socket takes a prefix of the buffer; the session is credited for the stream, call by
  call, with the bytes taken and nothing else.
\<close>

lemma drain_sock_spec:
  assumes "drain_sock s sid b ws sent = (ok, s', b', ws', sent')" "buf_inv b"
  shows "\<exists>taken ks. sent' = sent @ taken \<and> buf_bytes b = taken @ buf_bytes b' \<and> buf_inv b' \<and> sum_list ks = length taken \<and>
    s' = fold (\<lambda>k s. snd (mux_consume s sid (of_nat k))) ks s \<and> 0 \<notin> set ks"
  using assms
proof (induction s sid b ws sent rule: drain_sock.induct)
  case (2 s sid b w ws sent)
  note prems = 2(2,3)
  show ?case
  proof (cases "\<exists>n. w = WrOk n \<and> 0 < min n (buf_avail b)")
    case True
    then obtain n where n: "w = WrOk n" "0 < min n (buf_avail b)" by blast
    let ?k = "min n (buf_avail b)"
    note cons = buf_consume_spec [OF prems(2), of ?k]
    obtain taken ks where t: "sent' = (sent @ take ?k (buf_bytes b)) @ taken" "buf_bytes (buf_consume b ?k) = taken @ buf_bytes b'" "buf_inv b'"
      "sum_list ks = length taken" "s' = fold (\<lambda>k s. snd (mux_consume s sid (of_nat k))) ks (snd (mux_consume s sid (of_nat ?k)))" "0 \<notin> set ks"
      using 2(1) [OF _ n(1) refl n(2)] prems n cons by (auto simp: Let_def)
    have "buf_bytes b = (take ?k (buf_bytes b) @ taken) @ buf_bytes b'"
      using cons t(2) append_take_drop_id [of ?k "buf_bytes b"] by (metis append.assoc)
    moreover have "length (take ?k (buf_bytes b)) = ?k" using prems(2) by simp
    ultimately show ?thesis
      using t n(2) by (intro exI [of _ "take ?k (buf_bytes b) @ taken"] exI [of _ "?k # ks"]) auto
  next
    case False
    then have "s' = s \<and> sent' = sent \<and> b' = b" using prems(1) by (cases w) (auto simp: Let_def split: if_splits)
    then show ?thesis using prems(2) by (intro exI [of _ "[]"]) simp
  qed
qed (auto intro!: exI [of _ "[]"])

lemma credits_out: "mux_out (Some s) (Some (fold (\<lambda>k s. snd (mux_consume s sid (of_nat k))) ks s))"
proof (induction ks arbitrary: s)
  case (Cons k ks)
  show ?case using mux_out_trans [OF mux_calls_out(1) Cons.IH] by simp
qed simp

lemma inv_broken:
  assumes inv: "relay_inv_at (insert i E) r" and i: "rc_used (rl_conns r ! i)"
  shows "relay_inv_at E (os_do r (WriteFailed (rc_sock (rl_conns r ! i))))"
proof -
  let ?r = "os_do r (WriteFailed (rc_sock (rl_conns r ! i)))"
  have 1: "relay_inv_at (insert i E) ?r" by (rule inv_log [OF inv]) simp
  have "conn_fine E ?r j" if "j < length (rl_conns ?r)" for j
    using inv_fine [OF 1 that] i by (cases "j = i") (auto simp: conn_fine_def Let_def)
  then show ?thesis using 1 by (simp add: relay_inv_at_def)
qed

lemma flush_to_socket_spec:
  assumes inv: "relay_inv_at (insert i E) r" and i: "i < length (rl_conns r)" "rc_used (rl_conns r ! i)"
    and d: "drain_sock (rl_mux r) (rc_sid (rl_conns r ! i)) (rc_m2s (rl_conns r ! i)) (os_writes (rl_os r)) [] = (ok, s, b, ws, sent)"
  shows "\<exists>r' c'. flush_to_socket r i = Some (ok, r') \<and> relay_inv_at E r' \<and> calmly r r' \<and> rl_conns r' = (rl_conns r)[i := c'] \<and>
    rc_used c' \<and> rc_m2s c' = b \<and> rl_mux r' = s"
proof -
  define c where "c = rl_conns r ! i"
  define r1 where "r1 = upd_conn_at (r\<lparr>rl_mux := s, rl_os := (rl_os r)\<lparr>os_writes := ws\<rparr>\<rparr>) i (\<lambda>c. c\<lparr>rc_m2s := b\<rparr>)"
  define r2 where "r2 = os_do r1 (Written (rc_sock c) sent)"
  have bi: "buf_inv (rc_m2s c)" using inv_fine [OF inv i(1)] by (simp add: conn_fine_def Let_def c_def)
  obtain ks where ks: "buf_inv b" "s = fold (\<lambda>k s. snd (mux_consume s (rc_sid c) (of_nat k))) ks (rl_mux r)"
    using drain_sock_spec [OF d] bi by (auto simp: c_def)
  have out: "mux_out (Some (rl_mux r)) (Some s)" unfolding ks(2) by (rule credits_out)
  have "relay_inv_at (insert i E) (r\<lparr>rl_mux := s\<rparr>)" by (rule inv_out [OF inv out])
  then have "relay_inv_at (insert i E) (r\<lparr>rl_mux := s, rl_os := (rl_os r)\<lparr>os_writes := ws\<rparr>\<rparr>)"
    using inv_os [of "r\<lparr>rl_mux := s\<rparr>" "(rl_os r)\<lparr>os_writes := ws\<rparr>"] by simp
  then have 1: "relay_inv_at (insert i E) r1"
    unfolding r1_def by (rule inv_soft_in) (simp add: soft_def same_id_def ks)
  have 2: "relay_inv_at (insert i E) r2" unfolding r2_def by (rule inv_log [OF 1]) simp
  have c2: "rl_conns r2 = (rl_conns r)[i := c\<lparr>rc_m2s := b\<rparr>]" by (simp add: r2_def r1_def c_def)
  have m2: "calmly r r2" "rl_mux r2 = s" using out by (simp_all add: r2_def r1_def calmly_def)
  show ?thesis
  proof (cases ok)
    case False
    then have "flush_to_socket r i = Some (False, os_do r2 (WriteFailed (rc_sock c)))"
      using i d by (simp add: flush_to_socket_def conn_get_lt r2_def r1_def c_def Let_def)
    moreover have "relay_inv_at E (os_do r2 (WriteFailed (rc_sock c)))"
      using inv_broken [OF 2] i c2 by (simp add: c_def)
    ultimately show ?thesis
      using False m2 c2 i by (intro exI [of _ "os_do r2 (WriteFailed (rc_sock c))"] exI [of _ "c\<lparr>rc_m2s := b\<rparr>"]) (simp add: c_def)
  next
    case True
    define r3 where "r3 = (if rc_stream_fin c \<and> buf_avail b = 0 \<and> \<not> rc_sock_eof c then os_do r2 (ShutWr (rc_sock c)) else r2)"
    have 3: "relay_inv_at (insert i E) r3" unfolding r3_def using 2 inv_log [OF 2] by simp
    have c3: "rl_conns r3 = rl_conns r2" "calmly r r3" "rl_mux r3 = s" using m2 by (simp_all add: r3_def)
    obtain r' where r': "mark_dirty r3 i = Some r'" "relay_inv_at E r'" "calmly r3 r'" "rl_mux r' = rl_mux r3"
      "rl_conns r' = (rl_conns r3)[i := (rl_conns r3 ! i)\<lparr>rc_in_dirty := True\<rparr>]"
      using mark_dirty_spec [OF 3] c3 c2 i by (auto simp: c_def)
    have "flush_to_socket r i = (mark_dirty r3 i \<bind> (\<lambda>r. Some (True, r)))"
      using i d True by (simp add: flush_to_socket_def conn_get_lt r3_def r2_def r1_def c_def Let_def)
    then show ?thesis
      using True r' c3 c2 i calmly_trans [OF c3(2) r'(3)]
      by (intro exI [of _ r'] exI [of _ "c\<lparr>rc_m2s := b, rc_in_dirty := True\<rparr>"]) (simp add: c_def)
  qed
qed

lemma flush_to_socket_safe:
  assumes "relay_inv_at (insert i E) r" "i < length (rl_conns r)" "rc_used (rl_conns r ! i)"
  shows "\<exists>ok r'. flush_to_socket r i = Some (ok, r') \<and> relay_inv_at E r' \<and> calmly r r' \<and> length (rl_conns r') = length (rl_conns r) \<and>
    rc_used (rl_conns r' ! i)"
proof -
  obtain ok s b ws sent where d:
    "drain_sock (rl_mux r) (rc_sid (rl_conns r ! i)) (rc_m2s (rl_conns r ! i)) (os_writes (rl_os r)) [] = (ok, s, b, ws, sent)"
    by (metis prod_cases5)
  from flush_to_socket_spec [OF assms d] show ?thesis using assms(2) by auto
qed

section \<open>From a socket to the session\<close>

text \<open>The stream takes a prefix of the buffer; the loop ends.\<close>

lemma drain_mux_spec:
  assumes "drain_mux s sid b = (emptied, s', b')" "buf_inv b"
  shows "buf_inv b' \<and> mux_out (Some s) (Some s') \<and> (\<exists>taken. buf_bytes b = taken @ buf_bytes b') \<and> (emptied \<longleftrightarrow> buf_avail b' = 0)"
  using assms
proof (induction s sid b rule: drain_mux.induct)
  case (1 s sid b)
  show ?case
  proof (cases "buf_avail b = 0")
    case True
    then show ?thesis using 1(2,3) by (simp add: drain_mux.simps [of s sid b])
  next
    case False
    obtain x t where w: "mux_write s sid (Some (buf_bytes b)) (buf_avail b) = (x, t)" by fastforce
    have out: "mux_out (Some s) (Some t)" using mux_write_out [OF w] 1(3) by simp
    show ?thesis
    proof (cases "\<exists>n. x = Inr n \<and> 0 < n")
      case True
      then obtain n where n: "x = Inr n" "0 < n" by blast
      note cons = buf_consume_spec [OF 1(3), of n]
      have pre: "buf_bytes b = take n (buf_bytes b) @ buf_bytes (buf_consume b n)" using cons by simp
      show ?thesis
      proof (cases "n < buf_avail (buf_consume b n)")
        case True
        then have "s' = t" "b' = buf_consume b n" "\<not> emptied"
          using 1(2) n w False by (auto simp: drain_mux.simps [of s sid b] Let_def)
        then show ?thesis using out cons pre True by (intro conjI exI [of _ "take n (buf_bytes b)"]) simp_all
      next
        case no: False
        have rest: "drain_mux t sid (buf_consume b n) = (emptied, s', b')"
          using 1(2) n w False no by (simp add: drain_mux.simps [of s sid b] Let_def)
        have "buf_inv b' \<and> mux_out (Some t) (Some s') \<and> (\<exists>taken. buf_bytes (buf_consume b n) = taken @ buf_bytes b') \<and>
            (emptied \<longleftrightarrow> buf_avail b' = 0)"
          by (rule 1(1) [OF _ w [symmetric] n(1) _ _ _ rest]) (use False n no cons in auto)
        then show ?thesis using mux_out_trans [OF out] pre by (metis append.assoc)
      qed
    next
      case no: False
      then have "s' = t" "b' = b" "\<not> emptied" using 1(2) w False
        by (cases x; auto simp: drain_mux.simps [of s sid b] Let_def)+
      then show ?thesis using out 1(3) False by auto
    qed
  qed
qed


lemma close_if:
  assumes "relay_inv_at E r" "calmly r0 r"
  shows "relay_inv_at E (if b then r\<lparr>rl_mux := snd (mux_close (rl_mux r) sid)\<rparr> else r)"
    "calmly r0 (if b then r\<lparr>rl_mux := snd (mux_close (rl_mux r) sid)\<rparr> else r)"
    "rl_conns (if b then r\<lparr>rl_mux := snd (mux_close (rl_mux r) sid)\<rparr> else r) = rl_conns r"
proof -
  show "relay_inv_at E (if b then r\<lparr>rl_mux := snd (mux_close (rl_mux r) sid)\<rparr> else r)"
    by (cases b) (simp_all only: if_True if_False assms(1) inv_out [OF assms(1) mux_calls_out(2)])
  show "calmly r0 (if b then r\<lparr>rl_mux := snd (mux_close (rl_mux r) sid)\<rparr> else r)"
    by (cases b) (simp_all only: if_True if_False assms(2) calmly_trans [OF assms(2) calm_out [OF mux_calls_out(2)]])
qed simp

lemma flush_to_mux_safe:
  assumes inv: "relay_inv_at E r" and i: "i < length (rl_conns r)" "rc_used (rl_conns r ! i)"
  shows "\<exists>r'. flush_to_mux r i = Some r' \<and> relay_inv_at E r' \<and> calmly r r' \<and> length (rl_conns r') = length (rl_conns r)"
proof -
  define c where "c = rl_conns r ! i"
  obtain emptied s b where d: "drain_mux (rl_mux r) (rc_sid c) (rc_s2m c) = (emptied, s, b)" by (metis prod_cases3)
  have "buf_inv (rc_s2m c)" using inv_fine [OF inv i(1)] by (simp add: conn_fine_def Let_def c_def)
  from drain_mux_spec [OF d this] have b: "buf_inv b" "mux_out (Some (rl_mux r)) (Some s)" by auto
  define r1 where "r1 = upd_conn_at (r\<lparr>rl_mux := s\<rparr>) i (\<lambda>c. c\<lparr>rc_s2m := b, rc_send_blocked := \<not> emptied\<rparr>)"
  define r2 where "r2 = (if emptied \<and> rc_sock_eof c then r1\<lparr>rl_mux := snd (mux_close (rl_mux r1) (rc_sid c))\<rparr> else r1)"
  have 1: "relay_inv_at (insert i E) r1"
    unfolding r1_def by (rule inv_soft [OF inv_out [OF inv b(2)]]) (simp add: soft_def same_id_def b)
  have c1: "calmly r r1" using b(2) by (simp add: r1_def calmly_def)
  have 2: "relay_inv_at (insert i E) r2" "calmly r r2" "rl_conns r2 = rl_conns r1"
    unfolding r2_def by (rule close_if [OF 1 c1])+
  have u: "i < length (rl_conns r2)" "rc_used (rl_conns r2 ! i)" "length (rl_conns r2) = length (rl_conns r)"
    using i by (simp_all add: 2(3) r1_def)
  obtain r' where "mark_dirty r2 i = Some r'" "relay_inv_at E r'" "calmly r2 r'" "length (rl_conns r') = length (rl_conns r2)"
    using mark_dirty_spec [OF 2(1) u(1,2)] by auto
  moreover have "flush_to_mux r i = mark_dirty r2 i"
    using d i(1) by (simp add: flush_to_mux_def conn_get_lt c_def r2_def r1_def Let_def)
  ultimately show ?thesis using calmly_trans [OF 2(2)] u(3) by auto
qed

lemma flush_blocked_safe:
  "relay_inv_at E r \<Longrightarrow> set is \<subseteq> {..<length (rl_conns r)} \<Longrightarrow> rsafe E r (flush_blocked r is)"
proof (induction "is" arbitrary: r)
  case (Cons i "is")
  have i: "i < length (rl_conns r)" using Cons.prems by simp
  show ?case
  proof (cases "rc_used (rl_conns r ! i) \<and> rc_send_blocked (rl_conns r ! i)")
    case True
    then obtain r' where r': "flush_to_mux r i = Some r'" "relay_inv_at E r'" "calmly r r'" "length (rl_conns r') = length (rl_conns r)"
      using flush_to_mux_safe [OF Cons.prems(1) i] by auto
    then show ?thesis using True i Cons.IH [OF r'(2)] Cons.prems(2) rsafe_from [OF _ r'(3)] by (simp add: conn_get_lt)
  qed (use Cons i in \<open>auto simp: conn_get_lt\<close>)
qed (simp add: rsafe_Some)

section \<open>Socket events\<close>

lemma inv_gone: "relay_inv_at E r \<Longrightarrow> relay_inv_at (insert i E) (upd_conn_at r i (\<lambda>c. c\<lparr>rc_gone := True\<rparr>))"
  by (rule inv_soft) (simp_all add: soft_def same_id_def)

lemma conn_drop_safe:
  assumes "relay_inv_at E r" "i < length (rl_conns r)" shows "rsafe E r (conn_drop r i)"
  using rsafe_from [OF conn_destroy_safe [OF inv_gone [OF assms(1)]], of i r] assms(2) by (simp add: conn_drop_def)

lemma inv_os_calls:
  "os_log os = os_log (rl_os r) \<Longrightarrow> relay_inv_at E r \<Longrightarrow> relay_inv_at E (r\<lparr>rl_os := os\<rparr>)"
  by (rule inv_os) simp_all

lemma inv_mem: "relay_inv_at E r \<Longrightarrow> rl_mem r = []"
  by (simp add: relay_inv_at_def)

lemma mux_mem_id: "rl_mem r = [] \<Longrightarrow> r\<lparr>rl_mux := s, rl_mem := []\<rparr> = r\<lparr>rl_mux := s\<rparr>"
  by (cases r) simp

lemma sock_ended_safe:
  assumes inv: "relay_inv_at E r" and i: "i < length (rl_conns r)" "rc_used (rl_conns r ! i)"
  shows "rsafe E r (sock_ended r i)"
proof -
  define c where "c = rl_conns r ! i"
  define r2 where "r2 = upd_conn_at r i (\<lambda>c. c\<lparr>rc_sock_eof := True\<rparr>)"
  define r3 where "r3 = (if buf_avail (rc_s2m c) = 0 then r2\<lparr>rl_mux := snd (mux_close (rl_mux r2) (rc_sid c))\<rparr> else r2)"
  have 2: "relay_inv_at (insert i E) r2" unfolding r2_def by (rule inv_soft [OF inv]) (simp add: soft_def same_id_def)
  have m: "rl_mux r2 = rl_mux r" "calmly r r2" by (simp_all add: r2_def)
  have 3: "relay_inv_at (insert i E) r3" "calmly r r3" "rl_conns r3 = rl_conns r2"
    unfolding r3_def by (rule close_if [OF 2 m(2)])+
  have i3: "i < length (rl_conns r3)" "rc_used (rl_conns r3 ! i)" using i 3(3) by (simp_all add: r2_def)
  obtain r4 where r4: "mark_dirty r3 i = Some r4" "relay_inv_at E r4" "calmly r3 r4" "length (rl_conns r4) = length (rl_conns r3)"
    using mark_dirty_spec [OF 3(1) i3] by auto
  have "rsafe E r4 (conn_maybe_finish r4 i)" using i3(1) r4(4) by (intro maybe_finish_safe [OF r4(2)]) simp
  moreover have "sock_ended r i = (mark_dirty r3 i \<bind> (\<lambda>r. conn_maybe_finish r i))"
    using i(1) by (simp add: sock_ended_def conn_get_lt c_def r3_def r2_def Let_def)
  then have "sock_ended r i = conn_maybe_finish r4 i" using r4(1) by simp
  ultimately show ?thesis using rsafe_from [OF _ calmly_trans [OF 3(2) r4(3)]] by simp
qed

lemma sock_data_safe:
  assumes inv: "relay_inv_at E r" and i: "i < length (rl_conns r)" "rc_used (rl_conns r ! i)"
  shows "\<exists>more r'. sock_data r i tmp = Some (more, r') \<and> relay_inv_at E r' \<and> calmly r r' \<and>
    (more \<longrightarrow> rl_conns r' = rl_conns r \<and> rl_os r' = rl_os r)"
proof -
  define c where "c = rl_conns r ! i"
  obtain w s where w: "mux_write (rl_mux r) (rc_sid c) (Some tmp) (length tmp) = (w, s)" by fastforce
  have out: "mux_out (Some (rl_mux r)) (Some s)" using mux_write_out [OF w] by simp
  note 2 = inv_out [OF inv out] calm_out [OF out]
  have mem: "rl_mem r = []" by (rule inv_mem [OF inv])
  consider (gone) e where "w = Inl e" | (part) n where "w = Inr n" "n < length tmp" | (all) n where "w = Inr n" "\<not> n < length tmp"
    by (cases w) auto
  then show ?thesis
  proof cases
    case gone
    have "rsafe E (r\<lparr>rl_mux := s\<rparr>) (conn_drop (r\<lparr>rl_mux := s\<rparr>) i)" using i(1) by (intro conn_drop_safe [OF 2(1)]) simp
    from rsafe_from [OF this 2(2)] show ?thesis
      using gone w i(1) by (auto simp: rsafe_def sock_data_def conn_get_lt c_def)
  next
    case part
    obtain ok b h where b: "relay_buf_append (rc_s2m c) (drop n tmp) [] = (ok, b, h)" by (metis prod_cases3)
    have "buf_inv (rc_s2m c)" using inv_fine [OF inv i(1)] by (simp add: conn_fine_def Let_def c_def)
    from relay_buf_append_spec [OF this b] have bi: "buf_inv b" "h = []" by simp_all
    define r3 where "r3 = upd_conn_at (r\<lparr>rl_mux := s\<rparr>) i (\<lambda>c. c\<lparr>rc_s2m := b, rc_send_blocked := True\<rparr>)"
    have 3: "relay_inv_at (insert i E) r3" unfolding r3_def by (rule inv_soft [OF 2(1)]) (simp add: soft_def same_id_def bi)
    have "rsafe E r3 (mark_dirty r3 i)" using i by (intro mark_dirty_safe [OF 3]) (simp_all add: r3_def)
    moreover have "calmly r r3" using 2(2) by (simp add: r3_def)
    ultimately have "rsafe E r (mark_dirty r3 i)" using rsafe_from by blast
    moreover have "sock_data r i tmp = (mark_dirty r3 i \<bind> (\<lambda>r. Some (False, r)))"
      using part w i(1) b bi(2) by (simp add: mem mux_mem_id [OF mem] sock_data_def conn_get_lt c_def r3_def)
    ultimately show ?thesis by (auto simp: rsafe_def)
  next
    case all
    then show ?thesis using w i(1) 2 by (auto simp: sock_data_def conn_get_lt c_def)
  qed
qed

lemma read_sock_safe:
  assumes "relay_inv_at E r" "i < length (rl_conns r)" "rc_used (rl_conns r ! i)" "length xs \<le> length (os_reads (rl_os r))"
  shows "rsafe E r (read_sock r i xs)"
  using assms
proof (induction xs arbitrary: r)
  case Nil
  then show ?case using inv_os_calls [of "(rl_os r)\<lparr>os_reads := []\<rparr>" r E] by (auto simp: rsafe_def calmly_def)
next
  case (Cons x xs)
  define r1 where "r1 = r\<lparr>rl_os := (rl_os r)\<lparr>os_reads := xs\<rparr>\<rparr>"
  define tmp where "tmp = (case x of RdData d \<Rightarrow> take 32768 d | _ \<Rightarrow> [])"
  have 1: "relay_inv_at E r1" "calmly r r1" "i < length (rl_conns r1)" "rc_used (rl_conns r1 ! i)" "os_reads (rl_os r1) = xs"
    using inv_os_calls [OF _ Cons.prems(1), of "(rl_os r)\<lparr>os_reads := xs\<rparr>"] Cons.prems by (simp_all add: r1_def calmly_def)
  obtain more r2 where d: "sock_data r1 i tmp = Some (more, r2)" "relay_inv_at E r2" "calmly r1 r2"
    "more \<Longrightarrow> rl_conns r2 = rl_conns r1 \<and> rl_os r2 = rl_os r1"
    using sock_data_safe [OF 1(1,3,4), of tmp] by blast
  have "rsafe E r2 (if more then read_sock r2 i xs else Some r2)"
    using Cons.IH [OF d(2)] d(2,4) 1(3-5) by (simp add: rsafe_Some)
  from rsafe_from [OF this d(3)] have "rsafe E r1 (sock_data r1 i tmp \<bind> (\<lambda>(more, r). if more then read_sock r i xs else Some r))"
    using d(1) by simp
  then have "rsafe E r1 (read_sock r i (x # xs))"
    using 1(1) conn_drop_safe [OF 1(1,3)] sock_ended_safe [OF 1(1,3,4)] rsafe_Some [OF 1(1) calmly_refl]
    by (simp add: Let_def flip: r1_def tmp_def)
  then show ?case using rsafe_from [OF _ 1(2)] by blast
qed

lemma on_sock_readable_safe:
  assumes "relay_inv_at E r" "i < length (rl_conns r)" "rc_used (rl_conns r ! i)" shows "rsafe E r (on_sock_readable r i)"
  using read_sock_safe [OF assms, of "os_reads (rl_os r)"] assms by (simp add: on_sock_readable_def conn_get_lt rsafe_Some)

lemma conn_abort_safe:
  assumes "relay_inv_at E r" "i < length (rl_conns r)" shows "rsafe E r (conn_abort r i)"
proof -
  let ?s = "snd (mux_reset (rl_mux r) (rc_sid (rl_conns r ! i)) MUX_CODE_INTERNAL)"
  have "rsafe E (r\<lparr>rl_mux := ?s\<rparr>) (conn_drop (r\<lparr>rl_mux := ?s\<rparr>) i)"
    using assms(2) by (intro conn_drop_safe [OF inv_out [OF assms(1) mux_calls_out(3)]]) simp
  then show ?thesis
    using assms(2) rsafe_from [OF _ calm_out [OF mux_calls_out(3)]] by (simp add: conn_abort_def conn_get_lt)
qed

end
