(* ===== verification/Mux_Relay_Events.thy ===== *)
theory Mux_Relay_Events
  imports Mux_Relay_Flow
begin

text \<open>
  The handlers of the relay, one lemma each: in every state of the invariant the handler
  returns, in a state of the invariant. Events of a socket, events of the session and the
  loop over them, which ends because no handler adds to the events left, and the two ways a
  connection is opened.
\<close>

section \<open>A socket that can be written\<close>

lemma written_safe:
  assumes inv: "relay_inv_at (insert i E) r" and i: "i < length (rl_conns r)" "rc_used (rl_conns r ! i)"
  shows "rsafe E r (flush_to_socket r i \<bind> (\<lambda>(ok, r). if \<not> ok then conn_abort r i else conn_maybe_finish r i))"
proof -
  obtain ok r' where f: "flush_to_socket r i = Some (ok, r')" "relay_inv_at E r'" "calmly r r'" "length (rl_conns r') = length (rl_conns r)"
    using flush_to_socket_safe [OF assms] by blast
  have "rsafe E r' (conn_abort r' i)" "rsafe E r' (conn_maybe_finish r' i)"
    using conn_abort_safe [OF f(2)] maybe_finish_safe [OF f(2)] i(1) f(4) by simp_all
  then show ?thesis using f(1) rsafe_from [OF _ f(3)] by simp
qed

lemma on_sock_writable_safe:
  assumes inv: "relay_inv_at E r" and i: "i < length (rl_conns r)" "rc_used (rl_conns r ! i)"
  shows "rsafe E r (on_sock_writable r i)"
proof (cases "rc_connecting (rl_conns r ! i)")
  case False
  then show ?thesis using written_safe [OF relay_inv_mono [OF inv] i] i(1) by (auto simp: on_sock_writable_def conn_get_lt)
next
  case True
  define r1 where "r1 = r\<lparr>rl_os := (rl_os r)\<lparr>os_errors := tl (os_errors (rl_os r))\<rparr>\<rparr>"
  define r2 where "r2 = upd_conn_at r1 i (\<lambda>c. c\<lparr>rc_connecting := False\<rparr>)"
  have 1: "relay_inv_at E r1" "calmly r r1" "rl_conns r1 = rl_conns r"
    using inv_os_calls [OF _ inv, of "(rl_os r)\<lparr>os_errors := tl (os_errors (rl_os r))\<rparr>"] by (simp_all add: r1_def calmly_def)
  have 2: "relay_inv_at (insert i E) r2" unfolding r2_def by (rule inv_soft [OF 1(1)]) (simp add: soft_def same_id_def)
  have c2: "calmly r r2" "length (rl_conns r2) = length (rl_conns r)" "rc_used (rl_conns r2 ! i)" using 1 i by (simp_all add: r2_def)
  obtain r3 where m: "mark_dirty r2 i = Some r3" "relay_inv_at E r3" "calmly r2 r3" "length (rl_conns r3) = length (rl_conns r)"
    "rc_used (rl_conns r3 ! i)"
    using mark_dirty_spec [OF 2] c2(2,3) i(1) by auto
  have "rsafe E r3 (flush_to_socket r3 i \<bind> (\<lambda>(ok, r). if \<not> ok then conn_abort r i else conn_maybe_finish r i))"
    using i(1) m(4,5) by (intro written_safe relay_inv_mono [OF m(2)]) auto
  note go = rsafe_from [OF this calmly_trans [OF c2(1) m(3)]]
  have "rsafe E r (conn_abort r1 i)" using rsafe_from [OF conn_abort_safe [OF 1(1)] 1(2)] i(1) 1(3) by simp
  then show ?thesis using go True i(1) m(1) by (simp add: on_sock_writable_def conn_get_lt r1_def [symmetric] r2_def [symmetric])
qed

section \<open>Events of the session\<close>

lemma sidmap_get_used:
  assumes "relay_inv_at E r"
  shows "\<exists>x. sidmap_get r sid = Some x \<and> (\<forall>i. x = Some i \<longrightarrow> i < length (rl_conns r) \<and> rc_used (rl_conns r ! i))"
proof -
  have m: "sidmap_inv (rl_conns r) (rl_sidmap r)" "slots (rl_sidmap r) = used_set r"
    using assms by (simp_all add: relay_inv_at_def map_ok_def)
  have "sidmap_get r sid = Some (sid_lookup (rl_conns r) (rl_sidmap r) sid)"
    using sidmap_get_spec [OF m(1)] m(2) by (simp add: used_set_def)
  moreover have "i \<in> used_set r" if "sid_lookup (rl_conns r) (rl_sidmap r) sid = Some i" for i
    using that sid_lookup_iff(1) [OF m(1)] m(2) by simp
  ultimately show ?thesis by (auto simp: used_set_def)
qed

lemma on_conn_safe:
  assumes inv: "relay_inv_at E r" and f: "\<And>i. i < length (rl_conns r) \<Longrightarrow> rc_used (rl_conns r ! i) \<Longrightarrow> rsafe E r (f i)"
  shows "rsafe E r (sidmap_get r sid \<bind> (\<lambda>x. case x of None \<Rightarrow> Some r | Some i \<Rightarrow> f i))"
  using sidmap_get_used [OF inv, of sid] f rsafe_Some [OF inv calmly_refl] by (auto split: option.splits)

lemma flush_snd_safe:
  assumes "relay_inv_at (insert i E) r" "i < length (rl_conns r)" "rc_used (rl_conns r ! i)"
  shows "\<exists>r'. map_option snd (flush_to_socket r i) = Some r' \<and> relay_inv_at E r' \<and> calmly r r' \<and> length (rl_conns r') = length (rl_conns r)"
  using flush_to_socket_safe [OF assms] by auto

lemma relay_data_safe:
  assumes inv: "relay_inv_at E r" shows "rsafe E r (relay_data r sid data)"
  unfolding relay_data_def
proof (rule on_conn_safe [OF inv])
  fix i assume i: "i < length (rl_conns r)" "rc_used (rl_conns r ! i)"
  define c where "c = rl_conns r ! i"
  obtain ok b h where b: "relay_buf_append (rc_m2s c) (blob data) [] = (ok, b, h)" by (metis prod_cases3)
  have "buf_inv (rc_m2s c)" using inv_fine [OF inv i(1)] by (simp add: conn_fine_def Let_def c_def)
  from relay_buf_append_spec [OF this b] have bi: "buf_inv b" "h = []" by simp_all
  define r1 where "r1 = upd_conn_at r i (\<lambda>c. c\<lparr>rc_m2s := b\<rparr>)"
  have 1: "relay_inv_at (insert i E) r1" unfolding r1_def by (rule inv_soft [OF inv]) (simp add: soft_def same_id_def bi)
  have c1: "calmly r r1" "i < length (rl_conns r1)" "rc_used (rl_conns r1 ! i)" using i by (simp_all add: r1_def)
  have "rsafe E r1 (if \<not> rc_connecting c then map_option snd (flush_to_socket r1 i) else mark_dirty r1 i)"
    using flush_snd_safe [OF 1 c1(2,3)] mark_dirty_safe [OF 1 c1(2,3)] by (auto simp: rsafe_def)
  moreover have mm: "r\<lparr>rl_mem := []\<rparr> = r" using inv_mem [OF inv] by (cases r) simp
  moreover have "rsafe E r (if \<not> rc_connecting c then map_option snd (flush_to_socket r1 i) else mark_dirty r1 i)"
    by (rule rsafe_from [OF _ c1(1)]) fact
  ultimately show "rsafe E r (conn_get r i \<bind> (\<lambda>c. case relay_buf_append (rc_m2s c) (blob data) (rl_mem r) of (ok, b, h) \<Rightarrow>
      let r = upd_conn_at (r\<lparr>rl_mem := h\<rparr>) i (\<lambda>c. c\<lparr>rc_m2s := b\<rparr>)
      in if \<not> rc_connecting c then map_option snd (flush_to_socket r i) else mark_dirty r i))"
    using i(1) b bi(2) inv_mem [OF inv] by (simp only: mm conn_get_lt c_def [symmetric] r1_def [symmetric] Let_def bind.bind_lunit prod.case)
qed

lemma relay_closed_safe:
  assumes inv: "relay_inv_at E r" shows "rsafe E r (relay_closed r sid)"
  unfolding relay_closed_def
proof (rule on_conn_safe [OF inv])
  fix i assume i: "i < length (rl_conns r)" "rc_used (rl_conns r ! i)"
  define r1 where "r1 = upd_conn_at r i (\<lambda>c. c\<lparr>rc_stream_fin := True\<rparr>)"
  have 1: "relay_inv_at E r1" unfolding r1_def by (rule inv_soft_same [OF inv]) (simp_all add: soft_def same_id_def)
  have c1: "calmly r r1" "i < length (rl_conns r1)" "rc_used (rl_conns r1 ! i)" using i by (simp_all add: r1_def)
  let ?go = "if \<not> rc_connecting (rl_conns r ! i) then map_option snd (flush_to_socket r1 i) else Some r1"
  obtain r2 where 2: "?go = Some r2" "relay_inv_at E r2" "calmly r1 r2" "length (rl_conns r2) = length (rl_conns r1)"
    using flush_snd_safe [OF relay_inv_mono [OF 1 subset_insertI] c1(2,3)] 1 by (cases "rc_connecting (rl_conns r ! i)") auto
  have "rsafe E r2 (conn_maybe_finish r2 i)" using c1(2) 2(4) by (intro maybe_finish_safe [OF 2(2)]) simp
  then have "rsafe E r (?go \<bind> (\<lambda>r. conn_maybe_finish r i))"
    using 2(1) rsafe_from [OF _ calmly_trans [OF c1(1) 2(3)]] by simp
  then show "rsafe E r (conn_get r i \<bind> (\<lambda>c. let r = upd_conn_at r i (\<lambda>c. c\<lparr>rc_stream_fin := True\<rparr>)
      in (if \<not> rc_connecting c then map_option snd (flush_to_socket r i) else Some r) \<bind> (\<lambda>r. conn_maybe_finish r i)))"
    using i(1) by (simp only: conn_get_lt r1_def Let_def bind.bind_lunit)
qed

lemma relay_reset_safe: "relay_inv_at E r \<Longrightarrow> rsafe E r (relay_reset r sid)"
  unfolding relay_reset_def by (rule on_conn_safe) (simp_all add: conn_drop_safe)

lemma relay_writable_safe:
  assumes inv: "relay_inv_at E r" shows "rsafe E r (relay_writable r sid)"
proof (cases "sid = MUX_SID_CONTROL")
  case True
  then show ?thesis using flush_blocked_safe [OF inv, of "[0..<length (rl_conns r)]"] by (simp add: relay_writable_def lessThan_atLeast0)
next
  case False
  have "rsafe E r (flush_to_mux r i)" if "i < length (rl_conns r)" "rc_used (rl_conns r ! i)" for i
    using flush_to_mux_safe [OF inv that] by (auto simp: rsafe_def)
  then show ?thesis using on_conn_safe [OF inv] False by (simp add: relay_writable_def)
qed

lemma relay_hello_safe:
  assumes inv: "relay_inv_at E r" shows "rsafe E r (relay_hello r hi)"
proof (cases "ro_token (rl_opt r)")
  case None
  then show ?thesis using inv by (simp add: relay_hello_def rsafe_Some)
next
  case (Some token)
  obtain ok where ok: "hello_authentic (Some token) hi = Some ok" using hello_authentic_total by blast
  let ?r = "r\<lparr>rl_mux := snd (mux_goaway (rl_mux r) MUX_CODE_REFUSED)\<rparr>"
  have "relay_inv_at E ?r" "calmly r ?r"
    by (rule inv_out [OF inv mux_calls_out(4)], rule calm_out [OF mux_calls_out(4)])
  then have "rsafe E r (Some (?r\<lparr>rl_stop := True\<rparr>))" by (intro rsafe_Some) (simp_all add: calmly_def)
  moreover have "rsafe E r (Some (r\<lparr>rl_authed := True\<rparr>))" using inv by (intro rsafe_Some) (simp_all add: calmly_def)
  ultimately show ?thesis using Some ok by (simp add: relay_hello_def)
qed

section \<open>Opening connections\<close>

lemma dial_refused_safe:
  assumes "relay_inv_at E r" shows "rsafe E r (Some (r\<lparr>rl_mux := snd (mux_reset (rl_mux r) sid code)\<rparr>))"
  by (rule rsafe_Some [OF inv_out [OF assms mux_calls_out(3)] calm_out [OF mux_calls_out(3)]])

lemma open_backend_conn_safe:
  assumes inv: "relay_inv r" and host: "ro_backend_host (rl_opt r) \<noteq> None"
    and L: "ids_fresh (L @ [sid]) (rl_mux r)" "used_sids r \<subseteq> set L"
  shows "rsafe {} r (open_backend_conn r sid)"
proof -
  define fd where "fd = (case os_dials (rl_os r) of [] \<Rightarrow> - 1 | d # _ \<Rightarrow> new_fd r d)"
  define r0 where "r0 = r\<lparr>rl_os := (rl_os r)\<lparr>os_dials := tl (os_dials (rl_os r))\<rparr>\<rparr>"
  have 0: "relay_inv r0" "calmly r r0" "rl_opt r0 = rl_opt r" "rl_mux r0 = rl_mux r" "used_sids r0 = used_sids r"
    using inv_os_calls [OF _ inv, of "(rl_os r)\<lparr>os_dials := tl (os_dials (rl_os r))\<rparr>"]
    by (simp_all add: r0_def calmly_def used_sids_def used_set_def)
  show ?thesis
  proof (cases "fd < 0")
    case True
    then show ?thesis
      using rsafe_from [OF dial_refused_safe [OF 0(1)] 0(2)] by (simp add: open_backend_conn_def Let_def flip: fd_def r0_def)
  next
    case False
    have new: "0 \<le> new_fd r0 fd"
      using False by (auto simp: fd_def r0_def new_fd_def split: list.splits if_splits)
    have "sid \<notin> used_sids r0" using L 0(5) by (auto simp: ids_fresh_def sorted_wrt_append)
    moreover have "(conn_clear\<lparr>rc_used := True, rc_sock := - 1, rc_cur := None\<rparr>)\<lparr>rc_sock := fd, rc_sid := sid, rc_connecting := True\<rparr> =
      conn_clear\<lparr>rc_used := True, rc_sock := fd, rc_cur := None, rc_sid := sid, rc_connecting := True\<rparr>" by simp
    ultimately obtain idx r1 r2 where o: "conn_alloc r0 = Some (Some idx, r1)"
      "sidmap_set (upd_conn_at r1 idx (\<lambda>c. c\<lparr>rc_sock := fd, rc_sid := sid, rc_connecting := True\<rparr>)) sid idx = Some r2"
      "idx \<notin> used_set r0" "used_set r2 = insert idx (used_set r0)" "used_sids r2 = insert sid (used_sids r0)" "calmly r0 r2"
      "rl_mux r2 = rl_mux r0" "rl_nactive r2 = rl_nactive r0" "rl_listen_paused r2 = rl_listen_paused r0" "rl_loop r2 = rl_loop r0"
      "rl_opt r2 = rl_opt r0"
      "\<forall>n. cap_ok (r2\<lparr>rl_nactive := n\<rparr>) \<longrightarrow> sess_ok (r2\<lparr>rl_nactive := n\<rparr>) \<longrightarrow>
         rsafe {} (r2\<lparr>rl_nactive := n\<rparr>) (conn_apply_interest (r2\<lparr>rl_nactive := n\<rparr>) idx)"
      by (rule open_slot [OF 0(1) _ new])
    have same: "r2\<lparr>rl_nactive := rl_nactive r2\<rparr> = r2" by simp
    have "sess_ok r0" "cap_ok r0" using 0(1) by (simp_all add: relay_inv_at_def)
    then have "ro_public_listen_fd (rl_opt r0) < 0" "\<not> rl_listen_paused r0" using host 0(3) by (auto simp: sess_ok_def cap_ok_def)
    then have "cap_ok r2" "sess_ok r2"
      using o(5,7,9,11) 0(3-5) L host by (auto simp: cap_ok_def sess_ok_def intro!: exI [of _ "L @ [sid]"])
    then have "rsafe {} r (conn_apply_interest r2 idx)" using o(12) [rule_format, of "rl_nactive r2"] rsafe_from [OF _ calmly_trans [OF 0(2) o(6)]] unfolding same by blast
    then show ?thesis using False o(1,2) by (simp add: open_backend_conn_def Let_def flip: fd_def r0_def)
  qed
qed

section \<open>The loop over the events\<close>

lemma next_event_some:
  assumes "ids_fresh L s" "mux_next_event s = Some (e, s')" shows "\<exists>x. e = Some x" "next_id (Some s') = next_id (Some s)"
proof -
  have "evq_inv (s_q s)" using assms(1) by (simp add: ids_fresh_def)
  then show "\<exists>x. e = Some x"
    using assms(2) evq_next_spec [of "s_q s"] by (cases "evq_content (s_q s)") (auto simp: mux_next_event_def split: option.splits)
  show "next_id (Some s') = next_id (Some s)" using assms(2) by (auto simp: mux_next_event_def next_id_def split: option.splits)
qed

lemma relay_event_safe:
  assumes inv: "relay_inv r" and n: "mux_next_event (rl_mux r) = Some (Some ev, s)"
  shows "rsafe {} (r\<lparr>rl_mux := s\<rparr>) (relay_event (r\<lparr>rl_mux := s\<rparr>) ev)"
proof -
  let ?r = "r\<lparr>rl_mux := s\<rparr>"
  have 1: "relay_inv ?r" by (rule inv_mux [OF inv mux_path_step [OF step_event [OF n]]])
  have dial: "rsafe {} ?r (open_backend_conn ?r sid)" if ev: "ev = EV_STREAM_OPENED sid meta" and host: "ro_backend_host (rl_opt r) \<noteq> None" for sid meta
  proof -
    obtain L where L: "ids_fresh L (rl_mux r)" "used_sids r \<subseteq> set L"
      using inv host by (auto simp: relay_inv_at_def sess_ok_def)
    have "ids_fresh (L @ [sid]) s" using next_opened [OF L(1) n] ev by simp
    moreover have "used_sids ?r \<subseteq> set L" using L(2) by (simp add: used_sids_def used_set_def)
    ultimately show ?thesis using open_backend_conn_safe [OF 1] host by simp
  qed
  have stop: "rsafe {} ?r (Some (?r\<lparr>rl_stop := True\<rparr>))" using 1 by (intro rsafe_Some) (simp_all add: calmly_def)
  show ?thesis
    using 1 dial stop dial_refused_safe [OF 1] rsafe_Some [OF 1 calmly_refl]
    by (cases ev) (auto simp: relay_event_def relay_hello_safe relay_data_safe relay_closed_safe relay_reset_safe relay_writable_safe
        split: option.splits)
qed

lemma relay_handle_events_safe: "relay_inv r \<Longrightarrow> rsafe {} r (relay_handle_events r)"
proof (induction "evs_left (Some (rl_mux r))" arbitrary: r rule: less_induct)
  case less
  show ?case
  proof (cases "mux_next_event (rl_mux r)")
    case None
    then show ?thesis using less.prems by (subst relay_handle_events.simps) (simp add: rsafe_Some)
  next
    case (Some p)
    obtain L where L: "ids_fresh L (rl_mux r)" using less.prems by (auto simp: relay_inv_at_def sess_ok_def)
    obtain ev s where p: "mux_next_event (rl_mux r) = Some (Some ev, s)"
      using Some next_event_some [OF L] by (cases p) fastforce
    have lt: "evs_left (Some s) < evs_left (Some (rl_mux r))" by (rule next_event_left [OF L p])
    have c: "calmly r (r\<lparr>rl_mux := s\<rparr>)" 
      using lt mux_path_step [OF step_event [OF p]] next_event_some [OF L p] by (simp add: mux_out_def)
    obtain r1 where r1: "relay_event (r\<lparr>rl_mux := s\<rparr>) ev = Some r1" "relay_inv r1" "calmly (r\<lparr>rl_mux := s\<rparr>) r1"
      using relay_event_safe [OF less.prems p] by (auto simp: rsafe_def)
    have "evs_left (Some (rl_mux r1)) < evs_left (Some (rl_mux r))" using r1(3) lt by (simp add: calmly_def mux_out_def)
    from rsafe_from [OF less.hyps [OF this r1(2)] calmly_trans [OF c r1(3)]] show ?thesis
      using p r1(1) by (subst relay_handle_events.simps) simp
  qed
qed

end
