(* ===== verification/Mux_Relay_Accept.thy ===== *)
theory Mux_Relay_Accept
  imports Mux_Relay_Events
begin

text \<open>
  Accepting clients up to the cap, and what the phases of the main loop keep.
\<close>

section \<open>States between phases\<close>

definition room :: "relay \<Rightarrow> bool" where
  "room r \<longleftrightarrow> ids_room (length (os_accepts (rl_os r))) (Some (rl_mux r))"

definition relay_ok :: "relay \<Rightarrow> bool" where
  "relay_ok r \<longleftrightarrow> relay_inv r \<and> length (rl_recv r) \<le> RECV_BUF"

definition keeps :: "relay \<Rightarrow> relay \<Rightarrow> bool" where
  "keeps r r' \<longleftrightarrow> rl_opt r' = rl_opt r \<and> rl_tunnel_fd r' = rl_tunnel_fd r \<and> length (rl_recv r') \<le> max (length (rl_recv r)) RECV_BUF \<and>
     length (os_reads (rl_os r')) \<le> length (os_reads (rl_os r)) \<and> (room r \<longrightarrow> room r')"

definition okays :: "relay \<Rightarrow> relay option \<Rightarrow> bool" where
  "okays r x \<longleftrightarrow> (\<exists>r'. x = Some r' \<and> relay_ok r' \<and> keeps r r')"

lemma keeps_refl [simp]: "keeps r r"
  by (simp add: keeps_def)

lemma keeps_trans: "keeps r r' \<Longrightarrow> keeps r' r'' \<Longrightarrow> keeps r r''"
  by (auto simp: keeps_def)

lemma calm_keeps: "calmly r r' \<Longrightarrow> keeps r r'"
  using ids_room_out [of "Some (rl_mux r)" "Some (rl_mux r')"] by (simp add: calmly_def keeps_def room_def)

lemma calm_ok: "relay_ok r \<Longrightarrow> rsafe {} r x \<Longrightarrow> okays r x"
  using calm_keeps by (auto simp: okays_def rsafe_def relay_ok_def calmly_def)

lemma okays_from: "okays r' x \<Longrightarrow> keeps r r' \<Longrightarrow> okays r x"
  unfolding okays_def using keeps_trans by blast

section \<open>Accepting\<close>

lemma inv_close_new:
  assumes inv: "relay_inv r" and fd: "0 \<le> new_fd r fd" shows "relay_inv (os_do r (Closed fd))"
proof -
  let ?r = "os_do r (Closed fd)"
  have "conn_fine {} ?r i" if i: "i < length (rl_conns r)" for i
  proof (rule fine_carry [OF inv_fine [OF inv i]])
    assume u: "rc_used (rl_conns r ! i)" "write_broken (os_log (rl_os r)) (rc_sock (rl_conns r ! i))"
    have "rc_sock (rl_conns r ! i) \<noteq> fd" using new_fd_free(4) [OF fd, of i] u(1) i by (simp add: used_set_def)
    then show "write_broken (os_log (rl_os ?r)) (rc_sock (rl_conns r ! i))" using u(2) by simp
  qed simp_all
  moreover have "slab_ok ?r = slab_ok r" "map_ok ?r = map_ok r" "socks_ok ?r = socks_ok r" "dirty_ok ?r = dirty_ok r"
    "cap_ok ?r = cap_ok r" "tun_ok ?r = tun_ok r" "sess_ok ?r = sess_ok r"
    by (rule slab_cong map_cong socks_cong dirty_cong cap_cong tun_cong sess_cong; simp add: os_do_def)+
  ultimately show ?thesis using inv by (simp add: relay_inv_at_def)
qed

text \<open>What accepting a client may change.\<close>

definition accepted :: "nat \<Rightarrow> relay \<Rightarrow> relay \<Rightarrow> bool" where
  "accepted k r r' \<longleftrightarrow> rl_opt r' = rl_opt r \<and> rl_tunnel_fd r' = rl_tunnel_fd r \<and> rl_recv r' = rl_recv r \<and>
     length (os_reads (rl_os r')) \<le> length (os_reads (rl_os r)) \<and> os_accepts (rl_os r') = os_accepts (rl_os r) \<and>
     ids_room k (Some (rl_mux r'))"

lemma accepted_calm: "accepted k r r' \<Longrightarrow> calmly r' r'' \<Longrightarrow> accepted k r r''"
  using ids_room_out [of "Some (rl_mux r')" "Some (rl_mux r'')"] by (auto simp: accepted_def calmly_def)

lemma accept_one_safe:
  assumes inv: "relay_inv r" and cap: "\<not> at_cap r" and lfd: "0 \<le> ro_public_listen_fd (rl_opt r)" and fd: "0 \<le> new_fd r fd"
    and ids: "ids_room (Suc k) (Some (rl_mux r))"
  shows "\<exists>r'. accept_one r fd peer = Some r' \<and> relay_inv r' \<and> accepted k r r'"
proof (cases "rl_authed r")
  case False
  then show ?thesis using inv_close_new [OF inv fd] ids_room_less [OF ids, of k] by (simp add: accept_one_def accepted_def)
next
  case True
  obtain x s where mo: "mux_open (rl_mux r) (Some peer) (length peer) = (x, s)" by fastforce
  have o: "mux_path (Some (rl_mux r)) (Some s)" "ids_room k (Some s)"
    "\<And>sid. x = Inr sid \<Longrightarrow> \<not> ids_below sid (rl_mux r) \<and> ids_below sid s"
    using via_open_spec [of "Some (rl_mux r)" "Some peer" x "Some s", OF _ ids] mo by simp_all
  define r0 where "r0 = r\<lparr>rl_mux := s\<rparr>"
  have 0: "relay_inv r0" unfolding r0_def by (rule inv_mux [OF inv o(1)])
  have a0: "accepted k r r0" "0 \<le> new_fd r0 fd" "rl_opt r0 = rl_opt r" "used_sids r0 = used_sids r" "rl_mux r0 = s" "rl_nactive r0 = rl_nactive r"
    using o(2) fd by (simp_all add: r0_def accepted_def new_fd_def used_sids_def used_set_def)
  show ?thesis
  proof (cases x)
    case (Inl e)
    then show ?thesis using True mo inv_close_new [OF 0 a0(2)] a0(1) by (simp add: accept_one_def r0_def accepted_def)
  next
    case (Inr sid)
    have se: "sess_ok r" "sess_ok r0" and cp: "cap_ok r0" using inv 0 by (simp_all add: relay_inv_at_def)
    then have host: "ro_backend_host (rl_opt r) = None" using lfd by (auto simp: sess_ok_def)
    have "sid \<notin> used_sids r" using se(1) host o(3) [OF Inr] by (auto simp: sess_ok_def)
    then have new: "sid \<notin> used_sids r0" using a0(4) by simp
    have "(conn_clear\<lparr>rc_used := True, rc_sock := - 1, rc_cur := None\<rparr>)\<lparr>rc_sock := fd, rc_sid := sid\<rparr> =
      conn_clear\<lparr>rc_used := True, rc_sock := fd, rc_cur := None, rc_sid := sid, rc_connecting := False\<rparr>" by (simp add: conn_clear_def)
    then obtain idx r1 r2 where p: "conn_alloc r0 = Some (Some idx, r1)"
      "sidmap_set (upd_conn_at r1 idx (\<lambda>c. c\<lparr>rc_sock := fd, rc_sid := sid\<rparr>)) sid idx = Some r2"
      "idx \<notin> used_set r0" "used_set r2 = insert idx (used_set r0)" "used_sids r2 = insert sid (used_sids r0)" "calmly r0 r2"
      "rl_mux r2 = rl_mux r0" "rl_nactive r2 = rl_nactive r0" "rl_listen_paused r2 = rl_listen_paused r0" "rl_loop r2 = rl_loop r0"
      "rl_opt r2 = rl_opt r0"
      "\<forall>n. cap_ok (r2\<lparr>rl_nactive := n\<rparr>) \<longrightarrow> sess_ok (r2\<lparr>rl_nactive := n\<rparr>) \<longrightarrow>
         rsafe {} (r2\<lparr>rl_nactive := n\<rparr>) (conn_apply_interest (r2\<lparr>rl_nactive := n\<rparr>) idx)"
      by (rule open_slot [OF 0 new a0(2)])
    define r3 where "r3 = r2\<lparr>rl_nactive := rl_nactive r2 + 1\<rparr>"
    have u3: "used_set r3 = insert idx (used_set r0)" "used_sids r3 = insert sid (used_sids r0)"
      using p(4,5) by (simp_all add: r3_def used_set_def used_sids_def)
    have fin: "finite (used_set r0)" by (simp add: used_set_def)
    have "\<not> rl_listen_paused r0" using cp cap a0(3,6) by (auto simp: cap_ok_def at_cap_def)
    then have "cap_ok r3" using cp cap lfd a0(3,6) p(3,8-11) fin u3(1) by (auto simp: cap_ok_def at_cap_def r3_def Let_def)
    moreover have "sess_ok r3"
      using se(2) host a0(3,5) o(3) [OF Inr] p(7,11) u3(2) by (auto simp: sess_ok_def r3_def)
    ultimately have "rsafe {} r3 (conn_apply_interest r3 idx)" using p(12) by (simp add: r3_def)
    then obtain r4 where r4: "conn_apply_interest r3 idx = Some r4" "relay_inv r4" "calmly r3 r4" by (auto simp: rsafe_def)
    have "accepted k r r3" using accepted_calm [OF a0(1) p(6)] by (simp add: r3_def accepted_def)
    from accepted_calm [OF this r4(3)] show ?thesis
      using True Inr mo p(1,2) r4(1,2) by (simp add: accept_one_def r3_def flip: r0_def)
  qed
qed

text \<open>Pausing the listener.\<close>

lemma inv_pause:
  assumes inv: "relay_inv r" and cap: "at_cap r" and lfd: "0 \<le> ro_public_listen_fd (rl_opt r)"
  shows "relay_inv ((evloop_set r (ro_public_listen_fd (rl_opt r)) False False OWN_LISTEN)\<lparr>rl_listen_paused := True\<rparr>)"
proof -
  define r' where "r' = (evloop_set r (ro_public_listen_fd (rl_opt r)) False False OWN_LISTEN)\<lparr>rl_listen_paused := True\<rparr>"
  have p: "cap_ok r" "tun_ok r" using inv by (simp_all add: relay_inv_at_def)
  have sel: "rl_conns r' = rl_conns r" "rl_opt r' = rl_opt r" "rl_tunnel_fd r' = rl_tunnel_fd r" "rl_dirty r' = rl_dirty r" "rl_os r' = rl_os r"
    "rl_nactive r' = rl_nactive r" "rl_listen_paused r'" "rl_tun r' = rl_tun r" "rl_loop r' = (rl_loop r)(ro_public_listen_fd (rl_opt r) \<mapsto> (False, False, OWN_LISTEN))"
    by (simp_all add: r'_def)
  have "conn_fine {} r' i" if i: "i < length (rl_conns r)" for i
    using inv_fine [OF inv i] sel by (intro fine_carry [OF inv_fine [OF inv i]]) (auto simp: conn_fine_def Let_def)
  moreover have "cap_ok r'" using p(1) cap lfd sel used_cong [OF sel(1)] by (simp add: cap_ok_def at_cap_def Let_def)
  moreover have "tun_ok r'" using p(2) sel by (simp add: tun_ok_def)
  moreover have "slab_ok r' = slab_ok r" "map_ok r' = map_ok r" "socks_ok r' = socks_ok r" "dirty_ok r' = dirty_ok r" "sess_ok r' = sess_ok r"
    by (rule slab_cong map_cong socks_cong dirty_cong sess_cong; simp add: r'_def)+
  moreover have "rl_mem r' = rl_mem r" by (simp add: r'_def)
  ultimately show ?thesis using inv sel(1) unfolding r'_def [symmetric] by (simp add: relay_inv_at_def)
qed

lemma accept_loop_safe:
  assumes "relay_inv r" "0 \<le> ro_public_listen_fd (rl_opt r)" "os_accepts (rl_os r) = acc" "ids_room (length acc) (Some (rl_mux r))"
  shows "\<exists>r'. accept_loop r acc = Some r' \<and> relay_inv r' \<and> keeps r r' \<and> rl_recv r' = rl_recv r"
  using assms
proof (induction acc arbitrary: r)
  case Nil
  then show ?case using inv_pause [OF Nil(1) _ Nil(2)] by (auto simp: accept_loop.simps keeps_def room_def)
next
  case (Cons fp acc)
  obtain fd peer where fp: "fp = (fd, peer)" by fastforce
  define r0 where "r0 = r\<lparr>rl_os := (rl_os r)\<lparr>os_accepts := acc\<rparr>\<rparr>"
  have 0: "relay_inv r0" unfolding r0_def by (rule inv_os_calls [OF _ Cons.prems(1)]) simp
  have k0: "keeps r r0" "rl_opt r0 = rl_opt r" "rl_recv r0 = rl_recv r" "at_cap r0 = at_cap r" "os_accepts (rl_os r0) = acc" "rl_mux r0 = rl_mux r"
    using ids_room_less [OF Cons.prems(4), of "length acc"] by (simp_all add: r0_def keeps_def room_def at_cap_def)
  show ?case
  proof (cases "at_cap r")
    case True
    then show ?thesis using inv_pause [OF Cons.prems(1) _ Cons.prems(2)] Cons.prems(1) by (auto simp: accept_loop.simps keeps_def room_def)
  next
    case False
    show ?thesis
    proof (cases "new_fd r0 fd < 0")
      case True
      then show ?thesis using False fp 0 k0 by (simp add: accept_loop.simps [of r] flip: r0_def)
    next
      case neg: False
      obtain r1 where r1: "accept_one r0 fd peer = Some r1" "relay_inv r1" "accepted (length acc) r0 r1"
        using accept_one_safe [OF 0, of fd "length acc" peer] neg k0 False Cons.prems(2,4) by auto
      have k1: "keeps r r1" using r1(3) k0 by (auto simp: accepted_def keeps_def room_def)
      obtain r2 where "accept_loop r1 acc = Some r2" "relay_inv r2" "keeps r1 r2" "rl_recv r2 = rl_recv r1"
        using Cons.IH [OF r1(2)] r1(3) k0 Cons.prems(2) by (auto simp: accepted_def)
      then show ?thesis
        using False neg fp r1(1,3) k0(3) keeps_trans [OF k1] by (auto simp: accept_loop.simps [of r] accepted_def simp flip: r0_def)
    qed
  qed
qed

lemma accept_public_safe:
  assumes "relay_ok r" "0 \<le> ro_public_listen_fd (rl_opt r)" "room r" shows "okays r (accept_public r)"
  using accept_loop_safe [of r "os_accepts (rl_os r)"] assms by (auto simp: okays_def relay_ok_def room_def accept_public_def)

end
