(* ===== verification/Mux_Relay_Run.thy ===== *)
theory Mux_Relay_Run
  imports Mux_Relay_Accept Mux_Example_Session
begin

text \<open>
  The phases of the relay's main loop, the states they reach, and what holds in all of them.
\<close>

section \<open>The tunnel\<close>

lemma recv_keeps:
  assumes ok: "relay_ok r" and m: "mux_recv (rl_mux r) (Some bs) n = (cc, s)"
  shows "relay_ok (r\<lparr>rl_mux := s\<rparr>)" "keeps r (r\<lparr>rl_mux := s\<rparr>)"
proof -
  have "sess_step (rl_mux r) (snd (mux_recv (rl_mux r) (Some bs) n))" by (rule step_recv)
  then have "mux_path (Some (rl_mux r)) (Some s)" using m by (simp add: mux_path_step)
  then show "relay_ok (r\<lparr>rl_mux := s\<rparr>)" using ok inv_mux [of "{}" r s] by (simp add: relay_ok_def)
  have "s_next_local_sid s = s_next_local_sid (rl_mux r)"
    using counter.inv_recv [of "rl_mux r" "s_next_local_sid (rl_mux r)" "Some bs" n] m by simp
  then show "keeps r (r\<lparr>rl_mux := s\<rparr>)" by (simp add: keeps_def room_def ids_room_def next_id_def)
qed

lemma ok_recv: "relay_ok r \<Longrightarrow> length bs \<le> RECV_BUF \<Longrightarrow> relay_ok (r\<lparr>rl_recv := bs\<rparr>)"
  by (simp add: relay_ok_def)

lemma pump_recv_safe:
  assumes ok: "relay_ok r"
  shows "\<exists>b r'. pump_recv r = Some (b, r') \<and> relay_ok r' \<and> keeps r r' \<and> length (rl_recv r') \<le> length (rl_recv r)"
proof -
  obtain cc s where m: "mux_recv (rl_mux r) (Some (rl_recv r)) (length (rl_recv r)) = (cc, s)" by fastforce
  define r0 where "r0 = r\<lparr>rl_mux := s\<rparr>"
  note 0 = recv_keeps [OF ok m, folded r0_def]
  obtain r1 where r1: "relay_handle_events r0 = Some r1" "relay_inv r1" "calmly r0 r1"
    using relay_handle_events_safe [of r0] 0(1) by (auto simp: relay_ok_def rsafe_def)
  have k1: "keeps r r1" "rl_recv r1 = rl_recv r" using keeps_trans [OF 0(2) calm_keeps [OF r1(3)]] r1(3) by (simp_all add: calmly_def r0_def)
  have ok1: "relay_ok r1" using r1(2) k1(2) ok by (simp add: relay_ok_def)
  have len: "length (drop n (rl_recv r)) \<le> RECV_BUF" for n using ok by (simp add: relay_ok_def le_diff_conv)
  have "keeps r (r1\<lparr>rl_recv := drop n (rl_recv r)\<rparr>)" for n using k1(1) by (auto simp: keeps_def room_def)
  then show ?thesis
    using m r1(1) ok1 k1 ok_recv [OF ok1 len] by (cases cc) (auto simp: pump_recv_def simp flip: r0_def)
qed

text \<open>Reading the tunnel ends: every round reads or empties a part of the full buffer.\<close>

lemma relay_tunnel_read_safe:
  "relay_ok r \<Longrightarrow> \<exists>b r'. relay_tunnel_read r = Some (b, r') \<and> relay_ok r' \<and> keeps r r'"
proof (induction "(length (os_reads (rl_os r)), length (rl_recv r))" arbitrary: r rule: wf_induct_rule [OF wf_lex_prod [OF wf_less_than wf_less_than]])
  case (1 r)
  note IH = 1(1) and ok = 1(2)
  have again: "\<exists>b r''. (if \<not> more then Some (False, r') else if stay then Some (True, r') else relay_tunnel_read r') = Some (b, r'') \<and>
      relay_ok r'' \<and> keeps r r''"
    if "relay_ok r'" "keeps r r'" "\<not> stay \<Longrightarrow> length (os_reads (rl_os r')) < length (os_reads (rl_os r)) \<or>
      length (os_reads (rl_os r')) = length (os_reads (rl_os r)) \<and> length (rl_recv r') < length (rl_recv r)" for r' more stay
    using that IH [of r'] keeps_trans [OF that(2)] by (cases "more \<and> \<not> stay") auto
  show ?case
  proof (cases "RECV_BUF - length (rl_recv r) = 0")
    case True
    obtain b r1 where p: "pump_recv r = Some (b, r1)" "relay_ok r1" "keeps r r1" "length (rl_recv r1) \<le> length (rl_recv r)"
      using pump_recv_safe [OF ok] by blast
    have "length (os_reads (rl_os r1)) \<le> length (os_reads (rl_os r))" using p(3) by (simp add: keeps_def)
    then have "\<exists>b' r''. (if \<not> b then Some (False, r1) else if length (rl_recv r1) = length (rl_recv r) then Some (True, r1)
        else relay_tunnel_read r1) = Some (b', r'') \<and> relay_ok r'' \<and> keeps r r''"
      using p(4) by (intro again [OF p(2,3)]) auto
    then show ?thesis
      using True p(1) by (subst relay_tunnel_read.simps) (simp add: Let_def)
  next
    case False
    show ?thesis
    proof (cases "os_reads (rl_os r)")
      case Nil
      then show ?thesis using False ok by (subst relay_tunnel_read.simps) (auto simp: Let_def)
    next
      case (Cons x xs)
      let ?d = "case x of RdData d \<Rightarrow> take (RECV_BUF - length (rl_recv r)) d | _ \<Rightarrow> []"
      define r0 where "r0 = r\<lparr>rl_os := (rl_os r)\<lparr>os_reads := xs\<rparr>\<rparr>"
      define r1 where "r1 = r0\<lparr>rl_recv := rl_recv r0 @ ?d\<rparr>"
      have 0: "relay_ok r0" "keeps r r0" "os_reads (rl_os r0) = xs"
        using ok Cons inv_os_calls [of "(rl_os r)\<lparr>os_reads := xs\<rparr>" r "{}"] by (auto simp: r0_def relay_ok_def keeps_def room_def)
      have len: "length (rl_recv r0 @ ?d) \<le> RECV_BUF" using ok by (cases x) (auto simp: r0_def relay_ok_def)
      have 1: "relay_ok r1" "keeps r r1" "os_reads (rl_os r1) = xs"
        unfolding r1_def using 0 ok_recv [OF 0(1) len] len by (simp_all add: keeps_def room_def)
      obtain b r2 where p: "pump_recv r1 = Some (b, r2)" "relay_ok r2" "keeps r1 r2" using pump_recv_safe [OF 1(1)] by blast
      have lt: "length (os_reads (rl_os r2)) < length (os_reads (rl_os r))" using p(3) 1(3) Cons by (simp add: keeps_def)
      show ?thesis
        using again [OF p(2) keeps_trans [OF 1(2) p(3)], of "length ?d < RECV_BUF - length (rl_recv r)" b] lt False Cons 0 p(1)
        by (subst relay_tunnel_read.simps) (auto simp: Let_def simp flip: r0_def r1_def)
    qed
  qed
qed

lemma relay_tunnel_flush_safe:
  assumes inv: "relay_inv r" shows "\<exists>b r'. relay_tunnel_flush r = (b, r') \<and> relay_inv r' \<and> calmly r r'"
proof -
  obtain ok s ws sent where f: "flush_loop (rl_mux r) (os_writes (rl_os r)) [] = (ok, s, ws, sent)" by (metis prod_cases4)
  have out: "mux_out (Some (rl_mux r)) (Some s)" by (rule flush_loop_out [OF f])
  have "relay_inv (r\<lparr>rl_mux := s, rl_os := (rl_os r)\<lparr>os_writes := ws\<rparr>\<rparr>)"
    using inv_os_calls [OF _ inv_out [OF inv out], of "(rl_os r)\<lparr>os_writes := ws\<rparr>"] by simp
  then show ?thesis using f out inv_log by (simp add: relay_tunnel_flush_def calmly_def)
qed

section \<open>Interest\<close>

lemma tunnel_interest_safe:
  assumes inv: "relay_inv r"
  shows "relay_inv (update_tunnel_interest r)" "calmly r (update_tunnel_interest r)"
    "rl_tun (update_tunnel_interest r) = Some (mux_out_pending (rl_mux r) < 4 * 1024 * 1024, mux_out_pending (rl_mux r) > 0)"
    "rl_conns (update_tunnel_interest r) = rl_conns r" "rl_mux (update_tunnel_interest r) = rl_mux r"
proof -
  define n where "n = mux_out_pending (rl_mux r)"
  define w where "w = (n < 4 * 1024 * 1024, n > 0)"
  define r' where "r' = (if rl_tun r = Some w then r else evloop_set (r\<lparr>rl_tun := Some w\<rparr>) (rl_tunnel_fd r) (fst w) (snd w) OWN_TUNNEL)"
  have r': "update_tunnel_interest r = r'" by (simp add: update_tunnel_interest_def r'_def w_def n_def Let_def)
  have sel: "rl_conns r' = rl_conns r" "rl_opt r' = rl_opt r" "rl_tunnel_fd r' = rl_tunnel_fd r" "rl_dirty r' = rl_dirty r" "rl_os r' = rl_os r"
    "rl_nactive r' = rl_nactive r" "rl_listen_paused r' = rl_listen_paused r" "rl_mux r' = rl_mux r" "rl_recv r' = rl_recv r" "rl_mem r' = rl_mem r"
    "\<And>fd. fd \<noteq> rl_tunnel_fd r \<Longrightarrow> rl_loop r' fd = rl_loop r fd"
    by (simp_all add: r'_def)
  have tun: "tun_ok r" and cap: "cap_ok r" using inv by (simp_all add: relay_inv_at_def)
  have "conn_fine {} r' i" if i: "i < length (rl_conns r)" for i
    using inv_fine [OF inv i] sel by (intro fine_carry [OF inv_fine [OF inv i]]) (auto simp: conn_fine_def Let_def)
  moreover have "tun_ok r'" "rl_tun r' = Some w" using tun by (cases w, auto simp: tun_ok_def r'_def)+
  moreover have "cap_ok r'" using cap tun sel used_cong [OF sel(1)] by (auto simp: cap_ok_def tun_ok_def at_cap_def Let_def)
  moreover have "slab_ok r' = slab_ok r" "map_ok r' = map_ok r" "socks_ok r' = socks_ok r" "dirty_ok r' = dirty_ok r" "sess_ok r' = sess_ok r"
    by (rule slab_cong map_cong socks_cong dirty_cong sess_cong; simp add: r'_def)+
  ultimately show "relay_inv (update_tunnel_interest r)" "rl_tun (update_tunnel_interest r) = Some (mux_out_pending (rl_mux r) < 4 * 1024 * 1024, mux_out_pending (rl_mux r) > 0)"
    using inv sel(1,10) unfolding r' by (simp_all add: relay_inv_at_def w_def n_def)
  show "calmly r (update_tunnel_interest r)" "rl_conns (update_tunnel_interest r) = rl_conns r" "rl_mux (update_tunnel_interest r) = rl_mux r"
    using sel unfolding r' by (simp_all add: calmly_def)
qed

text \<open>What a completed round leaves registered.\<close>

definition settled :: "relay \<Rightarrow> bool" where
  "settled r \<longleftrightarrow> (\<forall>i \<in> used_set r. \<not> rc_in_dirty (rl_conns r ! i)) \<and>
     rl_tun r = Some (mux_out_pending (rl_mux r) < 4 * 1024 * 1024, mux_out_pending (rl_mux r) > 0)"

lemma relay_settle_safe:
  assumes inv: "relay_inv r"
  shows "\<exists>b r'. relay_settle r = Some (b, r') \<and> relay_inv r' \<and> calmly r r' \<and> (b \<longrightarrow> settled r')"
proof -
  obtain b r1 where f: "relay_tunnel_flush r = (b, r1)" "relay_inv r1" "calmly r r1" using relay_tunnel_flush_safe [OF inv] by blast
  obtain r2 where d: "flush_dirty r1 = Some r2" "relay_inv r2" "calmly r1 r2" "\<forall>i \<in> used_set r2. \<not> rc_in_dirty (rl_conns r2 ! i)"
    using flush_dirty_spec [OF f(2)] by blast
  note t = tunnel_interest_safe [OF d(2)]
  have "settled (update_tunnel_interest r2)" using t d(4) used_cong [OF t(4)] by (simp add: settled_def)
  then show ?thesis
    using f d(1) t(1) calmly_trans [OF calmly_trans [OF f(3) d(3)] t(2)] by (cases b) (auto simp: relay_settle_def)
qed

section \<open>The phases\<close>

lemma calm_pair:
  "relay_ok r \<Longrightarrow> relay_inv r' \<Longrightarrow> calmly r r' \<Longrightarrow> relay_ok r' \<and> keeps r r'"
  using calm_keeps by (auto simp: relay_ok_def calmly_def)

lemma conn_event_safe:
  assumes inv: "relay_inv r" and i: "i < length (rl_conns r)" "rc_used (rl_conns r ! i)"
  shows "rsafe {} r ((if w then on_sock_writable r i else Some r) \<bind> (\<lambda>r. conn_get r i \<bind> (\<lambda>c.
    if rc_used c \<and> rd then on_sock_readable r i else Some r)))"
proof -
  obtain r1 where r1: "(if w then on_sock_writable r i else Some r) = Some r1" "relay_inv r1" "calmly r r1"
    using on_sock_writable_safe [OF assms] inv by (cases w) (auto simp: rsafe_def)
  have len: "i < length (rl_conns r1)" using r1(3) i(1) by (simp add: calmly_def)
  have "rsafe {} r1 (if rc_used (rl_conns r1 ! i) \<and> rd then on_sock_readable r1 i else Some r1)"
    using on_sock_readable_safe [OF r1(2) len] r1(2) by (auto simp: rsafe_Some)
  from rsafe_from [OF this r1(3)] show ?thesis using r1(1) len by (simp add: conn_get_lt)
qed

lemma relay_dispatch_safe:
  assumes ok: "relay_ok r" and ids: "room r" and lfd: "ud = OWN_LISTEN \<Longrightarrow> 0 \<le> ro_public_listen_fd (rl_opt r)"
  shows "\<exists>b r'. relay_dispatch r ud rd w g = Some (b, r') \<and> relay_ok r' \<and> keeps r r'"
proof (cases ud)
  case OWN_TUNNEL
  obtain b r1 where t: "(if rd then relay_tunnel_read r else Some (True, r)) = Some (b, r1)" "relay_ok r1" "keeps r r1"
    using relay_tunnel_read_safe [OF ok] ok by (cases rd) auto
  have s: "relay_ok (r1\<lparr>rl_stop := True\<rparr>)" "keeps r (r1\<lparr>rl_stop := True\<rparr>)" using t by (simp_all add: relay_ok_def keeps_def room_def)
  obtain ok2 r2 where f: "relay_tunnel_flush r1 = (ok2, r2)" "relay_inv r2" "calmly r1 r2"
    using relay_tunnel_flush_safe [of r1] t(2) by (auto simp: relay_ok_def)
  from calm_pair [OF t(2) f(2,3)] have "relay_ok r2" "keeps r r2" using keeps_trans [OF t(3)] by auto
  then show ?thesis using OWN_TUNNEL t s f(1) by (auto simp: relay_dispatch_def)
next
  case OWN_LISTEN
  then show ?thesis using accept_public_safe [OF ok lfd ids] by (auto simp: relay_dispatch_def okays_def)
next
  case (UD_CONN i)
  show ?thesis
  proof (cases "i < length (rl_conns r) \<and> rc_used (rl_conns r ! i)")
    case True
    then have "okays r ((if w then on_sock_writable r i else Some r) \<bind> (\<lambda>r. conn_get r i \<bind> (\<lambda>c.
      if rc_used c \<and> rd then on_sock_readable r i else Some r)))"
      using ok by (intro calm_ok [OF ok] conn_event_safe) (auto simp: relay_ok_def)
    then obtain r' where r': "((if w then on_sock_writable r i else Some r) \<bind> (\<lambda>r. conn_get r i \<bind> (\<lambda>c.
      if rc_used c \<and> rd then on_sock_readable r i else Some r))) = Some r'" "relay_ok r'" "keeps r r'" by (auto simp: okays_def)
    have "relay_dispatch r ud rd w g = Some (True, r')"
      using True UD_CONN r'(1) by (auto simp: relay_dispatch_def bind_eq_Some_conv)
    then show ?thesis using r'(2,3) by blast
  qed (use UD_CONN ok in \<open>auto simp: relay_dispatch_def\<close>)
qed

lemma relay_dispatch_all_safe:
  assumes "relay_ok r" "room r" "\<forall>e \<in> set evs. fst e = OWN_LISTEN \<longrightarrow> 0 \<le> ro_public_listen_fd (rl_opt r)"
  shows "okays r (relay_dispatch_all r evs g)"
  using assms
proof (induction evs arbitrary: r)
  case (Cons e evs)
  obtain ud rd w where e: "e = (ud, rd, w)" by (cases e)
  obtain go r1 where d: "relay_dispatch r ud rd w g = Some (go, r1)" "relay_ok r1" "keeps r r1"
    using relay_dispatch_safe [OF Cons.prems(1,2), of ud] Cons.prems(3) e by fastforce
  have "okays r1 (if go then relay_dispatch_all r1 evs g else Some r1)"
    using Cons.IH [OF d(2)] Cons.prems(2,3) d(2,3) by (auto simp: keeps_def okays_def)
  from okays_from [OF this d(3)] show ?case using e d(1) by simp
qed (simp add: okays_def)

lemma relay_after_wait_safe:
  assumes "relay_ok r" "room r" "\<forall>e \<in> set evs. fst e = OWN_LISTEN \<longrightarrow> 0 \<le> ro_public_listen_fd (rl_opt r)"
  shows "\<exists>go r'. relay_after_wait r evs g = Some (go, r') \<and> relay_ok r' \<and> keeps r r' \<and> (go \<longrightarrow> settled r')"
proof -
  obtain r1 where d: "relay_dispatch_all r evs g = Some r1" "relay_ok r1" "keeps r r1"
    using relay_dispatch_all_safe [OF assms] by (auto simp: okays_def)
  obtain go r2 where s: "relay_settle r1 = Some (go, r2)" "relay_inv r2" "calmly r1 r2" "go \<longrightarrow> settled r2"
    using relay_settle_safe [of r1] d(2) by (auto simp: relay_ok_def)
  from calm_pair [OF d(2) s(2,3)] show ?thesis using d(1,3) s(1,4) keeps_trans by (auto simp: relay_after_wait_def)
qed

lemma relay_before_wait_safe:
  assumes ok: "relay_ok r"
  shows "\<exists>go r'. relay_before_wait r now g = Some (go, r') \<and> relay_ok r' \<and> keeps r r' \<and> (go \<longrightarrow> settled r')"
proof -
  define r0 where "r0 = r\<lparr>rl_mux := snd (mux_on_timer (rl_mux r) now)\<rparr>"
  have out: "mux_out (Some (rl_mux r)) (Some (rl_mux r0))" using timer_out [of "rl_mux r" now] by (simp add: mux_out_def r0_def)
  have 0: "relay_inv r0" "calmly r r0" using inv_out [of "{}" r] ok out by (simp_all add: r0_def relay_ok_def)
  obtain r1 where h: "relay_handle_events r0 = Some r1" "relay_inv r1" "calmly r0 r1"
    using relay_handle_events_safe [OF 0(1)] by (auto simp: rsafe_def)
  obtain go r2 where s: "relay_settle r1 = Some (go, r2)" "relay_inv r2" "calmly r1 r2" "go \<longrightarrow> settled r2"
    using relay_settle_safe [OF h(2)] by auto
  note c = calmly_trans [OF 0(2) h(3)]
  from calm_pair [OF ok h(2) c] calm_pair [OF ok s(2) calmly_trans [OF c s(3)]] show ?thesis
    using h(1) s(1,4) by (auto simp: relay_before_wait_def simp flip: r0_def)
qed

section \<open>Starting and stopping\<close>

lemma relay_config_total: "\<exists>x. relay_config opts nonce = Some x"
  by (auto simp: relay_config_def mux_auth_proof_def hmac_eq Let_def split: option.splits)

lemma relay_start_ok:
  assumes new: "relay_new fd opts nonce loop_ok os [] = Some (Some r)" and fds: "fd \<noteq> ro_public_listen_fd opts"
    and mode: "ro_backend_host opts = None \<or> ro_public_listen_fd opts < 0"
  shows "relay_ok (relay_start r)" "rl_opt (relay_start r) = opts" "rl_tunnel_fd (relay_start r) = fd"
proof -
  obtain mc non pf au where c: "relay_config opts nonce = Some (mc, non, pf, au)" using relay_config_total [of opts nonce] by (auto intro: prod_cases4)
  obtain s where s: "mux_session_new (Some mc) (ro_role opts) [] = Some s" and r: "rl_mux r = s" "rl_opt r = opts" "rl_tunnel_fd r = fd" "rl_conns r = []"
    "rl_free r = []" "rl_sidmap r = []" "rl_dirty r = []" "rl_nactive r = 0" "\<not> rl_listen_paused r" "rl_recv r = []" "rl_mem r = []"
    using new c by (auto simp: relay_new_def split: option.splits if_splits)
  define r' where "r' = relay_start r"
  have sel: "rl_mux r' = s" "rl_opt r' = opts" "rl_tunnel_fd r' = fd" "rl_conns r' = []"
    "rl_free r' = []" "rl_sidmap r' = []" "rl_dirty r' = []" "rl_nactive r' = 0" "\<not> rl_listen_paused r'" "rl_recv r' = []" "rl_mem r' = []"
    "rl_tun r' = Some (True, False)" "rl_loop r' fd = Some (True, False, OWN_TUNNEL)"
    "0 \<le> ro_public_listen_fd opts \<Longrightarrow> rl_loop r' (ro_public_listen_fd opts) = Some (True, False, OWN_LISTEN)"
    using r fds by (simp_all add: r'_def relay_start_def Let_def)
  have u: "used_set r' = {}" "used_sids r' = {}" by (simp_all add: used_set_def used_sids_def sel)
  have "ids_fresh [] s" by (rule fresh_start.inv_new [OF s])
  then have "sess_ok r'" using mode by (auto simp: sess_ok_def u sel)
  moreover have "slab_ok r'" by (simp add: slab_ok_def u sel)
  moreover have "map_ok r'" by (simp add: map_ok_def u sel sidmap_inv_def slots_def probe_inv_def)
  moreover have "cap_ok r'" "tun_ok r'" "dirty_ok r'" "socks_ok r'" using fds by (auto simp: cap_ok_def tun_ok_def dirty_ok_def socks_ok_def u sel at_cap_def Let_def)
  ultimately show "relay_ok (relay_start r)" by (simp add: relay_ok_def relay_inv_at_def sel flip: r'_def)
  show "rl_opt (relay_start r) = opts" "rl_tunnel_fd (relay_start r) = fd" using sel by (simp_all add: r'_def)
qed

lemma destroy_all_spec:
  assumes "relay_inv r" "set is \<subseteq> {..<length (rl_conns r)}" "distinct is"
  shows "\<exists>r'. destroy_all r is = Some r' \<and> relay_inv r' \<and> used_set r' = used_set r - set is \<and> rl_mux r' = rl_mux r \<and>
    os_log (rl_os r') = os_log (rl_os r) @ map (\<lambda>i. Closed (rc_sock (rl_conns r ! i))) (filter (\<lambda>i. rc_used (rl_conns r ! i)) is)"
  using assms
proof (induction "is" arbitrary: r)
  case (Cons i "is")
  have i: "i < length (rl_conns r)" using Cons.prems(2) by simp
  show ?case
  proof (cases "rc_used (rl_conns r ! i)")
    case False
    then show ?thesis using Cons.IH [OF Cons.prems(1)] Cons.prems(2,3) i by (auto simp: conn_get_lt used_set_def)
  next
    case True
    obtain r1 c' where d: "conn_destroy r i = Some r1" "relay_inv r1" "used_set r1 = used_set r - {i}" "rl_mux r1 = rl_mux r"
      "rl_conns r1 = (rl_conns r)[i := c']" "os_log (rl_os r1) = os_log (rl_os r) @ [Closed (rc_sock (rl_conns r ! i))]"
      using conn_destroy_spec [OF relay_inv_mono [OF Cons.prems(1) subset_insertI] i True] by auto
    have same: "rl_conns r1 ! j = rl_conns r ! j" if "j \<in> set is" for j using that Cons.prems(3) d(5) by (cases "j = i") auto
    obtain r2 where "destroy_all r1 is = Some r2" "relay_inv r2" "used_set r2 = used_set r1 - set is" "rl_mux r2 = rl_mux r1"
      "os_log (rl_os r2) = os_log (rl_os r1) @ map (\<lambda>i. Closed (rc_sock (rl_conns r1 ! i))) (filter (\<lambda>i. rc_used (rl_conns r1 ! i)) is)"
      using Cons.IH [OF d(2)] Cons.prems(2,3) d(5) by auto
    moreover have "filter (\<lambda>i. rc_used (rl_conns r1 ! i)) is = filter (\<lambda>i. rc_used (rl_conns r ! i)) is" by (rule filter_cong) (simp_all add: same)
    ultimately show ?thesis using d True i same by (auto simp: conn_get_lt cong: map_cong)
  qed
qed simp

lemma relay_free_spec:
  assumes "relay_inv r"
  shows "\<exists>r'. relay_free r = Some r' \<and> used_set r' = {} \<and> rl_mux r' = rl_mux r \<and>
    os_log (rl_os r') = os_log (rl_os r) @ map (\<lambda>i. Closed (rc_sock (rl_conns r ! i))) (filter (\<lambda>i. rc_used (rl_conns r ! i)) [0..<length (rl_conns r)])"
proof -
  have "set [0..<length (rl_conns r)] \<subseteq> {..<length (rl_conns r)}" "used_set r - set [0..<length (rl_conns r)] = {}" by (auto simp: used_set_def)
  then show ?thesis using destroy_all_spec [OF assms _ distinct_upt, of 0 "length (rl_conns r)"] by (auto simp: relay_free_def)
qed

section \<open>Reachable states\<close>

text \<open>
  A relay after \<open>relay_new\<close>, run for any number of half rounds, each with any behaviour of the
  kernel, clock, stop request and events. Memory is not exhausted.
\<close>

inductive relay_reach :: "int \<Rightarrow> relay_opts \<Rightarrow> relay \<Rightarrow> bool" for fd opts where
  relay_begins: "relay_new fd opts nonce loop_ok os [] = Some (Some r) \<Longrightarrow> relay_reach fd opts (relay_start r)"
| relay_waits: "relay_reach fd opts r \<Longrightarrow> os_log os = os_log (rl_os r) \<Longrightarrow>
    relay_before_wait (r\<lparr>rl_os := os\<rparr>) now g_stop = Some (go, r') \<Longrightarrow> relay_reach fd opts r'"
| relay_woken: "relay_reach fd opts r \<Longrightarrow> os_log os = os_log (rl_os r) \<Longrightarrow> ids_room (length (os_accepts os)) (Some (rl_mux r)) \<Longrightarrow>
    \<forall>e \<in> set evs. fst e = OWN_LISTEN \<longrightarrow> 0 \<le> ro_public_listen_fd opts \<Longrightarrow>
    relay_after_wait (r\<lparr>rl_os := os\<rparr>) evs g_stop = Some (go, r') \<Longrightarrow> relay_reach fd opts r'"

text \<open>The two ways the daemons run it: clients of a public port, or connections to a backend.\<close>

definition relay_usable :: "int \<Rightarrow> relay_opts \<Rightarrow> bool" where
  "relay_usable fd opts \<longleftrightarrow> fd \<noteq> ro_public_listen_fd opts \<and> (ro_backend_host opts = None \<or> ro_public_listen_fd opts < 0)"

lemma relay_ok_os: "relay_ok r \<Longrightarrow> os_log os = os_log (rl_os r) \<Longrightarrow> relay_ok (r\<lparr>rl_os := os\<rparr>)"
  using inv_os_calls [of os r "{}"] by (simp add: relay_ok_def)

lemma relay_reach_ok:
  assumes "relay_reach fd opts r" "relay_usable fd opts"
  shows "relay_ok r \<and> rl_opt r = opts \<and> rl_tunnel_fd r = fd"
  using assms
proof (induction rule: relay_reach.induct)
  case (relay_begins nonce loop_ok os r)
  then show ?case using relay_start_ok [OF relay_begins(1)] by (auto simp: relay_usable_def)
next
  case (relay_waits r os now g_stop go r')
  then show ?case using relay_before_wait_safe [OF relay_ok_os, of r os now g_stop] by (auto simp: keeps_def)
next
  case (relay_woken r os evs g_stop go r')
  then have "room (r\<lparr>rl_os := os\<rparr>)" by (simp add: room_def)
  then show ?case using relay_woken relay_after_wait_safe [OF relay_ok_os, of r os evs g_stop] by (auto simp: keeps_def)
qed

section \<open>Properties\<close>

text \<open>
  C8. The relay never leaves its arrays and its loops end. From every state it can reach,
  under any results of the system calls, any bytes on the tunnel and the sockets, any events
  and any clock, both halves of a round of \<open>relay_run\<close> return, and so does \<open>relay_free\<close>: no
  slot of the slab, cell of the id map or entry of the dirty list is accessed out of range,
  no probe of the map goes round forever, the loop over the session's events ends, and so
  does the loop that reads the tunnel, whose buffer is never overrun. The ids of this side
  must last for the clients that are accepted.
\<close>

theorem relay_rounds_return:
  assumes "relay_reach fd opts r" "relay_usable fd opts" "os_log os = os_log (rl_os r)"
    and "\<forall>e \<in> set evs. fst e = OWN_LISTEN \<longrightarrow> 0 \<le> ro_public_listen_fd opts" "ids_room (length (os_accepts os)) (Some (rl_mux r))"
  shows "\<exists>go1 r1 go2 r2 r3. relay_before_wait (r\<lparr>rl_os := os\<rparr>) now g_stop = Some (go1, r1) \<and>
    relay_after_wait (r\<lparr>rl_os := os\<rparr>) evs g_stop = Some (go2, r2) \<and> relay_free r = Some r3 \<and>
    length (rl_recv r1) \<le> RECV_BUF \<and> length (rl_recv r2) \<le> RECV_BUF"
proof -
  have ok: "relay_ok r" "rl_opt r = opts" using relay_reach_ok [OF assms(1,2)] by simp_all
  have "relay_ok (r\<lparr>rl_os := os\<rparr>)" "room (r\<lparr>rl_os := os\<rparr>)" using relay_ok_os [OF ok(1) assms(3)] assms(5) by (simp_all add: room_def)
  then obtain go1 r1 go2 r2 where "relay_before_wait (r\<lparr>rl_os := os\<rparr>) now g_stop = Some (go1, r1)" "relay_ok r1"
    "relay_after_wait (r\<lparr>rl_os := os\<rparr>) evs g_stop = Some (go2, r2)" "relay_ok r2"
    using relay_before_wait_safe [of "r\<lparr>rl_os := os\<rparr>" now g_stop] relay_after_wait_safe [of "r\<lparr>rl_os := os\<rparr>" evs g_stop] assms(4) ok(2) by auto
  then show ?thesis using relay_free_spec [of r] ok(1) by (auto simp: relay_ok_def)
qed

text \<open>A relay to a backend, and the same after the peer's hello and its first stream.\<close>

definition wit_opts :: relay_opts where
  "wit_opts = \<lparr>ro_role = MUX_ACCEPTOR, ro_token = None, ro_peer_id = None, ro_weight = 1, ro_init_window = 100, ro_session_window = 200,
     ro_heartbeat_ms = 1000, ro_public_listen_fd = - 1, ro_max_streams = 0, ro_backend_host = Some [104], ro_backend_port = 80\<rparr>"

definition wit_os :: "sys_read list \<Rightarrow> relay_os" where
  "wit_os rs = \<lparr>os_reads = rs, os_writes = [WrAgain], os_dials = [7], os_accepts = [], os_errors = [0], os_log = []\<rparr>"

definition wit_relay :: relay where
  "wit_relay = relay_start (the (the (relay_new 3 wit_opts [] True (wit_os []) [])))"

definition wit_busy :: relay where
  "wit_busy = snd (the (relay_after_wait (wit_relay\<lparr>rl_os := wit_os [RdData (wit_hello @ wit_syn)]\<rparr>) [(OWN_TUNNEL, True, False)] False))"

lemma wit_usable: "relay_usable 3 wit_opts"
  by (simp add: relay_usable_def wit_opts_def)

lemma wit_relay_reach: "relay_reach 3 wit_opts wit_relay"
proof -
  have "\<exists>r. relay_new 3 wit_opts [] True (wit_os []) [] = Some (Some r)"
    by (simp add: relay_new_def relay_config_def wit_opts_def mux_session_new_def HELLO_BLOB_MAX_def own_blob_def session_init_def
        st_grow_def stream_tab_zero_def Let_def)
  then show ?thesis unfolding wit_relay_def using relay_begins by fastforce
qed

lemma wit_relay_sel: "os_log (rl_os wit_relay) = [] \<and> rl_conns wit_relay = [] \<and> rl_recv wit_relay = [] \<and> s_next_local_sid (rl_mux wit_relay) = 2 \<and>
  s_out (rl_mux wit_relay) = outbuf_zero \<and> rl_dirty wit_relay = []"
  by (simp add: wit_relay_def relay_start_def evloop_set_def relay_new_def relay_config_def wit_opts_def wit_os_def mux_session_new_def
      HELLO_BLOB_MAX_def own_blob_def session_init_def st_grow_def stream_tab_zero_def Let_def)

theorem relay_rounds_return_witness:
  "\<exists>go r'. relay_after_wait (wit_relay\<lparr>rl_os := wit_os [RdData (wit_hello @ wit_syn), RdAgain]\<rparr>)
     [(OWN_TUNNEL, True, True), (UD_CONN 0, True, False)] False = Some (go, r') \<and> length (rl_recv r') \<le> RECV_BUF"
proof -
  let ?os = "wit_os [RdData (wit_hello @ wit_syn), RdAgain]"
  have "ids_room (length (os_accepts ?os)) (Some (rl_mux wit_relay))" "os_log ?os = os_log (rl_os wit_relay)"
    using wit_relay_sel by (simp_all add: ids_room_def next_id_def wit_os_def)
  then show ?thesis
    using relay_rounds_return [OF wit_relay_reach wit_usable, of ?os "[(OWN_TUNNEL, True, True), (UD_CONN 0, True, False)]" 0 False] by auto
qed

text \<open>
  C11. The tables of the relay always agree. In every state it can reach, a slot of the slab is
  in use or on the free list, never both and never twice; a lookup by stream id finds exactly
  the slot in use that carries the id; no two connections share a socket or use the tunnel's
  or the listener's; the buffers stay within their capacity; and for a public port the count
  of clients is the number of connections, never above \<open>max_streams\<close>, with the listener
  paused only when the count has reached it.
\<close>

theorem relay_well_formed:
  assumes "relay_reach fd opts r" "relay_usable fd opts"
  shows "distinct (rl_free r) \<and> set (rl_free r) = {i. i < length (rl_conns r) \<and> \<not> rc_used (rl_conns r ! i)} \<and>
    (\<exists>x. sidmap_get r sid = Some x \<and> (\<forall>i. x = Some i \<longleftrightarrow> i \<in> used_set r \<and> rc_sid (rl_conns r ! i) = sid)) \<and>
    inj_on (\<lambda>i. rc_sock (rl_conns r ! i)) (used_set r) \<and> (\<lambda>i. rc_sock (rl_conns r ! i)) ` used_set r \<inter> {fd, ro_public_listen_fd opts} = {} \<and>
    (\<forall>c \<in> set (rl_conns r). buf_inv (rc_s2m c) \<and> buf_inv (rc_m2s c)) \<and>
    (0 \<le> ro_public_listen_fd opts \<longrightarrow> rl_nactive r = card (used_set r) \<and>
       (0 < ro_max_streams opts \<longrightarrow> int (rl_nactive r) \<le> ro_max_streams opts) \<and>
       (rl_listen_paused r \<longrightarrow> 0 < ro_max_streams opts \<and> int (rl_nactive r) = ro_max_streams opts))"
proof -
  have ok: "relay_inv r" "rl_opt r = opts" "rl_tunnel_fd r = fd" using relay_reach_ok [OF assms] by (simp_all add: relay_ok_def)
  obtain hw rel where s: "hw \<le> length (rl_conns r)" "rl_free r = rel @ [hw..<length (rl_conns r)]" "distinct rel" "set rel \<subseteq> {..<hw}"
    "used_set r = {..<hw} - set rel"
    using ok(1) unfolding relay_inv_at_def slab_ok_def by blast
  have free: "distinct (rl_free r)" "set (rl_free r) = {..<length (rl_conns r)} - used_set r" using s by auto
  have m: "sidmap_inv (rl_conns r) (rl_sidmap r)" "slots (rl_sidmap r) = used_set r"
    using ok(1) by (simp_all add: relay_inv_at_def map_ok_def)
  have "sidmap_get r sid = Some (sid_lookup (rl_conns r) (rl_sidmap r) sid)" using sidmap_get_spec [OF m(1)] m(2) by (simp add: used_set_def)
  then have get: "\<exists>x. sidmap_get r sid = Some x \<and> (\<forall>i. x = Some i \<longleftrightarrow> i \<in> used_set r \<and> rc_sid (rl_conns r ! i) = sid)"
    using sid_lookup_iff(1) [OF m(1), of sid] m(2) by simp
  have "buf_inv (rc_s2m c) \<and> buf_inv (rc_m2s c)" if "c \<in> set (rl_conns r)" for c
    using that inv_fine [OF ok(1)] by (fastforce simp: in_set_conv_nth conn_fine_def Let_def)
  moreover have "rc_sock (rl_conns r ! i) \<notin> {fd, ro_public_listen_fd opts}" if "i \<in> used_set r" for i
    using that inv_fine [OF ok(1), of i] ok(2,3) by (auto simp: used_set_def conn_fine_def Let_def)
  then have "(\<lambda>i. rc_sock (rl_conns r ! i)) ` used_set r \<inter> {fd, ro_public_listen_fd opts} = {}" by blast
  moreover have "set (rl_free r) = {i. i < length (rl_conns r) \<and> \<not> rc_used (rl_conns r ! i)}" using free(2) by (auto simp: used_set_def)
  moreover have "socks_ok r" "cap_ok r" using ok(1) by (simp_all add: relay_inv_at_def)
  moreover have "0 \<le> ro_public_listen_fd opts \<longrightarrow> rl_nactive r = card (used_set r) \<and>
       (0 < ro_max_streams opts \<longrightarrow> int (rl_nactive r) \<le> ro_max_streams opts) \<and>
       (rl_listen_paused r \<longrightarrow> 0 < ro_max_streams opts \<and> int (rl_nactive r) = ro_max_streams opts)"
    using \<open>cap_ok r\<close> ok(2) unfolding cap_ok_def at_cap_def Let_def by auto
  moreover have "inj_on (\<lambda>i. rc_sock (rl_conns r ! i)) (used_set r)" using \<open>socks_ok r\<close> by (simp add: socks_ok_def)
  ultimately show ?thesis using free(1) get by blast
qed

theorem relay_well_formed_witness: "distinct (rl_free wit_relay) \<and> (\<exists>x. sidmap_get wit_relay 5 = Some x)"
  using relay_well_formed [OF wit_relay_reach wit_usable, of 5] by blast



text \<open>
  \<open>relay_free\<close> closes every socket once. From every state the relay can reach, it closes
  the sockets of the connections in use, in the order of the slots, each exactly once and no
  other descriptor, and leaves no connection in use.
\<close>

theorem relay_free_closes_all:
  assumes "relay_reach fd opts r" "relay_usable fd opts"
  shows "\<exists>r' fds. relay_free r = Some r' \<and> os_log (rl_os r') = os_log (rl_os r) @ map Closed fds \<and> distinct fds \<and>
    set fds = (\<lambda>i. rc_sock (rl_conns r ! i)) ` used_set r \<and> used_set r' = {}"
proof -
  have inv: "relay_inv r" using relay_reach_ok [OF assms] by (simp add: relay_ok_def)
  let ?is = "filter (\<lambda>i. rc_used (rl_conns r ! i)) [0..<length (rl_conns r)]"
  have uis: "set ?is = used_set r" "distinct ?is" by (auto simp: used_set_def)
  have "distinct (map (\<lambda>i. rc_sock (rl_conns r ! i)) ?is)"
    using inv uis by (simp add: distinct_map relay_inv_at_def socks_ok_def)
  then show ?thesis
    using relay_free_spec [OF inv] uis(1)
    by (intro exI [of _ "the (relay_free r)"] exI [of _ "map (\<lambda>i. rc_sock (rl_conns r ! i)) ?is"]) (auto simp: comp_def)
qed

theorem relay_free_closes_all_witness: "\<exists>r'. relay_free wit_relay = Some r' \<and> used_set r' = {}"
  using relay_free_closes_all [OF wit_relay_reach wit_usable] by blast

section \<open>The pipe\<close>

lemma sidmap_del_only:
  assumes "sidmap_del r sid = Some r'" shows "\<exists>m. r' = r\<lparr>rl_sidmap := m\<rparr>"
proof (cases "rl_sidmap r = []")
  case True
  then show ?thesis using assms by (intro exI [of _ "rl_sidmap r"]) (simp add: sidmap_del_def)
next
  case False
  then obtain e where e: "sidmap_find (rl_conns r) (rl_sidmap r) sid (sid_mix sid (length (rl_sidmap r) - 1)) (length (rl_sidmap r)) = Some e"
    using assms by (auto simp: sidmap_del_def Let_def bind_eq_Some_conv)
  then show ?thesis
    using assms False by (cases e) (auto simp: sidmap_del_def Let_def bind_eq_Some_conv intro: exI [of _ "rl_sidmap r"])
qed

lemma destroy_silent:
  assumes "conn_destroy r i = Some r'" "rc_used (rl_conns r ! i)" "0 \<le> rc_sock (rl_conns r ! i)"
  shows "rl_mux r' = rl_mux r \<and> \<not> rc_used (rl_conns r' ! i) \<and> os_log (rl_os r') = os_log (rl_os r) @ [Closed (rc_sock (rl_conns r ! i))]"
proof -
  define r0 where "r0 = os_do (evloop_del r (rc_sock (rl_conns r ! i))) (Closed (rc_sock (rl_conns r ! i)))"
  have i: "i < length (rl_conns r)" using assms(1) by (auto simp: conn_destroy_def bind_eq_Some_conv)
  obtain r1 where d: "sidmap_del r0 (rc_sid (rl_conns r ! i)) = Some r1"
    "r' = conn_resume (conn_release (upd_conn_at r1 i (\<lambda>c. c\<lparr>rc_s2m := buf_zero, rc_m2s := buf_zero, rc_in_dirty := False\<rparr>)) i)"
    using assms i by (auto simp: conn_destroy_def conn_get_lt r0_def Let_def bind_eq_Some_conv)
  have "\<exists>m. r1 = r0\<lparr>rl_sidmap := m\<rparr>"
    using sidmap_del_only [OF d(1)] by simp
  then show ?thesis using d(2) i by (auto simp: conn_release_def r0_def evloop_del_def)
qed

text \<open>
  C33. The bytes the peer sent reach the socket in order. Whatever part of the buffered bytes
  the socket takes in \<open>flush_to_socket\<close>, call by call, is a prefix of them, the rest stays
  buffered, and the session is credited for the stream with exactly the number of bytes
  taken, so a slow socket slows its peer down and no other. Only when a write fails is the
  result false.
\<close>

theorem relay_socket_pipe:
  assumes f: "flush_to_socket r i = Some (ok, r')" and buf: "buf_inv (rc_m2s (rl_conns r ! i))"
  shows "\<exists>sent ks. buf_bytes (rc_m2s (rl_conns r ! i)) = sent @ buf_bytes (rc_m2s (rl_conns r' ! i)) \<and>
    buf_inv (rc_m2s (rl_conns r' ! i)) \<and> sum_list ks = length sent \<and>
    rl_mux r' = fold (\<lambda>k s. snd (mux_consume s (rc_sid (rl_conns r ! i)) (of_nat k))) ks (rl_mux r) \<and>
    (\<exists>acts. os_log (rl_os r') = os_log (rl_os r) @ Written (rc_sock (rl_conns r ! i)) sent # acts \<and>
       (ok \<longleftrightarrow> acts \<noteq> [WriteFailed (rc_sock (rl_conns r ! i))]))"
proof -
  define c where "c = rl_conns r ! i"
  have i: "i < length (rl_conns r)" using f by (auto simp: flush_to_socket_def bind_eq_Some_conv)
  obtain ok0 s b ws sent where d: "drain_sock (rl_mux r) (rc_sid c) (rc_m2s c) (os_writes (rl_os r)) [] = (ok0, s, b, ws, sent)"
    by (metis prod_cases5)
  obtain ks where ks: "buf_bytes (rc_m2s c) = sent @ buf_bytes b" "buf_inv b" "sum_list ks = length sent"
    "s = fold (\<lambda>k s. snd (mux_consume s (rc_sid c) (of_nat k))) ks (rl_mux r)"
    using drain_sock_spec [OF d] buf by (auto simp: c_def)
  define r2 where "r2 = os_do (upd_conn_at (r\<lparr>rl_mux := s, rl_os := (rl_os r)\<lparr>os_writes := ws\<rparr>\<rparr>) i (\<lambda>c. c\<lparr>rc_m2s := b\<rparr>)) (Written (rc_sock c) sent)"
  define r3 where "r3 = (if rc_stream_fin c \<and> buf_avail b = 0 \<and> \<not> rc_sock_eof c then os_do r2 (ShutWr (rc_sock c)) else r2)"
  have "if ok0 then ok \<and> mark_dirty r3 i = Some r' else \<not> ok \<and> r' = os_do r2 (WriteFailed (rc_sock c))"
    using f i d by (auto simp: flush_to_socket_def conn_get_lt r3_def r2_def c_def Let_def bind_eq_Some_conv split: if_splits)
  moreover have "rl_mux r' = rl_mux r3 \<and> rl_os r' = rl_os r3 \<and> rc_m2s (rl_conns r' ! i) = rc_m2s (rl_conns r3 ! i)" if "mark_dirty r3 i = Some r'"
    using that by (auto simp: mark_dirty_def Let_def bind_eq_Some_conv split: if_splits prod.splits bool.splits)
  moreover have "rl_mux r3 = s" "rc_m2s (rl_conns r3 ! i) = b" "rl_mux r2 = s" "rc_m2s (rl_conns r2 ! i) = b"
    "os_log (rl_os r2) = os_log (rl_os r) @ [Written (rc_sock c) sent]"
    "os_log (rl_os r3) = os_log (rl_os r2) @ (if rc_stream_fin c \<and> buf_avail b = 0 \<and> \<not> rc_sock_eof c then [ShutWr (rc_sock c)] else [])"
    using i by (simp_all add: r3_def r2_def)
  ultimately show ?thesis using ks unfolding c_def [symmetric]
    by (intro exI [of _ sent] exI [of _ ks]) (auto split: if_splits)
qed

text \<open>A connection with three bytes for its socket.\<close>

definition wit_pipe :: relay where
  "wit_pipe = \<lparr>rl_tunnel_fd = 3, rl_mux = wit_live, rl_opt = wit_opts, rl_loop = Map.empty, rl_nonce = [], rl_proof = [], rl_authed = True,
     rl_tun = Some (True, False),
     rl_conns = [conn_clear\<lparr>rc_used := True, rc_sock := 7, rc_sid := 1, rc_m2s := \<lparr>bf_data = [1, 2, 3], bf_head = 0, bf_len = 3\<rparr>\<rparr>],
     rl_free = [], rl_sidmap = [], rl_dirty = [], rl_dirty_cap = 0, rl_nactive = 0, rl_listen_paused = False, rl_stop = False, rl_recv = [],
     rl_os = (wit_os [RdErr])\<lparr>os_writes := [WrOk 2, WrAgain]\<rparr>, rl_mem = []\<rparr>"

theorem relay_socket_pipe_witness:
  "\<exists>ok r' sent ks. flush_to_socket wit_pipe 0 = Some (ok, r') \<and> [1, 2, 3] = sent @ buf_bytes (rc_m2s (rl_conns r' ! 0)) \<and> sum_list ks = length sent"
proof -
  have "flush_to_socket wit_pipe 0 \<noteq> None" unfolding wit_pipe_def wit_live_eq by code_simp
  then obtain ok r' where f: "flush_to_socket wit_pipe 0 = Some (ok, r')" by fast
  have "buf_bytes (rc_m2s (rl_conns wit_pipe ! 0)) = [1, 2, 3]" "buf_inv (rc_m2s (rl_conns wit_pipe ! 0))"
    by (simp_all add: wit_pipe_def buf_bytes_def buf_inv_def buf_avail_def)
  then show ?thesis using f relay_socket_pipe [OF f] by metis
qed



end
