(* ===== verification/Mux_Daemons.thy ===== *)
theory Mux_Daemons
  imports Mux_Net Mux_Relay_Run
begin

text \<open>
  The two daemons around the engines: argument parsing, the supervisor and the uplink loop of
  \<^verbatim>\<open>src/edge/main.c\<close>, and argument parsing and the backend mode of \<^verbatim>\<open>src/edge-peer/main.c\<close>. The
  system calls are scripts of results, and the loops return what they did. A call of
  \<open>relay_run\<close> is one action here; the relay is the subject of its own theories. \<open>Inl\<close> is an
  exit code; \<open>None\<close> is an overflow of a \<^verbatim>\<open>long\<close>.
\<close>

section \<open>edge: arguments\<close>

record edge_args =
  ea_accept_port :: int
  ea_mux_port :: int
  ea_weight :: int
  ea_heartbeat :: int
  ea_procs :: int
  ea_max_streams :: int
  ea_token :: "bytes option"
  ea_peer_id :: bytes

definition edge_defaults :: edge_args where
  "edge_defaults = \<lparr>ea_accept_port = 0, ea_mux_port = 0, ea_weight = 1, ea_heartbeat = 0, ea_procs = 1, ea_max_streams = 8000,
     ea_token = None, ea_peer_id = lit ''edge''\<rparr>"

fun edge_parse :: "bytes list \<Rightarrow> edge_args \<Rightarrow> int + edge_args" where
  "edge_parse [] e = Inr e"
| "edge_parse (a # args) e =
     (if a = lit ''--accept-port'' \<and> args \<noteq> [] then edge_parse (tl args) (e\<lparr>ea_accept_port := strtol (hd args)\<rparr>)
      else if a = lit ''--mux-port'' \<and> args \<noteq> [] then edge_parse (tl args) (e\<lparr>ea_mux_port := strtol (hd args)\<rparr>)
      else if a = lit ''--procs'' \<and> args \<noteq> [] then edge_parse (tl args) (e\<lparr>ea_procs := strtol (hd args)\<rparr>)
      else if a = lit ''--token'' \<and> args \<noteq> [] then edge_parse (tl args) (e\<lparr>ea_token := Some (hd args)\<rparr>)
      else if a = lit ''--peer-id'' \<and> args \<noteq> [] then edge_parse (tl args) (e\<lparr>ea_peer_id := hd args\<rparr>)
      else if a = lit ''--weight'' \<and> args \<noteq> [] then edge_parse (tl args) (e\<lparr>ea_weight := strtol (hd args)\<rparr>)
      else if a = lit ''--heartbeat'' \<and> args \<noteq> [] then edge_parse (tl args) (e\<lparr>ea_heartbeat := strtol (hd args)\<rparr>)
      else if a = lit ''--max-streams'' \<and> args \<noteq> [] then edge_parse (tl args) (e\<lparr>ea_max_streams := strtol (hd args)\<rparr>)
      else if a = lit ''-h'' \<or> a = lit ''--help'' then Inl 0
      else Inl 2)"

definition edge_main :: "bytes list \<Rightarrow> bytes option \<Rightarrow> (int + edge_args) option" where
  "edge_main args mux_token =
     (case edge_parse args edge_defaults of
        Inl code \<Rightarrow> Some (Inl code)
      | Inr e \<Rightarrow>
          if ea_accept_port e \<le> 0 \<or> ea_accept_port e > 65535 \<or> ea_mux_port e \<le> 0 \<or> ea_mux_port e > 65535 then Some (Inl 2)
          else
            let e = (if ea_procs e < 1 then e\<lparr>ea_procs := 1\<rparr> else e)
            in if ea_mux_port e + ea_procs e > LONG_MAX then None
               else if ea_mux_port e + ea_procs e - 1 > 65535 then Some (Inl 2)
               else Some (Inr (if ea_token e = None then e\<lparr>ea_token := mux_token\<rparr> else e)))"

section \<open>edge: the supervisor\<close>

text \<open>
  The results of \<^verbatim>\<open>fork\<close> in the parent; a negative one ends the loop. The array was zeroed.
\<close>

fun fork_workers :: "nat \<Rightarrow> int list \<Rightarrow> int list" where
  "fork_workers 0 pids = []"
| "fork_workers (Suc n) [] = 0 # replicate n 0"
| "fork_workers (Suc n) (pid # pids) = (if pid < 0 then 0 # replicate n 0 else pid # fork_workers n pids)"

datatype wait_result = Wait_Exited int | Wait_EINTR | Wait_Failed

text \<open>Whether the loop over \<^verbatim>\<open>waitpid\<close> ends with these results; the flag is \<open>g_stop\<close> before the call.\<close>

fun supervisor_wait :: "(bool \<times> wait_result) list \<Rightarrow> bool" where
  "supervisor_wait [] = False"
| "supervisor_wait ((g_stop, w) # ws) =
     (if g_stop then True else case w of Wait_Exited _ \<Rightarrow> True | Wait_EINTR \<Rightarrow> supervisor_wait ws | Wait_Failed \<Rightarrow> True)"

definition supervisor_kills :: "int list \<Rightarrow> int list" where
  "supervisor_kills kids = filter (\<lambda>pid. pid > 0) kids"

section \<open>edge: the uplink loop\<close>

definition edge_relay_opts :: "edge_args \<Rightarrow> int \<Rightarrow> relay_opts" where
  "edge_relay_opts c public_fd =
     \<lparr>ro_role = MUX_ACCEPTOR, ro_token = ea_token c, ro_peer_id = Some (ea_peer_id c), ro_weight = of_int (ea_weight c),
      ro_init_window = 0, ro_session_window = 0, ro_heartbeat_ms = of_int (ea_heartbeat c), ro_public_listen_fd = public_fd,
      ro_max_streams = signed_take_bit 31 (ea_max_streams c), ro_backend_host = None, ro_backend_port = 0\<rparr>"

datatype proc_act = Opened int | Keepalive int int int int | Relay_Ran int relay_opts | Shut int | Slept nat

text \<open>
  Each element is the result of \<open>accept_uplink\<close> and whether \<open>relay_new\<close> succeeds; the end of the
  list is the stop request.
\<close>

fun serve_uplinks :: "relay_opts \<Rightarrow> (int \<times> bool) list \<Rightarrow> proc_act list" where
  "serve_uplinks opts [] = []"
| "serve_uplinks opts ((uplink, made) # us) =
     (if uplink < 0 then []
      else Opened uplink # Keepalive uplink 8 3 2 #
           (if \<not> made then Shut uplink # serve_uplinks opts us
            else Relay_Ran uplink opts # Shut uplink # serve_uplinks opts us))"

definition run_edge_proc :: "edge_args \<Rightarrow> int \<Rightarrow> int \<Rightarrow> (int \<times> bool) list \<Rightarrow> int \<times> proc_act list" where
  "run_edge_proc c public_fd mux_fd us =
     (if public_fd < 0 then (1, [])
      else if mux_fd < 0 then (1, [Opened public_fd])
      else (0, Opened public_fd # Opened mux_fd # serve_uplinks (edge_relay_opts c public_fd) us @ [Shut public_fd, Shut mux_fd]))"

section \<open>edge-peer: arguments\<close>

record ep_args =
  pa_edges :: "bytes option list"
  pa_workers :: "bytes list"
  pa_backend :: "bytes option"
  pa_token :: "bytes option"
  pa_peer_id :: bytes
  pa_heartbeat :: int
  pa_mem :: heap

definition ep_defaults :: "heap \<Rightarrow> ep_args" where
  "ep_defaults h = \<lparr>pa_edges = [], pa_workers = [], pa_backend = None, pa_token = None, pa_peer_id = lit ''edge-peer'', pa_heartbeat = 0, pa_mem = h\<rparr>"

text \<open>With 256 workers the address after another \<^verbatim>\<open>--worker\<close> is not consumed.\<close>

fun ep_parse :: "bytes list \<Rightarrow> ep_args \<Rightarrow> (int + ep_args) option" where
  "ep_parse [] e = Some (Inr e)"
| "ep_parse (a # args) e =
     (if (a = lit ''--connect'' \<or> a = lit ''--edge'') \<and> args \<noteq> [] then
        (case add_edge (pa_edges e) 256 (hd args) (pa_mem e) of
           None \<Rightarrow> None
         | Some (edges, h) \<Rightarrow> ep_parse (tl args) (e\<lparr>pa_edges := edges, pa_mem := h\<rparr>))
      else if a = lit ''--worker'' \<and> args \<noteq> [] then
        (if length (pa_workers e) < 256 then ep_parse (tl args) (e\<lparr>pa_workers := pa_workers e @ [hd args]\<rparr>) else ep_parse args e)
      else if a = lit ''--backend'' \<and> args \<noteq> [] then ep_parse (tl args) (e\<lparr>pa_backend := Some (hd args)\<rparr>)
      else if a = lit ''--token'' \<and> args \<noteq> [] then ep_parse (tl args) (e\<lparr>pa_token := Some (hd args)\<rparr>)
      else if a = lit ''--peer-id'' \<and> args \<noteq> [] then ep_parse (tl args) (e\<lparr>pa_peer_id := hd args\<rparr>)
      else if a = lit ''--heartbeat'' \<and> args \<noteq> [] then ep_parse (tl args) (e\<lparr>pa_heartbeat := strtol (hd args)\<rparr>)
      else if a = lit ''-h'' \<or> a = lit ''--help'' then Some (Inl 0)
      else Some (Inl 2))"

text \<open>The mode \<open>main\<close> chooses: a backend for the first edge, or the router.\<close>

datatype ep_mode = Backend_Mode "bytes option" bytes "bytes option" | Router_Mode ep_args

definition ep_main :: "bytes list \<Rightarrow> bytes option \<Rightarrow> heap \<Rightarrow> (int + ep_mode) option" where
  "ep_main args mux_token h =
     (case ep_parse args (ep_defaults h) of
        None \<Rightarrow> None
      | Some (Inl code) \<Rightarrow> Some (Inl code)
      | Some (Inr e) \<Rightarrow>
          if pa_edges e = [] \<or> pa_workers e = [] \<and> pa_backend e = None then Some (Inl 2)
          else
            let e = (if pa_token e = None then e\<lparr>pa_token := mux_token\<rparr> else e)
            in case pa_backend e of
                 Some b \<Rightarrow> Some (Inr (if pa_workers e = [] then Backend_Mode (hd (pa_edges e)) b (pa_token e) else Router_Mode e))
               | None \<Rightarrow> Some (Inr (Router_Mode e)))"

section \<open>edge-peer: backend mode\<close>

definition backend_relay_opts :: "bytes option \<Rightarrow> bytes \<Rightarrow> u16 \<Rightarrow> relay_opts" where
  "backend_relay_opts token bh bp =
     \<lparr>ro_role = MUX_DIALER, ro_token = token, ro_peer_id = Some (lit ''edge-peer''), ro_weight = 0, ro_init_window = 0,
      ro_session_window = 0, ro_heartbeat_ms = 0, ro_public_listen_fd = - 1, ro_max_streams = 0, ro_backend_host = Some bh,
      ro_backend_port = bp\<rparr>"

text \<open>
  Each element is the result of \<open>net_dial\<close>, whether the connection came up, and whether
  \<open>relay_new\<close> succeeds.
\<close>

fun backend_loop :: "relay_opts \<Rightarrow> nat \<Rightarrow> (int \<times> bool \<times> bool) list \<Rightarrow> proc_act list" where
  "backend_loop opts backoff [] = []"
| "backend_loop opts backoff ((fd, up, made) # ds) =
     (if fd < 0 \<or> \<not> up then
        (if fd \<ge> 0 then [Opened fd, Shut fd] else []) @
        Slept backoff # backend_loop opts (if backoff < 8000 then backoff * 2 else 8000) ds
      else if \<not> made then Opened fd # Shut fd # backend_loop opts 250 ds
      else Opened fd # Relay_Ran fd opts # backend_loop opts 250 ds)"

definition run_backend_mode :: "bytes option \<Rightarrow> bytes \<Rightarrow> bytes option \<Rightarrow> (int \<times> bool \<times> bool) list \<Rightarrow> int \<times> proc_act list" where
  "run_backend_mode edge backend token ds =
     (case net_parse_addr edge True 256 True of
        None \<Rightarrow> (2, [])
      | Some (eh, ep) \<Rightarrow>
          (case net_parse_addr (Some backend) True 256 True of
             None \<Rightarrow> (2, [])
           | Some (bh, bp) \<Rightarrow> (0, backend_loop (backend_relay_opts token bh bp) 250 ds)))"

section \<open>Lemmas\<close>

lemma ep_parse_bounds:
  "ep_parse args e = Some (Inr e') \<Longrightarrow> length (pa_edges e) \<le> 256 \<Longrightarrow> length (pa_workers e) \<le> 256 \<Longrightarrow>
   length (pa_edges e') \<le> 256 \<and> length (pa_workers e') \<le> 256"
proof (induction args e rule: ep_parse.induct)
  case (2 a args e)
  have "length edges \<le> 256" if "add_edge (pa_edges e) 256 (hd args) (pa_mem e) = Some (edges, h)" for edges h
    using add_edge_le [OF that] "2.prems"(2) by simp
  then show ?case using "2.IH" "2.prems" by (auto split: if_splits option.splits prod.splits)
qed simp

abbreviation acts :: "proc_act \<Rightarrow> proc_act list \<Rightarrow> nat" where
  "acts a as \<equiv> length (filter (\<lambda>x. x = a) as)"

lemma serve_uplinks_closes: "acts (Opened fd) (serve_uplinks opts us) = acts (Shut fd) (serve_uplinks opts us)"
  by (induction opts us rule: serve_uplinks.induct) auto

lemma backend_loop_leaks:
  "acts (Opened fd) (backend_loop opts b ds) = acts (Shut fd) (backend_loop opts b ds) + acts (Relay_Ran fd opts) (backend_loop opts b ds)"
  by (induction opts b ds rule: backend_loop.induct) auto

definition backoff_at :: "nat \<Rightarrow> nat" where
  "backoff_at i = min 8000 (250 * 2 ^ i)"

lemma backoff_next: "(if backoff_at j < 8000 then backoff_at j * 2 else 8000) = backoff_at (Suc j)"
proof (cases "j < 5")
  case True
  then have "j \<in> set [0..<5]" by simp
  moreover have "\<forall>j \<in> set [0..<5]. (if backoff_at j < 8000 then backoff_at j * 2 else 8000) = backoff_at (Suc j)"
    by (simp add: upt_rec backoff_at_def)
  ultimately show ?thesis by blast
next
  case False
  then have "(2 :: nat) ^ 5 \<le> 2 ^ j" by (intro power_increasing) simp_all
  then show ?thesis by (simp add: backoff_at_def)
qed

lemma backend_loop_sleeps: "backend_loop opts (backoff_at j) (replicate n (- 1, up, made)) = map (\<lambda>i. Slept (backoff_at i)) [j..<j + n]"
proof (induction n arbitrary: j)
  case (Suc n)
  then show ?case by (simp add: backoff_next upt_conv_Cons del: upt_Suc if_split)
qed simp

section \<open>Properties\<close>






text \<open>
  The arrays of edge-peer hold what the command line gives. Whatever the arguments, at
  most 256 uplinks, port ranges expanded, and at most 256 workers are stored. The address of
  a worker beyond that is not skipped but read as an option, so the program exits with 2.
\<close>

theorem ep_args_fit:
  assumes "ep_parse args (ep_defaults h) = Some (Inr e)"
  shows "length (pa_edges e) \<le> 256 \<and> length (pa_workers e) \<le> 256 \<and>
    (length (pa_workers e) = 256 \<longrightarrow> ep_parse [lit ''--worker'', lit ''/run/w.sock''] e = Some (Inl 2))"
  using ep_parse_bounds [OF assms] by (simp add: ep_defaults_def lit_def)

theorem ep_args_fit_witness:
  "\<exists>e. ep_parse [lit ''--worker'', lit ''/run/w.sock''] (ep_defaults []) = Some (Inr e) \<and> length (pa_workers e) \<le> 256"
proof -
  have run: "ep_parse [lit ''--worker'', lit ''/run/w.sock''] (ep_defaults []) = Some (Inr ((ep_defaults [])\<lparr>pa_workers := [lit ''/run/w.sock'']\<rparr>))"
    by (simp add: ep_defaults_def lit_def)
  show ?thesis using run ep_args_fit [OF run] by blast
qed

end
