(* ===== verification/Spec2Isabelle.thy ===== *)
theory Spec2Isabelle
  imports Mux_Control Mux_Keepalive Mux_Auth Mux_Swrr Mux_Libpeer_Run Mux_Evloop Mux_Daemons
begin

text \<open>
  Verification of the mux protocol library and daemons.
\<close>

end
